(* ===== verification/Prelude.thy ===== *)
theory Prelude
  imports Main "HOL-Library.Word"
begin

text \<open>
  Shared vocabulary of the development: the names of the machine types the gateway uses, the
  theorem collections the component theories fill, and the generic facts on words, bytes, lists
  and index arithmetic that their proofs rest on. Nothing in this theory models code.
\<close>

unbundle bit_operations_syntax

section \<open>Types\<close>

type_synonym u8 = "8 word"
type_synonym u16 = "16 word"
type_synonym u32 = "32 word"
type_synonym u64 = "64 word"

text \<open>Signed 64-bit quantities (latencies) only ever meet subtraction and comparison in the code;
  they are read as mathematical integers.\<close>

type_synonym i64 = int

section \<open>Collections\<close>

named_theorems wire_simps \<open>layout of the wire format\<close>
named_theorems queue_simps \<open>list view of the bounded queue\<close>
named_theorems ring_simps \<open>positions, cells and sequence words of the ring\<close>
named_theorems inv_intros \<open>one operation keeps one component invariant\<close>

section \<open>Words\<close>

lemma unat_u64_less [simp]: "unat (w :: u64) < 18446744073709551616"
  using unsigned_less [of w] by simp

lemma unat_add_small:
  fixes a b :: u64
  assumes "unat a + unat b < 2 ^ 64"
  shows "unat (a + b) = unat a + unat b"
  using assms by (simp add: unat_word_ariths)

lemma unat_of_nat_small: "n < 2 ^ 64 \<Longrightarrow> unat (of_nat n :: u64) = n"
  by (simp add: unat_of_nat)

lemma unat_add_of_nat:
  fixes a :: u64
  assumes "unat a + n < 2 ^ 64"
  shows "unat (a + of_nat n) = unat a + n"
  using assms by (simp add: unat_add_small unat_of_nat_small)

lemma unat_sub_le:
  fixes a b :: u64
  assumes "b \<le> a"
  shows "unat (a - b) = unat a - unat b"
  using assms by (simp add: unat_sub word_le_nat_alt)

lemma unat_Suc_small:
  fixes a :: u64
  assumes "unat a + 1 < 2 ^ 64"
  shows "unat (a + 1) = Suc (unat a)"
  using unat_add_of_nat [of a 1] assms by simp

lemma unat_pow2 [simp]: "k < 64 \<Longrightarrow> unat (2 ^ k :: u64) = 2 ^ k"
proof -
  assume "k < 64"
  then have "(2 :: nat) ^ k < 2 ^ 64" by (rule power_strict_increasing) simp
  from unat_of_nat_small [OF this] show ?thesis by simp
qed

section \<open>Lists\<close>

lemma nth_eq_take_hd_drop: "i < length xs \<Longrightarrow> xs ! i = hd (drop i xs)"
  by (simp add: hd_drop_conv_nth)

lemma take_add_drop: "take n xs @ take m (drop n xs) = take (n + m) xs"
  by (simp add: take_add)

section \<open>Circular indices\<close>

lemma mod_add_inj:
  fixes h i j c :: nat
  assumes "(h + i) mod c = (h + j) mod c" "i < c" "j < c"
  shows "i = j"
  using assms
proof (induction i j rule: linorder_wlog)
  case (le i j)
  then have "c dvd (h + j) - (h + i)"
    by (metis add_le_cancel_left mod_eq_dvd_iff_nat)
  then have "c dvd j - i" by simp
  with le show ?case by (auto dest: dvd_imp_le)
next
  case (sym i j)
  then show ?case by simp
qed

end
