(* ===== verification/Text.thy ===== *)
theory Text
  imports Prelude
begin

text \<open>
  The text functions of the C and C++ libraries that the programs call: decimal output, the
  searches of \<^verbatim>\<open>std::string\<close>, and the number parsers \<^verbatim>\<open>strtoul\<close>, \<^verbatim>\<open>strtol\<close> and \<^verbatim>\<open>atoi\<close> in the
  C locale of a machine with 64-bit \<^verbatim>\<open>long\<close>. Nothing here models code of the repository.
\<close>

section \<open>Decimal output\<close>

definition digit :: "nat \<Rightarrow> char" where
  "digit d = char_of (48 + d)"

fun to_dec :: "nat \<Rightarrow> string" where
  "to_dec n = (if n < 10 then [digit n] else to_dec (n div 10) @ [digit (n mod 10)])"

declare to_dec.simps [simp del]

section \<open>Searching\<close>

text \<open>\<^verbatim>\<open>find\<close> of a character from a position, \<^verbatim>\<open>rfind\<close> of a character, \<^verbatim>\<open>find\<close> of a text; \<open>None\<close> is
  \<^verbatim>\<open>npos\<close>.\<close>

definition find_char :: "char \<Rightarrow> nat \<Rightarrow> string \<Rightarrow> nat option" where
  "find_char c from s = find (\<lambda>i. s ! i = c) [from..<length s]"

definition rfind_char :: "char \<Rightarrow> string \<Rightarrow> nat option" where
  "rfind_char c s = find (\<lambda>i. s ! i = c) (rev [0..<length s])"

definition find_text :: "string \<Rightarrow> string \<Rightarrow> nat option" where
  "find_text t s = find (\<lambda>i. take (length t) (drop i s) = t) [0..<Suc (length s)]"

definition starts_with :: "string \<Rightarrow> string \<Rightarrow> bool" where
  "starts_with t s \<longleftrightarrow> take (length t) s = t"

definition substr :: "nat \<Rightarrow> nat \<Rightarrow> string \<Rightarrow> string" where
  "substr pos n s = take n (drop pos s)"

section \<open>Number parsers\<close>

definition is_space :: "char \<Rightarrow> bool" where
  "is_space c \<longleftrightarrow> c = CHR '' '' \<or> (9 \<le> (of_char c :: nat) \<and> (of_char c :: nat) \<le> 13)"

definition digit_value :: "nat \<Rightarrow> char \<Rightarrow> nat option" where
  "digit_value base c =
     (let k = of_char c :: nat;
          v = (if 48 \<le> k \<and> k \<le> 57 then k - 48
               else if 97 \<le> k \<and> k \<le> 122 then k - 87
               else if 65 \<le> k \<and> k \<le> 90 then k - 55 else 99)
      in if v < base then Some v else None)"

fun digits :: "nat \<Rightarrow> nat \<Rightarrow> string \<Rightarrow> nat" where
  "digits base acc [] = acc"
| "digits base acc (c # s) =
     (case digit_value base c of None \<Rightarrow> acc | Some d \<Rightarrow> digits base (acc * base + d) s)"

text \<open>The optional \<open>0x\<close> that base 16 allows, when a hexadecimal digit follows it.\<close>

definition skip_0x :: "nat \<Rightarrow> string \<Rightarrow> string" where
  "skip_0x base s =
     (if base = 16 \<and> length s \<ge> 3 \<and> s ! 0 = CHR ''0'' \<and> (s ! 1 = CHR ''x'' \<or> s ! 1 = CHR ''X'') \<and>
         digit_value 16 (s ! 2) \<noteq> None
      then drop 2 s else s)"

text \<open>Sign and magnitude of a number text.\<close>

definition number :: "nat \<Rightarrow> string \<Rightarrow> bool \<times> nat" where
  "number base s =
     (let s = dropWhile is_space s in
      case s of
        [] \<Rightarrow> (False, 0)
      | c # r \<Rightarrow>
          if c = CHR ''-'' then (True, digits base 0 (skip_0x base r))
          else if c = CHR ''+'' then (False, digits base 0 (skip_0x base r))
          else (False, digits base 0 (skip_0x base s)))"

definition strtoul :: "nat \<Rightarrow> string \<Rightarrow> u64" where
  "strtoul base s =
     (let (neg, v) = number base s
      in if v \<ge> 2 ^ 64 then - 1 else if neg then - of_nat v else of_nat v)"

definition strtol :: "nat \<Rightarrow> string \<Rightarrow> int" where
  "strtol base s =
     (let (neg, v) = number base s; x = (if neg then - int v else int v)
      in max (- (2 ^ 63)) (min (2 ^ 63 - 1) x))"

text \<open>\<^verbatim>\<open>atoi\<close> is \<^verbatim>\<open>strtol\<close> cut to 32 bits.\<close>

definition atoi :: "string \<Rightarrow> int" where
  "atoi s = sint (word_of_int (strtol 10 s) :: 32 word)"

section \<open>Printing and parsing numbers\<close>

lemma digit_code: "d < 10 \<Longrightarrow> (of_char (digit d) :: nat) = 48 + d"
  by (simp add: digit_def)

lemma digit_value_digit: "d < 10 \<Longrightarrow> digit_value 10 (digit d) = Some d"
  by (simp add: digit_value_def digit_code)

lemma digit_no_space: "d < 10 \<Longrightarrow> \<not> is_space (digit d)"
proof -
  assume d: "d < 10"
  have "digit d \<noteq> CHR '' ''"
  proof
    assume "digit d = CHR '' ''"
    then have "(of_char (digit d) :: nat) = of_char (CHR '' '')" by simp
    then show False using d by (simp add: digit_code)
  qed
  then show ?thesis using d by (simp add: is_space_def digit_code)
qed

lemma digit_no_sign: "d < 10 \<Longrightarrow> digit d \<noteq> CHR ''-'' \<and> digit d \<noteq> CHR ''+''"
proof -
  assume d: "d < 10"
  have "digit d \<noteq> c" if "of_char c < (48 :: nat)" for c
  proof
    assume "digit d = c"
    then have "48 + d = (of_char c :: nat)" using digit_code [OF d] by simp
    then show False using that by simp
  qed
  then show ?thesis by simp
qed

lemma to_dec_ne [simp]: "to_dec n \<noteq> []"
  by (subst to_dec.simps) simp

lemma to_dec_digits: "c \<in> set (to_dec n) \<Longrightarrow> \<exists>d < 10. c = digit d"
proof (induction n rule: to_dec.induct)
  case (1 n)
  show ?case
  proof (cases "n < 10")
    case True
    then show ?thesis using 1(2) by (auto simp: to_dec.simps [of n])
  next
    case False
    then consider "c \<in> set (to_dec (n div 10))" | "c = digit (n mod 10)"
      using 1(2) by (auto simp: to_dec.simps [of n])
    then show ?thesis
    proof cases
      case 2
      then show ?thesis by (intro exI [of _ "n mod 10"]) simp
    qed (use 1(1) False in simp)
  qed
qed

lemma digits_append: "digits 10 acc (s @ t) = digits 10 (digits 10 acc s) t"
  if "\<forall>c \<in> set s. digit_value 10 c \<noteq> None"
  using that by (induction s arbitrary: acc) auto

text \<open>The digits end where a character that is not one follows.\<close>

lemma digits_to_dec:
  assumes "r = [] \<or> digit_value 10 (hd r) = None"
  shows "digits 10 0 (to_dec n @ r) = n"
proof -
  have all: "digit_value 10 c \<noteq> None" if "c \<in> set (to_dec m)" for c m
    using to_dec_digits [OF that] digit_value_digit by auto
  have "digits 10 0 (to_dec n) = n"
  proof (induction n rule: to_dec.induct)
    case (1 n)
    show ?case
    proof (cases "n < 10")
      case True
      then show ?thesis by (simp add: to_dec.simps [of n] digit_value_digit)
    next
      case False
      then have "to_dec n = to_dec (n div 10) @ [digit (n mod 10)]" by (simp add: to_dec.simps [of n])
      then show ?thesis using 1 False all by (simp add: digits_append digit_value_digit)
    qed
  qed
  moreover have "digits 10 acc r = acc" for acc using assms by (cases r) auto
  ultimately show ?thesis using all by (simp add: digits_append)
qed

lemma number_to_dec:
  assumes "r = [] \<or> digit_value 10 (hd r) = None"
  shows "number 10 (to_dec n @ r) = (False, n)"
proof -
  obtain c s where s: "to_dec n = c # s" by (cases "to_dec n") auto
  then obtain d where d: "d < 10" "c = digit d" using to_dec_digits [of c n] by auto
  have "dropWhile is_space (to_dec n @ r) = to_dec n @ r" using s digit_no_space d by simp
  then show ?thesis using s d digit_no_sign [OF d(1)] digits_to_dec [OF assms, of n]
    by (simp add: number_def skip_0x_def)
qed

lemma strtoul_to_dec: "n < 2 ^ 64 \<Longrightarrow> strtoul 10 (to_dec n) = of_nat n"
  using number_to_dec [of "[]" n] by (simp add: strtoul_def)

lemma strtol_to_dec: "n < 2 ^ 63 \<Longrightarrow> strtol 10 (to_dec n) = int n"
  using number_to_dec [of "[]" n] by (simp add: strtol_def)

section \<open>Search results\<close>

lemma find_upt_None: "find P [a..<b] = None \<longleftrightarrow> (\<forall>i. a \<le> i \<and> i < b \<longrightarrow> \<not> P i)"
  by (auto simp: find_None_iff)

lemma find_upt_Some: "find P [a..<b] = Some i \<longleftrightarrow> a \<le> i \<and> i < b \<and> P i \<and> (\<forall>j. a \<le> j \<and> j < i \<longrightarrow> \<not> P j)"
proof (cases "a \<le> b")
  case True
  show ?thesis
  proof
    assume "find P [a..<b] = Some i"
    then obtain n where n: "n < b - a" "P (a + n)" "i = a + n" "\<forall>m<n. \<not> P (a + m)"
      by (auto simp: find_Some_iff)
    have "\<not> P j" if "a \<le> j" "j < i" for j using n(3,4) that by (auto dest: spec [of _ "j - a"])
    then show "a \<le> i \<and> i < b \<and> P i \<and> (\<forall>j. a \<le> j \<and> j < i \<longrightarrow> \<not> P j)" using n by auto
  next
    assume r: "a \<le> i \<and> i < b \<and> P i \<and> (\<forall>j. a \<le> j \<and> j < i \<longrightarrow> \<not> P j)"
    then show "find P [a..<b] = Some i"
      unfolding find_Some_iff by (intro exI [of _ "i - a"]) auto
  qed
qed auto

end
