(* ===== verification/Descriptors.thy ===== *)
theory Descriptors
  imports Text
begin

text \<open>
  Sockets, timers and event descriptors (\<^verbatim>\<open>src/tcp.cpp\<close> and the \<open>open\<close>, \<open>create\<close> and \<open>connect\<close> functions built on
  it). The operating system is the record \<open>os\<close>: a script with the outcome of each system call in the
  order they are made (\<open>0\<close> for success, otherwise \<open>errno\<close>; an exhausted script succeeds), \<open>errno\<close>, the
  descriptors that are open, and the identity the next descriptor gets. \<^verbatim>\<open>strerror\<close> and
  \<^verbatim>\<open>gai_strerror\<close> are a parameter of every function that words an error. What matters here is that no
  path, failing or not, leaks a descriptor: that is the contract of the locale \<open>opener\<close>.
\<close>

section \<open>The operating system\<close>

record os =
  os_script :: "nat list"
  os_errno :: nat
  os_fds :: "nat list"
  os_next :: nat

definition sys_call :: "os \<Rightarrow> bool \<times> os" where
  "sys_call w =
     (case os_script w of
        [] \<Rightarrow> (True, w)
      | e # es \<Rightarrow> if e = 0 then (True, w\<lparr>os_script := es\<rparr>) else (False, w\<lparr>os_script := es, os_errno := e\<rparr>))"

definition sys_open :: "os \<Rightarrow> nat option \<times> os" where
  "sys_open w =
     (case sys_call w of
        (False, w) \<Rightarrow> (None, w)
      | (True, w) \<Rightarrow> (Some (os_next w), w\<lparr>os_fds := os_next w # os_fds w, os_next := os_next w + 1\<rparr>))"

definition sys_close :: "nat \<Rightarrow> os \<Rightarrow> os" where
  "sys_close fd w = w\<lparr>os_fds := remove1 fd (os_fds w)\<rparr>"

definition EAGAIN :: nat where "EAGAIN = 11"

section \<open>tcp.cpp\<close>

definition set_nodelay :: "(nat \<Rightarrow> string) \<Rightarrow> nat \<Rightarrow> os \<Rightarrow> string option \<times> os" where
  "set_nodelay strerror fd w =
     (case sys_call w of
        (False, w) \<Rightarrow> (Some (''setsockopt(TCP_NODELAY): '' @ strerror (os_errno w)), w)
      | (True, w) \<Rightarrow> (None, w))"

text \<open>Two calls of \<^verbatim>\<open>fcntl\<close>; the second is not made when the first fails.\<close>

definition set_nonblocking :: "(nat \<Rightarrow> string) \<Rightarrow> nat \<Rightarrow> os \<Rightarrow> string option \<times> os" where
  "set_nonblocking strerror fd w =
     (case sys_call w of
        (False, w) \<Rightarrow> (Some (''fcntl(O_NONBLOCK): '' @ strerror (os_errno w)), w)
      | (True, w) \<Rightarrow>
          (case sys_call w of
             (False, w) \<Rightarrow> (Some (''fcntl(O_NONBLOCK): '' @ strerror (os_errno w)), w)
           | (True, w) \<Rightarrow> (None, w)))"

definition listen_on :: "(nat \<Rightarrow> string) \<Rightarrow> u16 \<Rightarrow> os \<Rightarrow> (string + nat) \<times> os" where
  "listen_on strerror port w =
     (case sys_open w of
        (None, w) \<Rightarrow> (Inl (''socket: '' @ strerror (os_errno w)), w)
      | (Some fd, w) \<Rightarrow>
     (case sys_call w of
        (False, w) \<Rightarrow> (Inl (''setsockopt(SO_REUSEADDR): '' @ strerror (os_errno w)), sys_close fd w)
      | (True, w) \<Rightarrow>
     (case sys_call w of
        (False, w) \<Rightarrow> (Inl (''bind port '' @ to_dec (unat port) @ '': '' @ strerror (os_errno w)), sys_close fd w)
      | (True, w) \<Rightarrow>
     (case sys_call w of
        (False, w) \<Rightarrow> (Inl (''listen: '' @ strerror (os_errno w)), sys_close fd w)
      | (True, w) \<Rightarrow>
     (case set_nonblocking strerror fd w of
        (Some e, w) \<Rightarrow> (Inl e, sys_close fd w)
      | (None, w) \<Rightarrow> (Inr fd, w))))))"

text \<open>The port the kernel reports, \<open>bound\<close>, or 0.\<close>

definition local_port :: "u16 \<Rightarrow> os \<Rightarrow> u16 \<times> os" where
  "local_port bound w = (case sys_call w of (False, w) \<Rightarrow> (0, w) | (True, w) \<Rightarrow> (bound, w))"

text \<open>The second component is \<open>would_block\<close>; it leaves \<open>error\<close> as it was, which is the empty text here.\<close>

definition accept_nonblocking :: "(nat \<Rightarrow> string) \<Rightarrow> nat \<Rightarrow> os \<Rightarrow> ((string \<times> bool) + nat) \<times> os" where
  "accept_nonblocking strerror listen_fd w =
     (case sys_open w of
        (Some fd, w) \<Rightarrow>
          (case set_nonblocking strerror fd w of
             (Some e, w) \<Rightarrow> (Inl (e, False), sys_close fd w)
           | (None, w) \<Rightarrow>
               (case set_nodelay strerror fd w of
                  (Some e, w) \<Rightarrow> (Inl (e, False), sys_close fd w)
                | (None, w) \<Rightarrow> (Inr fd, w)))
      | (None, w) \<Rightarrow>
          if os_errno w = EAGAIN then (Inl ([], True), w)
          else (Inl (''accept: '' @ strerror (os_errno w), False), w))"

text \<open>The loop of \<open>connect_to\<close> over the addresses found, \<open>n\<close> of them still to try.\<close>

fun try_addresses :: "nat \<Rightarrow> os \<Rightarrow> nat option \<times> os" where
  "try_addresses 0 w = (None, w)"
| "try_addresses (Suc n) w =
     (case sys_open w of
        (None, w) \<Rightarrow> try_addresses n w
      | (Some fd, w) \<Rightarrow>
          (case sys_call w of
             (True, w) \<Rightarrow> (Some fd, w)
           | (False, w) \<Rightarrow> try_addresses n (sys_close fd w)))"

text \<open>\<open>resolved\<close> is what \<^verbatim>\<open>getaddrinfo\<close> returned: the text of its error, or the number of addresses.\<close>

definition connect_to ::
  "(nat \<Rightarrow> string) \<Rightarrow> string + nat \<Rightarrow> string \<Rightarrow> u16 \<Rightarrow> os \<Rightarrow> (string + nat) \<times> os" where
  "connect_to strerror resolved host port w =
     (case resolved of
        Inl gai \<Rightarrow> (Inl (''getaddrinfo '' @ host @ '': '' @ gai), w)
      | Inr n \<Rightarrow>
          (case try_addresses n w of
             (None, w) \<Rightarrow>
               (Inl (''connect '' @ host @ '':'' @ to_dec (unat port) @ '': '' @ strerror (os_errno w)), w)
           | (Some fd, w) \<Rightarrow>
               (case set_nodelay strerror fd w of
                  (Some e, w) \<Rightarrow> (Inl e, sys_close fd w)
                | (None, w) \<Rightarrow> (Inr fd, w))))"

section \<open>Functions built on it\<close>

text \<open>\<open>FrameStream::connect\<close> and its destructor.\<close>

definition stream_connect ::
  "(nat \<Rightarrow> string) \<Rightarrow> string + nat \<Rightarrow> string \<Rightarrow> u16 \<Rightarrow> os \<Rightarrow> (string + nat) \<times> os" where
  "stream_connect strerror resolved host port w =
     (case connect_to strerror resolved host port w of
        (Inl e, w) \<Rightarrow> (Inl e, w)
      | (Inr fd, w) \<Rightarrow>
          (case set_nonblocking strerror fd w of
             (Some e, w) \<Rightarrow> (Inl e, sys_close fd w)
           | (None, w) \<Rightarrow> (Inr fd, w)))"

definition stream_close :: "nat \<Rightarrow> os \<Rightarrow> os" where
  "stream_close fd w = sys_close fd w"

text \<open>\<open>CanSource::open\<close> and \<open>open_can_writer\<close> of the generator. The generator's version stops after \<open>bind\<close>.\<close>

definition IFNAMSIZ :: nat where "IFNAMSIZ = 16"

fun can_options :: "(nat \<Rightarrow> string) \<Rightarrow> string list \<Rightarrow> nat \<Rightarrow> os \<Rightarrow> (string + nat) \<times> os" where
  "can_options strerror [] fd w = (Inr fd, w)"
| "can_options strerror (what # whats) fd w =
     (case sys_call w of
        (False, w) \<Rightarrow> (Inl (what @ '': '' @ strerror (os_errno w)), sys_close fd w)
      | (True, w) \<Rightarrow> can_options strerror whats fd w)"

definition open_can :: "(nat \<Rightarrow> string) \<Rightarrow> string list \<Rightarrow> string \<Rightarrow> os \<Rightarrow> (string + nat) \<times> os" where
  "open_can strerror options ifname w =
     (if length ifname \<ge> IFNAMSIZ then (Inl (''interface name too long: '' @ ifname), w)
      else case sys_open w of
        (None, w) \<Rightarrow> (Inl (''socket(PF_CAN): '' @ strerror (os_errno w)), w)
      | (Some fd, w) \<Rightarrow>
          can_options strerror ([''ioctl(SIOCGIFINDEX) on '' @ ifname, ''bind '' @ ifname] @ options) fd w)"

definition can_source_open :: "(nat \<Rightarrow> string) \<Rightarrow> string \<Rightarrow> bool \<Rightarrow> os \<Rightarrow> (string + nat) \<times> os" where
  "can_source_open strerror ifname receive_errors w =
     open_can strerror
       ([''setsockopt(SO_TIMESTAMPING)'', ''setsockopt(SO_RXQ_OVFL)'', ''setsockopt(CAN_RAW_RECV_OWN_MSGS)''] @
        (if receive_errors then [''setsockopt(CAN_RAW_ERR_FILTER)''] else []))
       ifname w"

definition open_can_writer :: "(nat \<Rightarrow> string) \<Rightarrow> string \<Rightarrow> os \<Rightarrow> (string + nat) \<times> os" where
  "open_can_writer strerror ifname w = open_can strerror [] ifname w"

text \<open>A timer (\<open>SyntheticSource::open\<close> after its checks) and an event descriptor.\<close>

definition open_timer :: "(nat \<Rightarrow> string) \<Rightarrow> os \<Rightarrow> (string + nat) \<times> os" where
  "open_timer strerror w =
     (case sys_open w of
        (None, w) \<Rightarrow> (Inl (''timerfd_create: '' @ strerror (os_errno w)), w)
      | (Some fd, w) \<Rightarrow>
          (case sys_call w of
             (False, w) \<Rightarrow> (Inl (''timerfd_settime: '' @ strerror (os_errno w)), sys_close fd w)
           | (True, w) \<Rightarrow> (Inr fd, w)))"

definition open_event :: "(nat \<Rightarrow> string) \<Rightarrow> os \<Rightarrow> (string + nat) \<times> os" where
  "open_event strerror w =
     (case sys_open w of
        (None, w) \<Rightarrow> (Inl (''eventfd: '' @ strerror (os_errno w)), w)
      | (Some fd, w) \<Rightarrow> (Inr fd, w))"

text \<open>\<open>Server::create\<close> and the second half of \<open>Egress::create\<close>: a listening socket, an event descriptor and
  the bound port.\<close>

definition listen_and_event ::
  "(nat \<Rightarrow> string) \<Rightarrow> u16 \<Rightarrow> u16 \<Rightarrow> os \<Rightarrow> (string + nat \<times> nat \<times> u16) \<times> os" where
  "listen_and_event strerror bound port w =
     (case listen_on strerror port w of
        (Inl e, w) \<Rightarrow> (Inl e, w)
      | (Inr listen_fd, w) \<Rightarrow>
          (case open_event strerror w of
             (Inl e, w) \<Rightarrow> (Inl e, sys_close listen_fd w)
           | (Inr stop_fd, w) \<Rightarrow>
               (case local_port bound w of
                  (p, w) \<Rightarrow> (Inr (listen_fd, stop_fd, if p \<noteq> 0 then p else port), w))))"

section \<open>No leak\<close>

text \<open>Descriptors are handed out in increasing order, so a new one is never open already.\<close>

definition os_ok :: "os \<Rightarrow> bool" where
  "os_ok w \<longleftrightarrow> distinct (os_fds w) \<and> (\<forall>fd \<in> set (os_fds w). fd < os_next w)"

text \<open>What a function that opens descriptors promises: on failure the open descriptors are the ones
  there were; on success there are exactly the ones it returns in addition. \<open>held\<close> are the descriptors of
  a result. \<open>attempt\<close> opens and closes again: one turn of the reconnect loop of a consumer.\<close>

definition attempt :: "(os \<Rightarrow> ('e + 'r) \<times> os) \<Rightarrow> ('r \<Rightarrow> nat list) \<Rightarrow> os \<Rightarrow> os" where
  "attempt open_fn held w =
     (case open_fn w of (Inl _, w) \<Rightarrow> w | (Inr r, w) \<Rightarrow> foldr sys_close (rev (held r)) w)"

locale opener =
  fixes open_fn :: "os \<Rightarrow> ('e + 'r) \<times> os" and held :: "'r \<Rightarrow> nat list"
  assumes fails_clean: "os_ok w \<Longrightarrow> open_fn w = (Inl e, w') \<Longrightarrow> os_ok w' \<and> os_fds w' = os_fds w \<and> os_next w \<le> os_next w'"
    and opens: "os_ok w \<Longrightarrow> open_fn w = (Inr r, w') \<Longrightarrow>
      os_ok w' \<and> os_fds w' = held r @ os_fds w \<and> os_next w \<le> os_next w' \<and> (\<forall>fd \<in> set (held r). os_next w \<le> fd)"
begin

lemma close_held: "foldr sys_close (rev (held r)) w = w\<lparr>os_fds := fold remove1 (held r) (os_fds w)\<rparr>"
proof -
  have "foldr sys_close (rev xs) w = w\<lparr>os_fds := fold remove1 xs (os_fds w)\<rparr>" for xs
    by (induction xs arbitrary: w) (simp_all add: foldr_conv_fold sys_close_def)
  then show ?thesis .
qed

lemma remove_front: "fold remove1 xs (xs @ ys) = ys"
  by (induction xs) simp_all

lemma attempt_clean: "os_ok w \<Longrightarrow> os_ok (attempt open_fn held w) \<and> os_fds (attempt open_fn held w) = os_fds w"
proof -
  assume ok: "os_ok w"
  show ?thesis
  proof (cases "open_fn w")
    case (Pair r w')
    show ?thesis
    proof (cases r)
      case (Inl e)
      then show ?thesis using fails_clean [OF ok] Pair by (simp add: attempt_def)
    next
      case (Inr x)
      then have o: "os_ok w'" "os_fds w' = held x @ os_fds w" using opens [OF ok] Pair by auto
      then have "os_ok (w'\<lparr>os_fds := os_fds w\<rparr>)" by (auto simp: os_ok_def)
      then show ?thesis using Pair Inr o by (simp add: attempt_def close_held remove_front)
    qed
  qed
qed

lemma attempts_clean: "os_ok w \<Longrightarrow> os_ok ((attempt open_fn held ^^ n) w) \<and> os_fds ((attempt open_fn held ^^ n) w) = os_fds w"
  by (induction n) (simp_all add: attempt_clean)

end

section \<open>The functions keep the contract\<close>

lemma sys_call_frame: "sys_call w = (b, w') \<Longrightarrow> os_fds w' = os_fds w \<and> os_next w' = os_next w"
  by (auto simp: sys_call_def split: list.splits if_splits)

lemma sys_open_frame:
  "sys_open w = (None, w') \<Longrightarrow> os_fds w' = os_fds w \<and> os_next w' = os_next w"
  "sys_open w = (Some fd, w') \<Longrightarrow> fd = os_next w \<and> os_fds w' = os_next w # os_fds w \<and> os_next w' = os_next w + 1"
  by (auto simp: sys_open_def split: prod.splits bool.splits dest!: sys_call_frame)

lemma set_nodelay_frame: "set_nodelay strerror fd w = (b, w') \<Longrightarrow> os_fds w' = os_fds w \<and> os_next w' = os_next w"
  by (auto simp: set_nodelay_def split: prod.splits bool.splits dest!: sys_call_frame)

lemma set_nonblocking_frame:
  "set_nonblocking strerror fd w = (b, w') \<Longrightarrow> os_fds w' = os_fds w \<and> os_next w' = os_next w"
  by (auto simp: set_nonblocking_def split: prod.splits bool.splits dest!: sys_call_frame)

lemma local_port_frame: "local_port bound w = (b, w') \<Longrightarrow> os_fds w' = os_fds w \<and> os_next w' = os_next w"
  by (auto simp: local_port_def split: prod.splits bool.splits dest!: sys_call_frame)

lemmas os_frames = sys_call_frame sys_open_frame set_nodelay_frame set_nonblocking_frame local_port_frame

text \<open>The contract as one predicate on a call, so that the functions compose.\<close>

definition opened :: "os \<Rightarrow> nat list \<Rightarrow> os \<Rightarrow> bool" where
  "opened w new w' \<longleftrightarrow> os_ok w' \<and> os_fds w' = new @ os_fds w \<and> os_next w \<le> os_next w' \<and> (\<forall>fd \<in> set new. os_next w \<le> fd)"

lemma opened_refl: "os_ok w \<Longrightarrow> os_fds w' = os_fds w \<Longrightarrow> os_next w' = os_next w \<Longrightarrow> opened w [] w'"
  by (simp add: opened_def os_ok_def)

lemma opened_one:
  "os_ok w \<Longrightarrow> os_fds w' = os_next w # os_fds w \<Longrightarrow> os_next w' = os_next w + 1 \<Longrightarrow> opened w [os_next w] w'"
  by (auto simp: opened_def os_ok_def)

lemma opened_closed: "opened w (fd # new) w' \<Longrightarrow> opened w new (sys_close fd w')"
  by (auto simp: opened_def os_ok_def sys_close_def)

lemma opened_frame: "opened w new w1 \<Longrightarrow> os_fds w' = os_fds w1 \<and> os_next w' = os_next w1 \<Longrightarrow> opened w new w'"
  by (auto simp: opened_def os_ok_def)

lemma opened_trans: "opened w a w1 \<Longrightarrow> opened w1 b w2 \<Longrightarrow> opened w (b @ a) w2"
  by (force simp: opened_def)

text \<open>One rule per shape of call: what it leaves open is what was open, or its failure branch closes it.\<close>

definition clean :: "('r \<Rightarrow> nat list) \<Rightarrow> os \<Rightarrow> ('e + 'r) \<times> os \<Rightarrow> bool" where
  "clean held w res \<longleftrightarrow> opened w (case fst res of Inl _ \<Rightarrow> [] | Inr x \<Rightarrow> held x) (snd res)"

lemma clean_Inl: "opened w [] w' \<Longrightarrow> clean held w (Inl e, w')"
  by (simp add: clean_def)

lemma clean_Inr: "opened w (held x) w' \<Longrightarrow> clean held w (Inr x, w')"
  by (simp add: clean_def)

lemma clean_open:
  assumes "os_ok w" "\<And>fd w1. opened w [fd] w1 \<Longrightarrow> clean held w (k fd w1)"
  shows "clean held w (case sys_open w of (None, w1) \<Rightarrow> (Inl (e w1), w1) | (Some fd, w1) \<Rightarrow> k fd w1)"
proof (cases "sys_open w")
  case (Pair r w1)
  show ?thesis
  proof (cases r)
    case None
    then show ?thesis using Pair assms(1) sys_open_frame(1) [of w w1] by (simp add: clean_Inl opened_refl)
  next
    case (Some fd)
    then have "opened w [fd] w1" using Pair assms(1) sys_open_frame(2) [of w fd w1] opened_one [of w w1] by simp
    then show ?thesis using Pair Some assms(2) by simp
  qed
qed

lemma clean_call:
  assumes "opened w [fd] w0" "\<And>w1. opened w [fd] w1 \<Longrightarrow> clean held w (k w1)"
  shows "clean held w (case sys_call w0 of (False, w1) \<Rightarrow> (Inl (e w1), sys_close fd w1) | (True, w1) \<Rightarrow> k w1)"
proof (cases "sys_call w0")
  case (Pair b w1)
  then have "opened w [fd] w1" using opened_frame [OF assms(1)] sys_call_frame by blast
  then show ?thesis using Pair assms(2) opened_closed by (auto intro!: clean_Inl split: bool.splits)
qed

lemma clean_opt_call:
  assumes "opened w [fd] w0" "\<And>w1. opened w [fd] w1 \<Longrightarrow> clean held w (k w1)"
    and "\<And>b w1. c = (b, w1) \<Longrightarrow> os_fds w1 = os_fds w0 \<and> os_next w1 = os_next w0"
  shows "clean held w (case c of (Some e, w1) \<Rightarrow> (Inl (g e), sys_close fd w1) | (None, w1) \<Rightarrow> k w1)"
proof (cases c)
  case (Pair b w1)
  then have "opened w [fd] w1" using opened_frame [OF assms(1)] assms(3) by blast
  then show ?thesis using Pair assms(2) opened_closed by (auto intro!: clean_Inl split: option.splits)
qed

lemma clean_then:
  assumes "clean (\<lambda>fd. [fd]) w c" "\<And>fd w1. opened w [fd] w1 \<Longrightarrow> clean held w (k fd w1)"
  shows "clean held w (case c of (Inl e, w1) \<Rightarrow> (Inl (g e), w1) | (Inr fd, w1) \<Rightarrow> k fd w1)"
proof (cases c)
  case (Pair r w1)
  then show ?thesis using assms(1) assms(2) [of _ w1] by (cases r) (simp_all add: clean_def)
qed

lemma openerI: "(\<And>w. os_ok w \<Longrightarrow> clean held w (f w)) \<Longrightarrow> opener f held"
  by unfold_locales (force simp: clean_def opened_def)+

lemma openerD: "opener f held \<Longrightarrow> os_ok w \<Longrightarrow> clean held w (f w)"
  by (cases "f w"; cases "fst (f w)")
    (auto simp: clean_def opened_def dest: opener.fails_clean opener.opens)

lemmas clean_nonblocking = clean_opt_call [OF _ _ set_nonblocking_frame]
lemmas clean_nodelay = clean_opt_call [OF _ _ set_nodelay_frame]

interpretation listener: opener "listen_on strerror port" "\<lambda>fd. [fd]"
  unfolding listen_on_def
  by (intro openerI clean_open clean_call clean_nonblocking clean_Inr)

interpretation acceptor: opener "accept_nonblocking strerror listen_fd" "\<lambda>fd. [fd]"
proof (rule openerI)
  fix w assume ok: "os_ok w"
  show "clean (\<lambda>fd. [fd]) w (accept_nonblocking strerror listen_fd w)"
  proof (cases "sys_open w")
    case (Pair r w1)
    show ?thesis
    proof (cases r)
      case None
      then show ?thesis using Pair ok sys_open_frame(1) [of w w1]
        by (simp add: accept_nonblocking_def clean_Inl opened_refl)
    next
      case (Some fd)
      then have "opened w [fd] w1" using Pair ok sys_open_frame(2) [of w fd w1] opened_one [of w w1] by simp
      then show ?thesis using Pair Some unfolding accept_nonblocking_def
        by simp (intro clean_nonblocking clean_nodelay clean_Inr)
    qed
  qed
qed

lemma try_addresses_opened:
  "os_ok w \<Longrightarrow> try_addresses n w = (r, w') \<Longrightarrow> opened w (case r of None \<Rightarrow> [] | Some fd \<Rightarrow> [fd]) w'"
proof (induction n arbitrary: w)
  case 0
  then show ?case by (auto intro: opened_refl)
next
  case (Suc n)
  obtain x w1 where o: "sys_open w = (x, w1)" by fastforce
  show ?case
  proof (cases x)
    case None
    then have "opened w [] w1" using o Suc.prems(1) sys_open_frame(1) by (simp add: opened_refl)
    then show ?thesis using Suc.IH [of w1] Suc.prems(2) o None opened_trans [of w "[]" w1]
      by (fastforce simp: opened_def)
  next
    case (Some fd)
    then have o1: "opened w [fd] w1" using o Suc.prems(1) sys_open_frame(2) [of w fd w1] opened_one [of w w1] by simp
    obtain b w2 where c: "sys_call w1 = (b, w2)" by fastforce
    then have o2: "opened w [fd] w2" using opened_frame [OF o1] sys_call_frame by blast
    then have "opened w [] (sys_close fd w2)" by (rule opened_closed)
    then show ?thesis using Suc.IH [of "sys_close fd w2"] Suc.prems(2) o Some c o2 opened_trans [of w "[]" "sys_close fd w2"]
      by (cases b) (auto simp: opened_def split: option.splits)
  qed
qed

interpretation connector: opener "connect_to strerror resolved host port" "\<lambda>fd. [fd]"
proof (rule openerI)
  fix w assume ok: "os_ok w"
  show "clean (\<lambda>fd. [fd]) w (connect_to strerror resolved host port w)"
  proof (cases resolved)
    case (Inl gai)
    then show ?thesis using ok by (simp add: connect_to_def clean_Inl opened_refl)
  next
    case (Inr n)
    obtain r w1 where t: "try_addresses n w = (r, w1)" by fastforce
    show ?thesis
    proof (cases r)
      case None
      then show ?thesis using try_addresses_opened [OF ok t] Inr t by (simp add: connect_to_def clean_Inl)
    next
      case (Some fd)
      then have "opened w [fd] w1" using try_addresses_opened [OF ok t] by simp
      then show ?thesis using Some Inr t unfolding connect_to_def
        by simp (intro clean_nodelay clean_Inr)
    qed
  qed
qed

interpretation streamer: opener "stream_connect strerror resolved host port" "\<lambda>fd. [fd]"
  unfolding stream_connect_def
  by (intro openerI clean_then [where g = "\<lambda>e. e"] clean_nonblocking clean_Inr openerD [OF connector.opener_axioms])

lemma can_options_clean: "opened w [fd] w1 \<Longrightarrow> clean (\<lambda>fd. [fd]) w (can_options strerror whats fd w1)"
proof (induction whats arbitrary: w1)
  case Nil
  then show ?case by (simp add: clean_Inr)
next
  case (Cons what whats)
  show ?case unfolding can_options.simps by (intro clean_call Cons)
qed

lemma open_can_clean: "os_ok w \<Longrightarrow> clean (\<lambda>fd. [fd]) w (open_can strerror options ifname w)"
  unfolding open_can_def by (auto intro!: clean_Inl opened_refl clean_open can_options_clean)

interpretation can_opener: opener "can_source_open strerror ifname receive_errors" "\<lambda>fd. [fd]"
  unfolding can_source_open_def by (intro openerI open_can_clean)

interpretation can_writer: opener "open_can_writer strerror ifname" "\<lambda>fd. [fd]"
  unfolding open_can_writer_def by (intro openerI open_can_clean)

interpretation timer: opener "open_timer strerror" "\<lambda>fd. [fd]"
  unfolding open_timer_def by (intro openerI clean_open clean_call clean_Inr)

interpretation event: opener "open_event strerror" "\<lambda>fd. [fd]"
  unfolding open_event_def by (intro openerI clean_open clean_Inr)

interpretation served: opener "listen_and_event strerror bound port" "\<lambda>(l, s, p). [s, l]"
proof (rule openerI)
  fix w assume ok: "os_ok w"
  have step: "clean (\<lambda>(l, s, p). [s, l]) w
      (case open_event strerror w1 of
         (Inl e, w2) \<Rightarrow> (Inl e, sys_close l w2)
       | (Inr s, w2) \<Rightarrow> (case local_port bound w2 of (p, w3) \<Rightarrow> (Inr (l, s, if p \<noteq> 0 then p else port), w3)))"
    if o1: "opened w [l] w1" for l w1
  proof -
    obtain r w2 where e: "open_event strerror w1 = (r, w2)" by fastforce
    have "os_ok w1" using o1 by (simp add: opened_def)
    then have c: "clean (\<lambda>fd. [fd]) w1 (open_event strerror w1)" by (rule openerD [OF event.opener_axioms])
    obtain p w3 where p: "local_port bound w2 = (p, w3)" by fastforce
    show ?thesis
    proof (cases r)
      case (Inl x)
      then have "opened w ([] @ [l]) w2" using c e o1 by (intro opened_trans [OF o1]) (simp add: clean_def)
      then show ?thesis using Inl e opened_closed [of w l "[]" w2] by (simp add: clean_Inl)
    next
      case (Inr s)
      then have "opened w ([s] @ [l]) w2" using c e o1 by (intro opened_trans [OF o1]) (simp add: clean_def)
      then have "opened w [s, l] w3" using opened_frame [of w "[s, l]" w2 w3] local_port_frame [OF p] by simp
      then show ?thesis using Inr e p by (simp add: clean_Inr)
    qed
  qed
  show "clean (\<lambda>(l, s, p). [s, l]) w (listen_and_event strerror bound port w)"
    unfolding listen_and_event_def
    by (intro clean_then [where g = "\<lambda>e. e"] openerD [OF listener.opener_axioms] ok step)
qed

section \<open>Properties\<close>

text \<open>(C35) No path through the opening functions leaks a descriptor. Whatever the system calls return, a
  connection, a CAN socket (of the gateway or the generator), a timer or a listening port that could
  not be set up leaves exactly the descriptors that were open before; one that could be set up adds
  exactly the descriptors it returns. A consumer may therefore lose and rebuild its connection any
  number of times without accumulating descriptors.\<close>

theorem no_descriptor_leak:
  assumes "os_ok w"
  shows "clean (\<lambda>fd. [fd]) w (stream_connect strerror resolved host port w) \<and>
    clean (\<lambda>fd. [fd]) w (can_source_open strerror ifname receive_errors w) \<and>
    clean (\<lambda>fd. [fd]) w (open_can_writer strerror ifname w) \<and>
    clean (\<lambda>fd. [fd]) w (open_timer strerror w) \<and>
    clean (\<lambda>(l, s, p). [s, l]) w (listen_and_event strerror bound port w) \<and>
    clean (\<lambda>fd. [fd]) w (accept_nonblocking strerror listen_fd w) \<and>
    os_fds ((attempt (stream_connect strerror resolved host port) (\<lambda>fd. [fd]) ^^ n) w) = os_fds w"
  using openerD [OF streamer.opener_axioms assms] openerD [OF can_opener.opener_axioms assms]
    openerD [OF can_writer.opener_axioms assms] openerD [OF timer.opener_axioms assms]
    openerD [OF served.opener_axioms assms] openerD [OF acceptor.opener_axioms assms]
    streamer.attempts_clean [OF assms]
  by blast

text \<open>A connection that is refused at the first address, made at the second, and then cannot be made
  non-blocking.\<close>

theorem no_descriptor_leak_witness:
  "let w = \<lparr>os_script = [0, 111, 0, 0, 0, 9], os_errno = 0, os_fds = [2, 1, 0], os_next = 3\<rparr>;
       res = stream_connect (\<lambda>_. ''error'') (Inr 2) ''gw'' 9001 w
   in clean (\<lambda>fd. [fd]) w res \<and> fst res = Inl ''fcntl(O_NONBLOCK): error'' \<and> os_fds (snd res) = [2, 1, 0]"
proof -
  let ?w = "\<lparr>os_script = [0, 111, 0, 0, 0, 9], os_errno = 0, os_fds = [2, 1, 0], os_next = 3\<rparr>"
  have "os_ok ?w" by (simp add: os_ok_def)
  moreover have "fst (stream_connect (\<lambda>_. ''error'') (Inr 2) ''gw'' 9001 ?w) = Inl ''fcntl(O_NONBLOCK): error''"
      "os_fds (snd (stream_connect (\<lambda>_. ''error'') (Inr 2) ''gw'' 9001 ?w)) = [2, 1, 0]"
    by code_simp+
  ultimately show ?thesis using no_descriptor_leak [of ?w "\<lambda>_. ''error''" "Inr 2" "''gw''" 9001] unfolding Let_def by blast
qed

end
