(* ===== verification/Bounded_Queue.thy ===== *)
theory Bounded_Queue
  imports Prelude "HOL-Library.Sublist"
begin

text \<open>
  The per-consumer queue of topology A (\<^verbatim>\<open>src/bounded_queue.hpp\<close>): a circular buffer under a mutex,
  drop-oldest when full. \<open>std::size_t\<close> indices are natural numbers (a vector cannot hold more than
  \<open>2^63\<close> elements, so \<open>head_ + count_\<close> does not wrap); the statistics counters are 64-bit words.
  \<open>push_batch\<close> and \<open>pop_batch\<close> are written as the critical section followed by the counter updates,
  which the code performs after releasing the mutex; \<open>wait_for\<close> is modelled by the state in which
  it returns, its predicate deciding between the critical section and the timeout. The locale
  \<open>lossy_fifo\<close> is what the fan-out and the feeds rely on: a FIFO that forgets its oldest elements
  and counts them.
\<close>

section \<open>The queue\<close>

record 'a bqueue =
  q_buf :: "'a list"
  q_capacity :: nat
  q_head :: nat
  q_count :: nat
  q_closed :: bool
  q_pushed :: u64
  q_popped :: u64
  q_dropped :: u64

record queue_stats =
  qs_pushed :: u64
  qs_popped :: u64
  qs_dropped :: u64
  qs_size :: nat
  qs_capacity :: nat

text \<open>The constructor; \<open>d\<close> is the value-initialised element the vector is filled with.\<close>

definition bq_new :: "'a \<Rightarrow> nat \<Rightarrow> 'a bqueue" where
  "bq_new d capacity =
     \<lparr>q_buf = replicate (if capacity = 0 then 1 else capacity) d,
      q_capacity = (if capacity = 0 then 1 else capacity),
      q_head = 0, q_count = 0, q_closed = False,
      q_pushed = 0, q_popped = 0, q_dropped = 0\<rparr>"

text \<open>One turn of the push loop, with the running count of drops.\<close>

definition push_item :: "'a \<Rightarrow> nat \<times> 'a bqueue \<Rightarrow> nat \<times> 'a bqueue" where
  "push_item item = (\<lambda>(dropped, q).
     let (dropped, q) =
           (if q_count q = q_capacity q
            then (Suc dropped, q\<lparr>q_head := (q_head q + 1) mod q_capacity q,
                                 q_count := q_count q - 1\<rparr>)
            else (dropped, q))
     in (dropped, q\<lparr>q_buf := (q_buf q)[(q_head q + q_count q) mod q_capacity q := item],
                    q_count := q_count q + 1\<rparr>))"

text \<open>The critical section of \<open>push_batch\<close>: \<open>None\<close> when the queue is closed.\<close>

definition push_locked :: "'a list \<Rightarrow> 'a bqueue \<Rightarrow> (nat \<times> 'a bqueue) option" where
  "push_locked items q = (if q_closed q then None else Some (fold push_item items (0, q)))"

definition push_counters :: "nat \<Rightarrow> nat \<Rightarrow> 'a bqueue \<Rightarrow> 'a bqueue" where
  "push_counters n dropped q =
     q\<lparr>q_pushed := q_pushed q + of_nat n, q_dropped := q_dropped q + of_nat dropped\<rparr>"

definition push_batch :: "'a list \<Rightarrow> 'a bqueue \<Rightarrow> nat \<times> 'a bqueue" where
  "push_batch items q =
     (if items = [] then (0, q)
      else case push_locked items q of
             None \<Rightarrow> (0, q)
           | Some (dropped, q') \<Rightarrow> (dropped, push_counters (length items) dropped q'))"

text \<open>The critical section of \<open>pop_batch\<close> in the state where \<open>wait_for\<close> returns: \<open>None\<close> when its
  predicate is false, that is, on a timeout.\<close>

definition pop_locked :: "nat \<Rightarrow> 'a bqueue \<Rightarrow> ('a list \<times> 'a bqueue) option" where
  "pop_locked out_size q =
     (if \<not> (q_count q > 0 \<or> q_closed q) then None
      else let n = (if q_count q < out_size then q_count q else out_size)
           in Some (map (\<lambda>i. q_buf q ! ((q_head q + i) mod q_capacity q)) [0..<n],
                    q\<lparr>q_head := (q_head q + n) mod q_capacity q, q_count := q_count q - n\<rparr>))"

definition pop_counters :: "nat \<Rightarrow> 'a bqueue \<Rightarrow> 'a bqueue" where
  "pop_counters n q = q\<lparr>q_popped := q_popped q + of_nat n\<rparr>"

definition pop_batch :: "nat \<Rightarrow> 'a bqueue \<Rightarrow> 'a list \<times> 'a bqueue" where
  "pop_batch out_size q =
     (if out_size = 0 then ([], q)
      else case pop_locked out_size q of
             None \<Rightarrow> ([], q)
           | Some (xs, q') \<Rightarrow> (xs, pop_counters (length xs) q'))"

definition q_close :: "'a bqueue \<Rightarrow> 'a bqueue" where
  "q_close q = q\<lparr>q_closed := True\<rparr>"

definition q_stats :: "'a bqueue \<Rightarrow> queue_stats" where
  "q_stats q = \<lparr>qs_pushed = q_pushed q, qs_popped = q_popped q, qs_dropped = q_dropped q,
     qs_size = q_count q, qs_capacity = q_capacity q\<rparr>"

section \<open>The contract\<close>

text \<open>A lossy FIFO: \<open>view\<close> is its content, oldest first; a push keeps the newest \<open>cap\<close> elements and
  reports how many it dropped; a pop takes from the front.\<close>

locale lossy_fifo =
  fixes inv :: "'q \<Rightarrow> bool"
    and view :: "'q \<Rightarrow> 'a list"
    and cap :: "'q \<Rightarrow> nat"
    and is_open :: "'q \<Rightarrow> bool"
    and push :: "'a list \<Rightarrow> 'q \<Rightarrow> nat \<times> 'q"
    and pop :: "nat \<Rightarrow> 'q \<Rightarrow> 'a list \<times> 'q"
  assumes inv_push: "inv q \<Longrightarrow> inv (snd (push xs q))"
    and inv_pop: "inv q \<Longrightarrow> inv (snd (pop n q))"
    and cap_push: "inv q \<Longrightarrow> cap (snd (push xs q)) = cap q"
    and cap_pop: "inv q \<Longrightarrow> cap (snd (pop n q)) = cap q"
    and open_push: "inv q \<Longrightarrow> is_open (snd (push xs q)) = is_open q"
    and open_pop: "inv q \<Longrightarrow> is_open (snd (pop n q)) = is_open q"
    and view_cap: "inv q \<Longrightarrow> length (view q) \<le> cap q"
    and view_push: "inv q \<Longrightarrow> is_open q \<Longrightarrow>
      view (snd (push xs q)) = drop (length (view q) + length xs - cap q) (view q @ xs)"
    and push_dropped: "inv q \<Longrightarrow> is_open q \<Longrightarrow>
      fst (push xs q) = length (view q) + length xs - cap q"
    and pop_front: "inv q \<Longrightarrow> fst (pop n q) = take n (view q)"
    and view_pop: "inv q \<Longrightarrow> view (snd (pop n q)) = drop n (view q)"
begin

text \<open>A run of pushes (\<open>Inl\<close>) and pops (\<open>Inr\<close>): everything offered, everything handed out, how many
  were dropped, and the final queue.\<close>

fun run :: "('a list + nat) list \<Rightarrow> 'q \<Rightarrow> 'a list \<times> 'a list \<times> nat \<times> 'q" where
  "run [] q = ([], [], 0, q)"
| "run (Inl xs # ops) q =
     (let (d, q') = push xs q; (ins, outs, ds, q'') = run ops q'
      in (xs @ ins, outs, d + ds, q''))"
| "run (Inr n # ops) q =
     (let (ys, q') = pop n q; (ins, outs, ds, q'') = run ops q'
      in (ins, ys @ outs, ds, q''))"

lemma run_account:
  assumes "inv q" "is_open q" "run ops q = (ins, outs, d, q')"
  shows "inv q' \<and> is_open q' \<and>
    subseq (outs @ view q') (view q @ ins) \<and>
    length (view q) + length ins = length outs + d + length (view q')"
  using assms
proof (induction ops q arbitrary: ins outs d q' rule: run.induct)
  case (1 q)
  then show ?case by simp
next
  case (2 xs ops q)
  obtain e p where p: "push xs q = (e, p)" by fastforce
  let ?k = "length (view q) + length xs - cap q"
  from 2(4) obtain ins' d' where
    r: "run ops p = (ins', outs, d', q')" and ins: "ins = xs @ ins'" and d: "d = ?k + d'"
    using p push_dropped [OF 2(2,3), of xs] by (auto split: prod.splits)
  have ip: "inv p" "is_open p" using 2(2,3) inv_push open_push p by (metis snd_conv)+
  have IH: "inv q' \<and> is_open q' \<and> subseq (outs @ view q') (view p @ ins') \<and>
      length (view p) + length ins' = length outs + d' + length (view q')"
    by (rule 2(1) [OF p [symmetric] refl ip r])
  have v: "view p = drop ?k (view q @ xs)" using view_push [OF 2(2,3), of xs] p by simp
  have "subseq (view p @ ins') ((view q @ xs) @ ins')"
    unfolding v
    by (intro list_emb_append_mono suffix_imp_subseq suffix_drop subseq_order.order_refl)
  moreover have "?k + length (view p) = length (view q) + length xs" by (simp add: v)
  ultimately show ?case using IH ins d by (auto intro: subseq_order.order_trans)
next
  case (3 n ops q)
  obtain ys p where p: "pop n q = (ys, p)" by fastforce
  from 3(4) obtain outs' where
    r: "run ops p = (ins, outs', d, q')" and outs: "outs = ys @ outs'"
    using p by (auto split: prod.splits)
  have ip: "inv p" "is_open p" using 3(2,3) inv_pop open_pop p by (metis snd_conv)+
  have IH: "inv q' \<and> is_open q' \<and> subseq (outs' @ view q') (view p @ ins) \<and>
      length (view p) + length ins = length outs' + d + length (view q')"
    by (rule 3(1) [OF p [symmetric] refl ip r])
  have v: "view q = ys @ view p" "length (view q) = length ys + length (view p)"
    using pop_front [OF 3(2), of n] view_pop [OF 3(2), of n] p by (auto simp flip: length_append)
  show ?case using IH outs v by (auto simp: list_emb_append_mono)
qed

end

section \<open>The queue meets the contract\<close>

definition bq_inv :: "'a bqueue \<Rightarrow> bool" where
  "bq_inv q \<longleftrightarrow> q_capacity q > 0 \<and> length (q_buf q) = q_capacity q \<and>
     q_head q < q_capacity q \<and> q_count q \<le> q_capacity q"

definition bq_view :: "'a bqueue \<Rightarrow> 'a list" where
  "bq_view q = map (\<lambda>i. q_buf q ! ((q_head q + i) mod q_capacity q)) [0..<q_count q]"

definition bq_open :: "'a bqueue \<Rightarrow> bool" where
  "bq_open q \<longleftrightarrow> \<not> q_closed q"

lemma bq_inv_new [inv_intros]: "bq_inv (bq_new d c)"
  by (simp add: bq_inv_def bq_new_def)

lemma bq_view_new [queue_simps]: "bq_view (bq_new d c) = []"
  by (simp add: bq_view_def bq_new_def)

lemma length_bq_view [queue_simps]: "length (bq_view q) = q_count q"
  by (simp add: bq_view_def)

lemma nth_bq_view:
  "i < q_count q \<Longrightarrow> bq_view q ! i = q_buf q ! ((q_head q + i) mod q_capacity q)"
  by (simp add: bq_view_def)

text \<open>Writing behind the last element appends; moving the head forgets the first.\<close>

lemma view_store:
  assumes "bq_inv q" "q_count q < q_capacity q"
  shows "bq_view (q\<lparr>q_buf := (q_buf q)[(q_head q + q_count q) mod q_capacity q := x],
      q_count := Suc (q_count q)\<rparr>) = bq_view q @ [x]"
proof (rule nth_equalityI)
  fix i assume "i < length (bq_view (q\<lparr>q_buf := (q_buf q)[(q_head q + q_count q) mod q_capacity q := x],
      q_count := Suc (q_count q)\<rparr>))"
  then have i: "i \<le> q_count q" by (simp add: length_bq_view)
  show "bq_view (q\<lparr>q_buf := (q_buf q)[(q_head q + q_count q) mod q_capacity q := x],
      q_count := Suc (q_count q)\<rparr>) ! i = (bq_view q @ [x]) ! i"
  proof (cases "i = q_count q")
    case True
    with assms show ?thesis by (simp add: nth_bq_view nth_append length_bq_view bq_inv_def)
  next
    case False
    have "(q_head q + q_count q) mod q_capacity q \<noteq> (q_head q + i) mod q_capacity q"
      using False i assms by (auto dest: mod_add_inj)
    with False i show ?thesis by (simp add: nth_bq_view nth_append length_bq_view)
  qed
qed (simp add: length_bq_view)

lemma view_skip:
  assumes "bq_inv q" "n \<le> q_count q"
  shows "bq_view (q\<lparr>q_head := (q_head q + n) mod q_capacity q, q_count := q_count q - n\<rparr>) =
    drop n (bq_view q)"
  using assms
  by (intro nth_equalityI) (simp_all add: length_bq_view nth_bq_view mod_add_left_eq add.assoc)

lemma push_item_frame [simp]:
  "q_capacity (snd (push_item x s)) = q_capacity (snd s)"
  "q_closed (snd (push_item x s)) = q_closed (snd s)"
  "q_pushed (snd (push_item x s)) = q_pushed (snd s)"
  "q_popped (snd (push_item x s)) = q_popped (snd s)"
  "q_dropped (snd (push_item x s)) = q_dropped (snd s)"
  by (simp_all add: push_item_def split: prod.splits)

lemma push_item_inv: "bq_inv (snd s) \<Longrightarrow> bq_inv (snd (push_item x s))"
  by (auto simp: push_item_def bq_inv_def split: prod.splits)

lemma push_item_view:
  assumes "bq_inv (snd s)"
  shows "bq_view (snd (push_item x s)) =
      drop (length (bq_view (snd s)) + 1 - q_capacity (snd s)) (bq_view (snd s) @ [x])"
    and "fst (push_item x s) = fst s + (length (bq_view (snd s)) + 1 - q_capacity (snd s))"
proof -
  obtain d q where s: "s = (d, q)" by fastforce
  have i: "bq_inv q" using assms s by simp
  have "bq_view (snd (push_item x (d, q))) = drop (q_count q + 1 - q_capacity q) (bq_view q @ [x]) \<and>
    fst (push_item x (d, q)) = d + (q_count q + 1 - q_capacity q)"
  proof (cases "q_count q = q_capacity q")
    case True
    let ?q = "q\<lparr>q_head := (q_head q + 1) mod q_capacity q, q_count := q_count q - 1\<rparr>"
    have "bq_inv ?q" "q_count ?q < q_capacity ?q" using i True by (auto simp: bq_inv_def)
    from view_store [OF this, of x] have "bq_view (snd (push_item x (d, q))) = bq_view ?q @ [x]"
      using True i by (simp add: push_item_def bq_inv_def)
    also have "bq_view ?q = drop 1 (bq_view q)"
      using view_skip [OF i, of 1] i True by (simp add: bq_inv_def)
    finally show ?thesis
      using True i by (simp add: push_item_def length_bq_view bq_inv_def)
  next
    case False
    then have "q_count q < q_capacity q" using i by (simp add: bq_inv_def)
    with view_store [OF i this, of x] False show ?thesis by (simp add: push_item_def)
  qed
  then show "bq_view (snd (push_item x s)) =
      drop (length (bq_view (snd s)) + 1 - q_capacity (snd s)) (bq_view (snd s) @ [x])"
    and "fst (push_item x s) = fst s + (length (bq_view (snd s)) + 1 - q_capacity (snd s))"
    by (simp_all add: s length_bq_view)
qed

lemma fold_push:
  assumes "bq_inv (snd s)"
  shows "bq_inv (snd (fold push_item xs s)) \<and>
    q_capacity (snd (fold push_item xs s)) = q_capacity (snd s) \<and>
    q_closed (snd (fold push_item xs s)) = q_closed (snd s) \<and>
    q_pushed (snd (fold push_item xs s)) = q_pushed (snd s) \<and>
    q_popped (snd (fold push_item xs s)) = q_popped (snd s) \<and>
    q_dropped (snd (fold push_item xs s)) = q_dropped (snd s) \<and>
    bq_view (snd (fold push_item xs s)) =
      drop (length (bq_view (snd s)) + length xs - q_capacity (snd s)) (bq_view (snd s) @ xs) \<and>
    fst (fold push_item xs s) =
      fst s + (length (bq_view (snd s)) + length xs - q_capacity (snd s))"
  using assms
proof (induction xs arbitrary: s)
  case Nil
  then show ?case by (simp add: length_bq_view bq_inv_def)
next
  case (Cons x xs)
  let ?s = "push_item x s" and ?c = "q_capacity (snd s)" and ?v = "bq_view (snd s)"
  have i: "bq_inv (snd ?s)" using Cons.prems by (rule push_item_inv)
  note IH = Cons.IH [OF i]
  have v: "bq_view (snd ?s) = drop (length ?v + 1 - ?c) (?v @ [x])"
    and d: "fst ?s = fst s + (length ?v + 1 - ?c)"
    using push_item_view [OF Cons.prems, of x] by simp_all
  have le: "length ?v \<le> ?c" using Cons.prems by (simp add: bq_inv_def length_bq_view)
  have "drop (length (bq_view (snd ?s)) + length xs - ?c) (bq_view (snd ?s) @ xs) =
      drop (length ?v + length (x # xs) - ?c) (?v @ x # xs)"
  proof (cases "length ?v = ?c")
    case True
    then obtain w ws where "?v = w # ws \<or> (?v = [] \<and> ?c = 0)" by (cases ?v) auto
    moreover have "?c > 0" using Cons.prems by (simp add: bq_inv_def)
    ultimately show ?thesis using True by (auto simp: v)
  next
    case False
    with le show ?thesis by (simp add: v)
  qed
  moreover have "fst ?s + (length (bq_view (snd ?s)) + length xs - ?c) =
      fst s + (length ?v + length (x # xs) - ?c)"
    unfolding v d using le by simp
  ultimately show ?case using IH by simp
qed

lemma push_batch_facts:
  assumes "bq_inv q"
  shows "bq_inv (snd (push_batch xs q))" "q_capacity (snd (push_batch xs q)) = q_capacity q"
    "q_closed (snd (push_batch xs q)) = q_closed q"
    "q_popped (snd (push_batch xs q)) = q_popped q"
    "bq_open q \<Longrightarrow> bq_view (snd (push_batch xs q)) =
      drop (length (bq_view q) + length xs - q_capacity q) (bq_view q @ xs)"
    "bq_open q \<Longrightarrow> fst (push_batch xs q) = length (bq_view q) + length xs - q_capacity q"
    "bq_open q \<Longrightarrow> q_pushed (snd (push_batch xs q)) = q_pushed q + of_nat (length xs)"
    "bq_open q \<Longrightarrow> q_dropped (snd (push_batch xs q)) = q_dropped q + of_nat (fst (push_batch xs q))"
    "q_closed q \<Longrightarrow> push_batch xs q = (0, q)"
  using fold_push [of "(0, q)" xs] assms
  by (auto simp: push_batch_def push_locked_def push_counters_def bq_open_def bq_inv_def
      bq_view_def split: prod.splits)

lemma pop_batch_facts:
  assumes "bq_inv q"
  shows "bq_inv (snd (pop_batch n q))" "q_capacity (snd (pop_batch n q)) = q_capacity q"
    "q_closed (snd (pop_batch n q)) = q_closed q"
    "q_pushed (snd (pop_batch n q)) = q_pushed q"
    "q_dropped (snd (pop_batch n q)) = q_dropped q"
    "q_popped (snd (pop_batch n q)) = q_popped q + of_nat (length (fst (pop_batch n q)))"
    "fst (pop_batch n q) = take n (bq_view q)"
    "bq_view (snd (pop_batch n q)) = drop n (bq_view q)"
proof -
  let ?m = "if q_count q < n then q_count q else n"
  have v: "bq_view (q\<lparr>q_head := (q_head q + ?m) mod q_capacity q, q_count := q_count q - ?m\<rparr>) =
      drop n (bq_view q)"
    using view_skip [OF assms, of ?m] by (auto simp: length_bq_view)
  show "fst (pop_batch n q) = take n (bq_view q)"
    by (auto simp: pop_batch_def pop_locked_def Let_def bq_view_def take_map min_def)
  show "bq_view (snd (pop_batch n q)) = drop n (bq_view q)"
    using v by (auto simp: pop_batch_def pop_locked_def pop_counters_def Let_def bq_view_def)
qed (use assms in \<open>auto simp: pop_batch_def pop_locked_def pop_counters_def Let_def bq_inv_def\<close>)

interpretation bq: lossy_fifo bq_inv bq_view q_capacity bq_open push_batch pop_batch
  by unfold_locales
    (auto simp: push_batch_facts pop_batch_facts bq_open_def length_bq_view,
      auto simp: bq_inv_def)

text \<open>(C20) Drop-oldest, exactly: pushing a batch into an open queue leaves the newest \<open>capacity\<close> elements of
  what was there followed by the batch, in order, and returns how many fell off the front; a
  following pop hands out the front of that. Neither operation ever waits for the other.\<close>

theorem push_pop_refines_fifo:
  assumes "bq_inv q" "\<not> q_closed q"
  shows "let (d, q1) = push_batch xs q; (ys, q2) = pop_batch n q1;
             kept = drop (length (bq_view q) + length xs - q_capacity q) (bq_view q @ xs)
         in d = length (bq_view q) + length xs - q_capacity q \<and>
            bq_view q1 = kept \<and> ys = take n kept \<and> bq_view q2 = drop n kept \<and>
            bq_inv q2 \<and> q_capacity q2 = q_capacity q \<and> length (bq_view q1) \<le> q_capacity q"
proof -
  have o: "bq_open q" using assms(2) by (simp add: bq_open_def)
  obtain d q1 where 1: "push_batch xs q = (d, q1)" by fastforce
  obtain ys q2 where 2: "pop_batch n q1 = (ys, q2)" by fastforce
  have i1: "bq_inv q1" using push_batch_facts(1) [OF assms(1), of xs] 1 by simp
  show ?thesis
    using push_batch_facts [OF assms(1), of xs] o pop_batch_facts [OF i1, of n]
      bq.view_cap [OF i1] 1 2 by simp
qed

theorem push_pop_refines_fifo_witness:
  "let (d, q1) = push_batch [1, 2, 3, 4, 5 :: nat] (bq_new 0 3); (ys, q2) = pop_batch 2 q1
   in d = 2 \<and> ys = [3, 4] \<and> bq_view q2 = [5]"
proof -
  have n: "\<not> q_closed (bq_new (0 :: nat) 3)" by (simp add: bq_new_def)
  have c: "q_capacity (bq_new (0 :: nat) 3) = 3" by (simp add: bq_new_def)
  show ?thesis
    using push_pop_refines_fifo [OF bq_inv_new n, of "[1, 2, 3, 4, 5]" 2]
    by (simp add: bq_view_new c split: prod.splits)
qed

text \<open>Over any sequence of pushes and pops from an empty queue, what comes out followed by what is
  still queued is a subsequence of what was offered (per-source FIFO, no duplicates, no
  invention), and every element offered is popped, dropped or still there.\<close>

theorem queue_run_account:
  assumes "bq.run ops (bq_new d c) = (ins, outs, dropped, q)"
  shows "subseq (outs @ bq_view q) ins \<and> length ins = length outs + dropped + length (bq_view q)"
proof -
  have "bq_open (bq_new d c)" by (simp add: bq_open_def bq_new_def)
  from bq.run_account [OF bq_inv_new this assms] show ?thesis by (simp add: bq_view_new)
qed

theorem queue_run_account_witness:
  "subseq ([2 :: nat, 3] @ []) [1, 2, 3] \<and>
   length [1, 2, 3 :: nat] = length [2 :: nat, 3] + 1 + length ([] :: nat list)"
proof -
  have "bq.run [Inl [1, 2, 3], Inr 5] (bq_new (0 :: nat) 2) =
     ([1, 2, 3], [2, 3], 1, \<lparr>q_buf = [3, 2], q_capacity = 2, q_head = 1, q_count = 0,
       q_closed = False, q_pushed = 3, q_popped = 2, q_dropped = 1\<rparr>)"
    by (simp add: bq_new_def push_batch_def push_locked_def push_counters_def push_item_def
        pop_batch_def pop_locked_def pop_counters_def Let_def eval_nat_numeral mod_Suc)
  from queue_run_account [OF this] show ?thesis by (simp add: bq_view_def)
qed

section \<open>Producer, consumer and observer\<close>

text \<open>One producer and one consumer thread. The critical sections are atomic; the counter updates are
  separate atomic steps after them, in the code's order, so an observer calling \<open>stats()\<close> can see
  the counters lag behind the buffer.\<close>

datatype producer_pc = PushIdle | CountPushed nat nat | CountDropped nat
datatype consumer_pc = PopIdle | CountPopped nat

record 'a queue_sys =
  sys_q :: "'a bqueue"
  sys_prod :: producer_pc
  sys_cons :: consumer_pc

inductive queue_step :: "'a queue_sys \<Rightarrow> 'a queue_sys \<Rightarrow> bool" where
  push_section: "\<lbrakk>sys_prod s = PushIdle; items \<noteq> []; push_locked items (sys_q s) = Some (d, q')\<rbrakk> \<Longrightarrow>
    queue_step s (s\<lparr>sys_q := q', sys_prod := CountPushed (length items) d\<rparr>)"
| count_pushed: "sys_prod s = CountPushed n d \<Longrightarrow>
    queue_step s (s\<lparr>sys_q := (sys_q s)\<lparr>q_pushed := q_pushed (sys_q s) + of_nat n\<rparr>,
                    sys_prod := CountDropped d\<rparr>)"
| count_dropped: "sys_prod s = CountDropped d \<Longrightarrow>
    queue_step s (s\<lparr>sys_q := (sys_q s)\<lparr>q_dropped := q_dropped (sys_q s) + of_nat d\<rparr>,
                    sys_prod := PushIdle\<rparr>)"
| pop_section: "\<lbrakk>sys_cons s = PopIdle; n > 0; pop_locked n (sys_q s) = Some (xs, q')\<rbrakk> \<Longrightarrow>
    queue_step s (s\<lparr>sys_q := q', sys_cons := CountPopped (length xs)\<rparr>)"
| count_popped: "sys_cons s = CountPopped n \<Longrightarrow>
    queue_step s (s\<lparr>sys_q := pop_counters n (sys_q s), sys_cons := PopIdle\<rparr>)"
| close: "queue_step s (s\<lparr>sys_q := q_close (sys_q s)\<rparr>)"

inductive queue_reachable :: "'a \<Rightarrow> nat \<Rightarrow> 'a queue_sys \<Rightarrow> bool" for d c where
  start: "queue_reachable d c \<lparr>sys_q = bq_new d c, sys_prod = PushIdle, sys_cons = PopIdle\<rparr>"
| step: "queue_reachable d c s \<Longrightarrow> queue_step s t \<Longrightarrow> queue_reachable d c t"

fun owed_pushed :: "producer_pc \<Rightarrow> nat" where
  "owed_pushed (CountPushed n d) = n"
| "owed_pushed _ = 0"

fun owed_dropped :: "producer_pc \<Rightarrow> nat" where
  "owed_dropped (CountPushed n d) = d"
| "owed_dropped (CountDropped d) = d"
| "owed_dropped PushIdle = 0"

fun owed_popped :: "consumer_pc \<Rightarrow> nat" where
  "owed_popped (CountPopped n) = n"
| "owed_popped PopIdle = 0"

definition queue_account :: "'a queue_sys \<Rightarrow> bool" where
  "queue_account s \<longleftrightarrow>
     q_pushed (sys_q s) + of_nat (owed_pushed (sys_prod s)) =
       (q_popped (sys_q s) + of_nat (owed_popped (sys_cons s))) +
       (q_dropped (sys_q s) + of_nat (owed_dropped (sys_prod s))) + of_nat (q_count (sys_q s))"

lemma push_locked_count:
  assumes "bq_inv q" "push_locked items q = Some (d, q')"
  shows "bq_inv q'" "q_count q + length items = d + q_count q'"
    "q_pushed q' = q_pushed q" "q_popped q' = q_popped q" "q_dropped q' = q_dropped q"
proof -
  have f: "fold push_item items (0, q) = (d, q')"
    using assms(2) by (auto simp: push_locked_def split: if_splits)
  note F = fold_push [of "(0, q)" items, unfolded f]
  show "bq_inv q'" "q_pushed q' = q_pushed q" "q_popped q' = q_popped q" "q_dropped q' = q_dropped q"
    using F assms(1) by auto
  have "length (bq_view q') = length (bq_view q) + length items - d" "d \<le> length (bq_view q) + length items"
    using F assms(1) by auto
  then show "q_count q + length items = d + q_count q'" by (simp add: length_bq_view)
qed

lemma pop_locked_count:
  assumes "bq_inv q" "pop_locked n q = Some (xs, q')"
  shows "bq_inv q'" "q_count q = length xs + q_count q'"
    "q_pushed q' = q_pushed q" "q_popped q' = q_popped q" "q_dropped q' = q_dropped q"
  using assms by (auto simp: pop_locked_def bq_inv_def Let_def split: if_splits)

lemma queue_step_account:
  assumes "queue_step s t" "bq_inv (sys_q s)" "queue_account s"
  shows "bq_inv (sys_q t) \<and> queue_account t"
  using assms
proof (cases rule: queue_step.cases)
  case (push_section items d q')
  note pl = push_locked_count [OF assms(2) push_section(4)]
  have "of_nat (q_count (sys_q s)) + of_nat (length items) = (of_nat d + of_nat (q_count q') :: u64)"
    using pl(2) by (metis of_nat_add)
  with push_section pl assms(3) show ?thesis
    by (auto simp: queue_account_def algebra_simps)
next
  case (pop_section n xs q')
  note pl = pop_locked_count [OF assms(2) pop_section(4)]
  with pop_section assms(3) show ?thesis by (auto simp: queue_account_def algebra_simps)
qed (use assms in \<open>auto simp: queue_account_def pop_counters_def q_close_def bq_inv_def algebra_simps\<close>)

lemma queue_reachable_account:
  "queue_reachable d c s \<Longrightarrow> bq_inv (sys_q s) \<and> queue_account s"
proof (induction rule: queue_reachable.induct)
  case start
  show ?case by (simp add: bq_inv_new) (simp add: queue_account_def bq_new_def)
next
  case (step s t)
  then show ?case using queue_step_account by blast
qed

text \<open>(C21) Every frame offered is accounted for: in every state two threads can reach in which neither owes
  a counter update, \<open>stats()\<close> reports \<open>pushed == popped + dropped + size\<close>, modulo \<open>2^64\<close>.\<close>

theorem queue_stats_account:
  assumes "queue_reachable d c s" "sys_prod s = PushIdle" "sys_cons s = PopIdle"
  shows "let st = q_stats (sys_q s)
    in qs_pushed st = qs_popped st + qs_dropped st + of_nat (qs_size st) \<and> qs_size st \<le> qs_capacity st"
  using queue_reachable_account [OF assms(1)] assms(2,3)
  by (auto simp: queue_account_def q_stats_def bq_inv_def Let_def)

theorem queue_stats_account_witness:
  "\<exists>s. queue_reachable (0 :: nat) 2 s \<and> q_stats (sys_q s) =
     \<lparr>qs_pushed = 3, qs_popped = 0, qs_dropped = 1, qs_size = 2, qs_capacity = 2\<rparr> \<and>
     (let st = q_stats (sys_q s)
      in qs_pushed st = qs_popped st + qs_dropped st + of_nat (qs_size st) \<and>
         qs_size st \<le> qs_capacity st)"
proof -
  let ?q = "\<lambda>p d. \<lparr>q_buf = [3, 2], q_capacity = 2, q_head = 1, q_count = 2, q_closed = False,
    q_pushed = p, q_popped = 0, q_dropped = d\<rparr> :: nat bqueue"
  let ?s = "\<lambda>p d pc. \<lparr>sys_q = ?q p d, sys_prod = pc, sys_cons = PopIdle\<rparr>"
  have l: "push_locked [1, 2, 3] (bq_new 0 2) = Some (1, ?q 0 0)"
    by (simp add: push_locked_def push_item_def bq_new_def eval_nat_numeral Let_def)
  let ?init = "\<lparr>sys_q = bq_new 0 2, sys_prod = PushIdle, sys_cons = PopIdle\<rparr>"
  have s1: "queue_step ?init (?s 0 0 (CountPushed 3 1))"
    using queue_step.push_section [of ?init "[1, 2, 3]" 1 "?q 0 0"] l by (simp add: numeral_3_eq_3)
  have s2: "queue_step (?s 0 0 (CountPushed 3 1)) (?s 3 0 (CountDropped 1))"
    using queue_step.count_pushed [of "?s 0 0 (CountPushed 3 1)" 3 1] by simp
  have s3: "queue_step (?s 3 0 (CountDropped 1)) (?s 3 1 PushIdle)"
    using queue_step.count_dropped [of "?s 3 0 (CountDropped 1)" 1] by simp
  have r: "queue_reachable 0 2 (?s 3 1 PushIdle)"
    by (rule queue_reachable.step [OF queue_reachable.step [OF queue_reachable.step
        [OF queue_reachable.start s1] s2] s3])
  from queue_stats_account [OF r] r show ?thesis
    by (intro exI [of _ "?s 3 1 PushIdle"]) (simp add: q_stats_def)
qed

end
