(* ===== verification/Frame.thy ===== *)
theory Frame
  imports Prelude
begin

text \<open>
  The data model of the gateway (\<^verbatim>\<open>src/frame.hpp\<close>, \<^verbatim>\<open>src/source.hpp\<close>): one normalised bus frame, the bits of
  its \<open>flags\<close> byte, the reason a gap marker carries, and the window that separates a delay from
  the difference of two unrelated clocks. \<open>std::array<std::uint8_t, 8>\<close> is a list whose length
  is the invariant \<open>frame_ok\<close>.
\<close>

record frame =
  seq :: u64
  t_kernel_ns :: u64
  t_ingest_ns :: u64
  can_id :: u32
  src_id :: u8
  len :: u8
  flags :: u8
  reserved :: u8
  data :: "u8 list"

definition kMaxPayload :: nat where
  "kMaxPayload = 8"

definition kExtendedId :: u8 where "kExtendedId = 1"
definition kRemote :: u8 where "kRemote = 2"
definition kError :: u8 where "kError = 4"
definition kGap :: u8 where "kGap = 8"
definition kEcho :: u8 where "kEcho = 16"
definition kReservedMask :: u8 where "kReservedMask = 0xE0"

lemmas flag_defs = kExtendedId_def kRemote_def kError_def kGap_def kEcho_def kReservedMask_def

text \<open>\<open>GapReason\<close> travels as the byte \<open>src_id\<close> of a marker. The cast from a byte to the enum keeps
  every byte, so values beyond the three named ones stay representable.\<close>

datatype gap_reason = kConsumerOverrun | kIngestLoss | kConsumerAbsent | OtherReason u8

fun reason_byte :: "gap_reason \<Rightarrow> u8" where
  "reason_byte kConsumerOverrun = 0"
| "reason_byte kIngestLoss = 1"
| "reason_byte kConsumerAbsent = 2"
| "reason_byte (OtherReason b) = b"

definition byte_reason :: "u8 \<Rightarrow> gap_reason" where
  "byte_reason b =
     (if b = 0 then kConsumerOverrun
      else if b = 1 then kIngestLoss
      else if b = 2 then kConsumerAbsent
      else OtherReason b)"

definition is_fault :: "gap_reason \<Rightarrow> bool" where
  "is_fault r \<longleftrightarrow> r \<noteq> kConsumerAbsent"

text \<open>A value-initialised frame, \<open>Frame f{}\<close>.\<close>

definition zero_frame :: frame where
  "zero_frame = \<lparr>seq = 0, t_kernel_ns = 0, t_ingest_ns = 0, can_id = 0, src_id = 0, len = 0,
     flags = 0, reserved = 0, data = replicate 8 0\<rparr>"

definition frame_ok :: "frame \<Rightarrow> bool" where
  "frame_ok f \<longleftrightarrow> length (data f) = kMaxPayload"

definition kMaxPlausibleLatencyNs :: i64 where
  "kMaxPlausibleLatencyNs = 10000000000"

definition same_clock_domain :: "i64 \<Rightarrow> bool" where
  "same_clock_domain delay \<longleftrightarrow> delay \<ge> 0 \<and> delay \<le> kMaxPlausibleLatencyNs"

text \<open>\<open>SourceStats\<close>: counters separated by cause.\<close>

record source_stats =
  ss_frames :: u64
  ss_kernel_drops :: u64
  ss_read_errors :: u64
  ss_malformed :: u64

lemma byte_reason_of_named [simp]:
  "byte_reason 0 = kConsumerOverrun" "byte_reason 1 = kIngestLoss"
  "byte_reason 2 = kConsumerAbsent"
  by (simp_all add: byte_reason_def)

lemma reason_byte_byte_reason [simp]: "reason_byte (byte_reason b) = b"
  by (simp add: byte_reason_def)

lemma zero_frame_ok [simp]: "frame_ok zero_frame"
  by (simp add: frame_ok_def zero_frame_def kMaxPayload_def)

lemma frame_ok_update [simp]:
  "frame_ok (f\<lparr>seq := s\<rparr>) = frame_ok f"
  "frame_ok (f\<lparr>t_ingest_ns := t\<rparr>) = frame_ok f"
  "frame_ok (f\<lparr>t_kernel_ns := t\<rparr>) = frame_ok f"
  by (simp_all add: frame_ok_def)

end
