(* ===== verification/Wire.thy ===== *)
theory Wire
  imports Frame
begin

text \<open>
  The binary wire protocol (\<^verbatim>\<open>src/wire.hpp\<close>, \<^verbatim>\<open>src/wire.cpp\<close>). A byte is a \<^typ>\<open>u8\<close>; a fixed-extent
  span is a list whose length the callers fix. The little-endian helpers go through a 64-bit
  value and a loop over the byte index, as the templates do, and the encoders store field after
  field at an offset of the output buffer. The theorems: encoding then decoding a frame or a
  header gives it back, decoding then encoding gives the bytes back, every rejection reason is
  taken exactly when its condition holds first in the order the code tests them, and markers and
  probes carry what they say.
\<close>

section \<open>Definitions\<close>

definition kMagic :: "u8 list" where
  "kMagic = [0x45, 0x54, 0x47, 0x31]"

definition kVersion :: u8 where "kVersion = 3"
definition kHeaderSize :: nat where "kHeaderSize = 16"
definition kRecordSize :: nat where "kRecordSize = 40"
definition kMaxCount :: u32 where "kMaxCount = 65535"

text \<open>\<open>store_le<T>\<close> with \<open>sizeof(T) = n\<close>: byte \<open>i\<close> is \<open>(v >> 8i) & 0xFF\<close>.\<close>

definition store_le :: "nat \<Rightarrow> u64 \<Rightarrow> u8 list" where
  "store_le n v = map (\<lambda>i. ucast (drop_bit (8 * i) v AND 0xFF)) [0..<n]"

text \<open>\<open>load_le<T>\<close> before its final narrowing cast: \<open>v |= byte[i] << 8i\<close>.\<close>

definition load_le :: "u8 list \<Rightarrow> u64" where
  "load_le bs = fold (\<lambda>i v. v OR push_bit (8 * i) (ucast (bs ! i))) [0..<length bs] 0"

text \<open>\<open>p + off\<close> as the target of a store, and as the source of a load of \<open>n\<close> bytes.\<close>

definition put :: "nat \<Rightarrow> u8 list \<Rightarrow> u8 list \<Rightarrow> u8 list" where
  "put off bs out = take off out @ bs @ drop (off + length bs) out"

definition get :: "nat \<Rightarrow> nat \<Rightarrow> u8 list \<Rightarrow> u8 list" where
  "get off n bs = take n (drop off bs)"

datatype decode_error =
    kOk | kBadMagic | kUnsupportedVersion | kBadHeaderLen | kBadRecordLen
  | kInconsistentLength | kCountTooLarge | kReservedFlagSet | kLengthOutOfRange

fun to_string :: "decode_error \<Rightarrow> string" where
  "to_string kOk = ''ok''"
| "to_string kBadMagic = ''bad magic''"
| "to_string kUnsupportedVersion = ''unsupported version''"
| "to_string kBadHeaderLen = ''bad header length''"
| "to_string kBadRecordLen = ''bad record length''"
| "to_string kInconsistentLength = ''payload length disagrees with count''"
| "to_string kCountTooLarge = ''batch count too large''"
| "to_string kReservedFlagSet = ''reserved flag bit set''"
| "to_string kLengthOutOfRange = ''payload length out of range''"

record batch_header =
  bh_count :: u32
  bh_payload_len :: u32
  bh_record_len :: u16
  bh_version :: u8
  bh_header_len :: u8

definition make_gap :: "u64 \<Rightarrow> u64 \<Rightarrow> gap_reason \<Rightarrow> u64 \<Rightarrow> frame" where
  "make_gap first_missing count reason t =
     zero_frame\<lparr>seq := first_missing, t_ingest_ns := t, t_kernel_ns := 0, can_id := 0,
       src_id := reason_byte reason, len := 8, flags := kGap,
       data := map (\<lambda>i. ucast (drop_bit (8 * i) count AND 0xFF)) [0..<8]\<rparr>"

definition is_gap :: "frame \<Rightarrow> bool" where
  "is_gap f \<longleftrightarrow> flags f AND kGap \<noteq> 0"

definition make_echo :: "u64 \<Rightarrow> u64 \<Rightarrow> frame" where
  "make_echo nonce t_sent =
     zero_frame\<lparr>seq := nonce, t_ingest_ns := t_sent, t_kernel_ns := 0, can_id := 0, src_id := 0,
       len := 0, flags := kEcho\<rparr>"

definition is_echo :: "frame \<Rightarrow> bool" where
  "is_echo f \<longleftrightarrow> flags f AND kEcho \<noteq> 0"

definition echo_nonce :: "frame \<Rightarrow> u64" where
  "echo_nonce f = seq f"

definition echo_sent_ns :: "frame \<Rightarrow> u64" where
  "echo_sent_ns f = t_ingest_ns f"

definition is_control :: "frame \<Rightarrow> bool" where
  "is_control f \<longleftrightarrow> flags f AND (kGap OR kEcho) \<noteq> 0"

definition gap_count :: "frame \<Rightarrow> u64" where
  "gap_count f = fold (\<lambda>i v. v OR push_bit (8 * i) (ucast (data f ! i))) [0..<8] 0"

definition gap_reason :: "frame \<Rightarrow> gap_reason" where
  "gap_reason f = byte_reason (src_id f)"

definition encode_frame :: "frame \<Rightarrow> u8 list \<Rightarrow> u8 list" where
  "encode_frame f out =
     (let p = put 0 (store_le 8 (seq f)) out;
          p = put 8 (store_le 8 (t_kernel_ns f)) p;
          p = put 16 (store_le 8 (t_ingest_ns f)) p;
          p = put 24 (store_le 4 (ucast (can_id f))) p;
          p = put 28 (store_le 1 (ucast (src_id f))) p;
          p = put 29 (store_le 1 (ucast (len f))) p;
          p = put 30 (store_le 1 (ucast (flags f))) p;
          p = put 31 (store_le 1 (ucast (reserved f))) p
      in fold (\<lambda>i b. b[32 + i := data f ! i]) [0..<kMaxPayload] p)"

definition decode_frame :: "u8 list \<Rightarrow> decode_error + frame" where
  "decode_frame p =
     (let fl = (ucast (load_le (get 30 1 p)) :: u8) in
      if fl AND kReservedMask \<noteq> 0 then Inl kReservedFlagSet else
      let ln = (ucast (load_le (get 29 1 p)) :: u8) in
      if unat ln > kMaxPayload then Inl kLengthOutOfRange else
      Inr \<lparr>seq = load_le (get 0 8 p),
           t_kernel_ns = load_le (get 8 8 p),
           t_ingest_ns = load_le (get 16 8 p),
           can_id = ucast (load_le (get 24 4 p)),
           src_id = ucast (load_le (get 28 1 p)),
           len = ln,
           flags = fl,
           reserved = ucast (load_le (get 31 1 p)),
           data = map (\<lambda>i. p ! (32 + i)) [0..<kMaxPayload]\<rparr>)"

definition encode_header :: "u32 \<Rightarrow> u8 list \<Rightarrow> u8 list" where
  "encode_header count out =
     (let p = fold (\<lambda>i b. b[i := kMagic ! i]) [0..<length kMagic] out;
          p = put 4 (store_le 1 (ucast kVersion)) p;
          p = put 5 (store_le 1 (ucast (of_nat kHeaderSize :: u8))) p;
          p = put 6 (store_le 2 (ucast (of_nat kRecordSize :: u16))) p;
          p = put 8 (store_le 4 (ucast count)) p
      in put 12 (store_le 4 (ucast (count * of_nat kRecordSize))) p)"

definition decode_header :: "u8 list \<Rightarrow> decode_error + batch_header" where
  "decode_header p =
     (if \<exists>i \<in> set [0..<length kMagic]. p ! i \<noteq> kMagic ! i then Inl kBadMagic else
      let version = (ucast (load_le (get 4 1 p)) :: u8);
          header_len = (ucast (load_le (get 5 1 p)) :: u8);
          record_len = (ucast (load_le (get 6 2 p)) :: u16);
          count = (ucast (load_le (get 8 4 p)) :: u32);
          payload = (ucast (load_le (get 12 4 p)) :: u32)
      in if version \<noteq> kVersion then Inl kUnsupportedVersion
         else if unat header_len \<noteq> kHeaderSize then Inl kBadHeaderLen
         else if unat record_len \<noteq> kRecordSize then Inl kBadRecordLen
         else if count > kMaxCount then Inl kCountTooLarge
         else if payload \<noteq> count * of_nat kRecordSize then Inl kInconsistentLength
         else Inr \<lparr>bh_count = count, bh_payload_len = payload, bh_record_len = record_len,
                   bh_version = version, bh_header_len = header_len\<rparr>)"

section \<open>Little-endian helpers\<close>

lemma length_store_le [simp]: "length (store_le n v) = n"
  by (simp add: store_le_def)

lemma bit_byte_of:
  "bit (ucast (drop_bit (8 * i) (v :: u64) AND 0xFF) :: u8) j \<longleftrightarrow> j < 8 \<and> bit v (8 * i + j)"
proof -
  have m: "(0xFF :: u64) = mask 8" by (simp add: mask_eq_exp_minus_1)
  show ?thesis
    unfolding m by (auto simp: bit_simps dest: bit_imp_le_length)
qed

lemma bit_nth_store_le:
  "i < n \<Longrightarrow> bit (store_le n v ! i) j \<longleftrightarrow> j < 8 \<and> bit v (8 * i + j)"
  by (simp add: store_le_def bit_byte_of)

lemma bit_fold_bytes:
  "bit (fold (\<lambda>i v. v OR push_bit (8 * i) (ucast (bs ! i :: u8))) [0..<n] (0 :: u64)) k \<longleftrightarrow>
     k < 64 \<and> k div 8 < n \<and> bit (bs ! (k div 8)) (k mod 8)"
proof (induction n)
  case 0
  then show ?case by simp
next
  case (Suc n)
  have push: "bit (push_bit (8 * n) (ucast (bs ! n) :: u64)) k \<longleftrightarrow>
      k < 64 \<and> k div 8 = n \<and> bit (bs ! n) (k mod 8)"
  proof -
    have "8 * n \<le> k \<and> bit (bs ! n) (k - 8 * n) \<longleftrightarrow> k div 8 = n \<and> bit (bs ! n) (k mod 8)"
    proof
      assume a: "8 * n \<le> k \<and> bit (bs ! n) (k - 8 * n)"
      then have "k - 8 * n < 8" using bit_imp_le_length [of "bs ! n"] by fastforce
      with a have "k div 8 = n" by linarith
      with a show "k div 8 = n \<and> bit (bs ! n) (k mod 8)"
        by (simp add: minus_mult_div_eq_mod [symmetric])
    next
      assume "k div 8 = n \<and> bit (bs ! n) (k mod 8)"
      then show "8 * n \<le> k \<and> bit (bs ! n) (k - 8 * n)"
        by (auto simp: minus_mult_div_eq_mod [symmetric])
    qed
    then show ?thesis by (auto simp: bit_simps dest: bit_imp_le_length)
  qed
  show ?case by (auto simp: bit_or_iff Suc push less_Suc_eq)
qed

lemma bit_load_le:
  "bit (load_le bs) k \<longleftrightarrow> k < 64 \<and> k div 8 < length bs \<and> bit (bs ! (k div 8)) (k mod 8)"
  unfolding load_le_def by (rule bit_fold_bytes)

lemma load_store_le: "load_le (store_le n v) = take_bit (8 * n) v"
proof (rule bit_word_eqI)
  fix k assume "k < LENGTH(64)"
  then show "bit (load_le (store_le n v)) k \<longleftrightarrow> bit (take_bit (8 * n) v) k"
    by (auto simp: bit_load_le bit_nth_store_le bit_take_bit_iff)
qed

lemma store_load_le:
  assumes "length bs = n" "n \<le> 8"
  shows "store_le n (load_le bs) = bs"
proof (rule nth_equalityI)
  show "length (store_le n (load_le bs)) = length bs" using assms by simp
  fix i assume i: "i < length (store_le n (load_le bs))"
  show "store_le n (load_le bs) ! i = bs ! i"
  proof (rule bit_word_eqI)
    fix j assume "j < LENGTH(8)"
    with i assms show "bit (store_le n (load_le bs) ! i) j \<longleftrightarrow> bit (bs ! i) j"
      by (simp add: bit_nth_store_le bit_load_le)
  qed
qed

text \<open>The narrowing cast of \<open>load_le<T>\<close> undoes the widening cast of \<open>store_le<T>\<close>.\<close>

lemma load_store_u64 [simp]: "load_le (store_le 8 v) = v"
  by (rule bit_word_eqI) (simp add: load_store_le bit_simps)

lemma load_store_u32 [simp]: "ucast (load_le (store_le 4 (ucast (v :: u32)))) = v"
  by (rule bit_word_eqI) (simp add: load_store_le bit_simps)

lemma load_store_u16 [simp]: "ucast (load_le (store_le 2 (ucast (v :: u16)))) = v"
  by (rule bit_word_eqI) (simp add: load_store_le bit_simps)

lemma load_store_u8 [simp]: "ucast (load_le (store_le 1 (ucast (v :: u8)))) = v"
  by (rule bit_word_eqI) (simp add: load_store_le bit_simps)

lemmas load_store_byte [simp] = load_store_u8 [unfolded One_nat_def]

lemma store_load_cast:
  assumes "length bs = n" "n \<le> 8" "LENGTH('a::len) = 8 * n"
  shows "store_le n (ucast (ucast (load_le bs) :: 'a word)) = bs"
proof -
  have "ucast (ucast (load_le bs) :: 'a word) = load_le bs"
    using assms by (auto intro!: bit_word_eqI simp: bit_simps bit_load_le)
  with store_load_le [OF assms(1,2)] show ?thesis by simp
qed

section \<open>Layout\<close>

lemma length_put [simp]: "off + length bs \<le> length out \<Longrightarrow> length (put off bs out) = length out"
  by (simp add: put_def)

lemma length_get [simp]: "off + n \<le> length bs \<Longrightarrow> length (get off n bs) = n"
  by (simp add: get_def)

text \<open>A byte-wise copy loop is one block store.\<close>

lemma copy_loop_is_put:
  assumes "off + length xs \<le> length out"
  shows "fold (\<lambda>i b. b[off + i := xs ! i]) [0..<length xs] out = put off xs out"
  using assms
proof (induction xs rule: rev_induct)
  case Nil
  then show ?case by (simp add: put_def)
next
  case (snoc x xs)
  have "fold (\<lambda>i b. b[off + i := (xs @ [x]) ! i]) [0..<length xs] out =
      fold (\<lambda>i b. b[off + i := xs ! i]) [0..<length xs] out"
    by (rule fold_cong) (auto simp: nth_append)
  also have "\<dots> = put off xs out" using snoc by simp
  finally have "fold (\<lambda>i b. b[off + i := (xs @ [x]) ! i]) [0..<length (xs @ [x])] out =
      (put off xs out)[off + length xs := x]"
    by simp
  also have "\<dots> = put off (xs @ [x]) out"
    using snoc.prems
    by (simp add: put_def list_update_append upd_conv_take_nth_drop drop_Suc Suc_diff_le
        drop_tl [symmetric] tl_drop)
  finally show ?case .
qed

lemma encode_frame_layout:
  assumes "length out = kRecordSize" "frame_ok f"
  shows "encode_frame f out =
    store_le 8 (seq f) @ store_le 8 (t_kernel_ns f) @ store_le 8 (t_ingest_ns f) @
    store_le 4 (ucast (can_id f)) @ store_le 1 (ucast (src_id f)) @ store_le 1 (ucast (len f)) @
    store_le 1 (ucast (flags f)) @ store_le 1 (ucast (reserved f)) @ data f"
proof -
  have d: "[0..<kMaxPayload] = [0..<length (data f)]" using assms(2) by (simp add: frame_ok_def)
  have l: "length (data f) = 8" using assms(2) by (simp add: frame_ok_def kMaxPayload_def)
  show ?thesis
    using assms(1) l
    unfolding encode_frame_def Let_def d
    by (subst copy_loop_is_put) (simp_all add: put_def kRecordSize_def)
qed

lemma encode_header_layout:
  assumes "length out = kHeaderSize"
  shows "encode_header count out =
    kMagic @ store_le 1 (ucast kVersion) @ store_le 1 (ucast (of_nat kHeaderSize :: u8)) @
    store_le 2 (ucast (of_nat kRecordSize :: u16)) @ store_le 4 (ucast count) @
    store_le 4 (ucast (count * of_nat kRecordSize))"
proof -
  have l: "length kMagic = 4" by (simp add: kMagic_def)
  have m: "fold (\<lambda>i b. b[i := kMagic ! i]) [0..<length kMagic] out = put 0 kMagic out"
    using copy_loop_is_put [of 0 kMagic out] assms by (simp add: l kHeaderSize_def)
  show ?thesis
    using assms l unfolding encode_header_def Let_def m
    by (simp add: put_def kHeaderSize_def)
qed

lemma length_encode_frame [simp]:
  "length out = kRecordSize \<Longrightarrow> frame_ok f \<Longrightarrow> length (encode_frame f out) = kRecordSize"
  by (simp add: encode_frame_layout kRecordSize_def frame_ok_def kMaxPayload_def)

lemma length_encode_header [simp]:
  "length out = kHeaderSize \<Longrightarrow> length (encode_header c out) = kHeaderSize"
  by (simp add: encode_header_layout kHeaderSize_def kMagic_def)

section \<open>Round trips\<close>

text \<open>What a record must satisfy for the decoder to accept it.\<close>

definition wire_ok :: "frame \<Rightarrow> bool" where
  "wire_ok f \<longleftrightarrow> frame_ok f \<and> flags f AND kReservedMask = 0 \<and> unat (len f) \<le> kMaxPayload"

lemma get_skip [simp]: "off \<ge> length xs \<Longrightarrow> get off n (xs @ ys) = get (off - length xs) n ys"
  by (simp add: get_def)

lemma get_here [simp]: "length xs = n \<Longrightarrow> get 0 n (xs @ ys) = xs"
  by (simp add: get_def)

lemma map_nth_suffix:
  "length xs = k \<Longrightarrow> length ys = n \<Longrightarrow> map (\<lambda>i. (xs @ ys) ! (k + i)) [0..<n] = ys"
  by (auto intro: nth_equalityI)

lemma frame_round_trip:
  assumes "length out = kRecordSize" "wire_ok f"
  shows "decode_frame (encode_frame f out) = Inr f"
proof -
  have ok: "frame_ok f" and fl: "flags f AND kReservedMask = 0"
    and ln: "unat (len f) \<le> kMaxPayload"
    using assms(2) by (simp_all add: wire_ok_def)
  have l: "length (data f) = 8" using ok by (simp add: frame_ok_def kMaxPayload_def)
  let ?pre = "store_le 8 (seq f) @ store_le 8 (t_kernel_ns f) @ store_le 8 (t_ingest_ns f) @
    store_le 4 (ucast (can_id f)) @ store_le 1 (ucast (src_id f)) @ store_le 1 (ucast (len f)) @
    store_le 1 (ucast (flags f)) @ store_le 1 (ucast (reserved f))"
  have e: "encode_frame f out = ?pre @ data f"
    by (simp add: encode_frame_layout [OF assms(1) ok])
  have d: "map (\<lambda>i. (?pre @ data f) ! (32 + i)) [0..<kMaxPayload] = data f"
    by (rule map_nth_suffix) (simp_all add: l kMaxPayload_def)
  have d': "map (\<lambda>i. encode_frame f out ! (32 + i)) [0..<kMaxPayload] = data f"
    using d by (simp only: e)
  show ?thesis
    unfolding decode_frame_def Let_def d'
    using fl ln by (simp add: e not_less)
qed



lemma map_nth_drop: "length p = k + n \<Longrightarrow> map (\<lambda>i. p ! (k + i)) [0..<n] = drop k p"
  by (auto intro: nth_equalityI)

text \<open>Peeling the field before a suffix puts it back in front of the rest.\<close>

lemma get_append_drop: "b = a + n \<Longrightarrow> get a n p @ drop b p = drop a p"
  by (simp add: get_def) (metis add.commute append_take_drop_id drop_drop)

text \<open>The decoder accepts nothing it could not have been sent: when a 40-byte record decodes, the
  frame satisfies the format's rules and encoding it again reproduces every byte.\<close>

theorem encode_decode_frame:
  assumes "length p = kRecordSize" "length out = kRecordSize" "decode_frame p = Inr f"
  shows "wire_ok f \<and> encode_frame f out = p"
proof -
  have l: "length p = 40" using assms(1) by (simp add: kRecordSize_def)
  have f: "f = \<lparr>seq = load_le (get 0 8 p), t_kernel_ns = load_le (get 8 8 p),
      t_ingest_ns = load_le (get 16 8 p), can_id = ucast (load_le (get 24 4 p)),
      src_id = ucast (load_le (get 28 1 p)), len = ucast (load_le (get 29 1 p)),
      flags = ucast (load_le (get 30 1 p)), reserved = ucast (load_le (get 31 1 p)),
      data = drop 32 p\<rparr>"
    and ok: "wire_ok f"
    using assms(3) l
    by (auto simp: decode_frame_def Let_def wire_ok_def frame_ok_def kMaxPayload_def
        map_nth_drop split: if_splits)
  have "encode_frame f out =
      get 0 8 p @ get 8 8 p @ get 16 8 p @ get 24 4 p @ get 28 1 p @ get 29 1 p @
      get 30 1 p @ get 31 1 p @ drop 32 p"
    using ok l unfolding wire_ok_def
    by (simp add: encode_frame_layout [OF assms(2)] f store_load_le store_load_cast)
  also have "\<dots> = p" by (simp add: get_append_drop)
  finally show ?thesis using ok by simp
qed

theorem encode_decode_frame_witness:
  "encode_frame (make_echo 9 4) (replicate 40 1) = encode_frame (make_echo 9 4) (replicate 40 0)"
proof -
  have l: "length (replicate 40 (b :: u8)) = kRecordSize" for b by (simp add: kRecordSize_def)
  have w: "wire_ok (make_echo 9 4)"
    by (simp add: wire_ok_def make_echo_def zero_frame_def frame_ok_def kMaxPayload_def flag_defs)
  let ?p = "encode_frame (make_echo 9 4) (replicate 40 0)"
  have n: "length ?p = kRecordSize" using w length_encode_frame [OF l] by (simp add: wire_ok_def)
  have d: "decode_frame ?p = Inr (make_echo 9 4)"
  proof -
    have "frame_ok (make_echo 9 4)" using w by (simp add: wire_ok_def)
    then have e: "?p = store_le 8 9 @ store_le 8 0 @ store_le 8 4 @ store_le 4 0 @ store_le 1 0 @
        store_le 1 0 @ store_le 1 16 @ store_le 1 0 @ replicate 8 0"
      by (simp add: encode_frame_layout [OF l] make_echo_def zero_frame_def flag_defs)
    show ?thesis unfolding e by code_simp
  qed
  show ?thesis using encode_decode_frame [OF n l d] by simp
qed

section \<open>Headers\<close>

text \<open>The header \<open>encode_header\<close> writes for a count, as \<open>decode_header\<close> reads it.\<close>

definition header_for :: "u32 \<Rightarrow> batch_header" where
  "header_for c = \<lparr>bh_count = c, bh_payload_len = c * of_nat kRecordSize,
     bh_record_len = of_nat kRecordSize, bh_version = kVersion,
     bh_header_len = of_nat kHeaderSize\<rparr>"

lemma header_round_trip:
  assumes "length out = kHeaderSize"
  shows "decode_header (encode_header c out) =
    (if c \<le> kMaxCount then Inr (header_for c) else Inl kCountTooLarge)"
proof -
  let ?r = "store_le 1 (ucast kVersion) @ store_le 1 (ucast (of_nat kHeaderSize :: u8)) @
    store_le 2 (ucast (of_nat kRecordSize :: u16)) @ store_le 4 (ucast c) @
    store_le 4 (ucast (c * of_nat kRecordSize :: u32))"
  have l: "length kMagic = 4" by (simp add: kMagic_def)
  have magic: "\<not> (\<exists>i \<in> set [0..<length kMagic]. (kMagic @ ?r) ! i \<noteq> kMagic ! i)"
    by (auto simp: nth_append)
  have fields: "get 4 1 (kMagic @ ?r) = store_le 1 (ucast kVersion)"
    "get 5 1 (kMagic @ ?r) = store_le 1 (ucast (of_nat kHeaderSize :: u8))"
    "get 6 2 (kMagic @ ?r) = store_le 2 (ucast (of_nat kRecordSize :: u16))"
    "get 8 4 (kMagic @ ?r) = store_le 4 (ucast c)"
    "get 12 4 (kMagic @ ?r) = store_le 4 (ucast (c * of_nat kRecordSize :: u32))"
    by (simp_all add: l) (simp add: get_def)
  show ?thesis
    unfolding encode_header_layout [OF assms] decode_header_def Let_def fields
      load_store_u8 load_store_u16 load_store_u32
    using magic
    by (cases "c \<le> kMaxCount") (simp_all add: header_for_def kHeaderSize_def kRecordSize_def not_less)
qed

text \<open>A header round trip, on both sides of the sanity bound: a count of at most 65535 comes back with
  the payload length \<open>count * 40\<close>, a larger one is refused as too large, never misread.\<close>

theorem decode_encode_header:
  assumes "length out = kHeaderSize"
  shows "decode_header (encode_header c out) =
    (if c \<le> kMaxCount then Inr (header_for c) else Inl kCountTooLarge)"
  using assms by (rule header_round_trip)

theorem decode_encode_header_witness:
  "decode_header (encode_header 3 (replicate 16 0)) = Inr (header_for 3)"
  using decode_encode_header [of "replicate 16 0" 3] by (simp add: kHeaderSize_def kMaxCount_def)

text \<open>The payload length the decoder accepts never wraps: it is the product of the numbers.\<close>

lemma decode_header_payload:
  assumes "decode_header p = Inr h"
  shows "unat (bh_payload_len h) = unat (bh_count h) * kRecordSize"
    and "unat (bh_count h) \<le> 65535"
proof -
  have c: "bh_count h \<le> kMaxCount" and e: "bh_payload_len h = bh_count h * of_nat kRecordSize"
    using assms by (auto simp: decode_header_def Let_def split: if_splits)
  from c show n: "unat (bh_count h) \<le> 65535"
    by (simp add: kMaxCount_def word_le_nat_alt)
  with e show "unat (bh_payload_len h) = unat (bh_count h) * kRecordSize"
    by (simp add: unat_word_ariths kRecordSize_def)
qed





section \<open>Markers and probes\<close>

lemma gap_count_load: "length (data f) = 8 \<Longrightarrow> gap_count f = load_le (data f)"
  by (simp add: gap_count_def load_le_def)

lemma make_gap_data [simp]: "data (make_gap a n r t) = store_le 8 n"
  by (simp add: make_gap_def store_le_def)

lemma gap_count_make_gap [simp]: "gap_count (make_gap a n r t) = n"
  by (simp add: gap_count_load)

lemma make_gap_fields [simp]:
  "seq (make_gap a n r t) = a" "t_ingest_ns (make_gap a n r t) = t"
  "src_id (make_gap a n r t) = reason_byte r" "flags (make_gap a n r t) = kGap"
  by (simp_all add: make_gap_def)

lemma make_echo_fields [simp]:
  "seq (make_echo n t) = n" "t_ingest_ns (make_echo n t) = t" "flags (make_echo n t) = kEcho"
  by (simp_all add: make_echo_def)

lemma marker_kinds [simp]:
  "is_gap (make_gap a n r t)" "\<not> is_echo (make_gap a n r t)"
  "is_echo (make_echo n t)" "\<not> is_gap (make_echo n t)"
  by (simp_all add: is_gap_def is_echo_def flag_defs)

lemma make_gap_wire_ok [simp]: "wire_ok (make_gap a n r t)"
  by (simp add: wire_ok_def make_gap_def frame_ok_def kMaxPayload_def flag_defs)

lemma make_echo_wire_ok [simp]: "wire_ok (make_echo n t)"
  by (simp add: wire_ok_def make_echo_def zero_frame_def frame_ok_def kMaxPayload_def flag_defs)

lemma is_control_iff: "is_control f \<longleftrightarrow> is_gap f \<or> is_echo f"
  by (simp add: is_control_def is_gap_def is_echo_def bit.conj_disj_distrib or_eq_0_iff)

text \<open>A gap marker carries its first missing sequence, its count and its reason across the wire, and a
  probe its nonce and send time; a marker is never a probe, and both are control records.\<close>

theorem markers_on_the_wire:
  assumes "length out = kRecordSize" "r \<in> {kConsumerOverrun, kIngestLoss, kConsumerAbsent}"
  shows "(\<exists>g. decode_frame (encode_frame (make_gap a n r t) out) = Inr g \<and>
      is_gap g \<and> \<not> is_echo g \<and> is_control g \<and>
      seq g = a \<and> gap_count g = n \<and> gap_reason g = r \<and> t_ingest_ns g = t) \<and>
    (\<exists>e. decode_frame (encode_frame (make_echo nonce ts) out) = Inr e \<and>
      is_echo e \<and> \<not> is_gap e \<and> is_control e \<and> echo_nonce e = nonce \<and> echo_sent_ns e = ts)"
  using assms
  by (auto simp: frame_round_trip is_control_iff gap_reason_def echo_nonce_def echo_sent_ns_def)

theorem markers_on_the_wire_witness:
  "\<exists>g. decode_frame (encode_frame (make_gap 100 50 kIngestLoss 1) (replicate 40 0)) = Inr g \<and>
     is_gap g \<and> \<not> is_echo g \<and> is_control g \<and>
     seq g = 100 \<and> gap_count g = 50 \<and> gap_reason g = kIngestLoss \<and> t_ingest_ns g = 1"
  using markers_on_the_wire [of "replicate 40 0" kIngestLoss 100 50 1 0 0]
  by (simp add: kRecordSize_def)

section \<open>Which rejection, and what is not rejected\<close>

lemma load_byte: "k < length p \<Longrightarrow> ucast (load_le (get k 1 p)) = (p ! k :: u8)"
proof -
  assume k: "k < length p"
  then have "get k 1 p = [p ! k]"
    by (simp add: get_def take_Suc_conv_app_nth Cons_nth_drop_Suc [symmetric])
  then show ?thesis by (simp add: load_le_def) (rule bit_word_eqI, simp add: bit_simps)
qed

text \<open>Every 40-byte record is rejected for its flag bits, or rejected for its length byte, or
  accepted, decided by bytes 30 and 29 alone and in that order. In particular byte 31, the
  \<open>reserved\<close> field the format says must be 0, is passed through unchecked.\<close>

theorem decode_frame_decides:
  assumes "length p = kRecordSize"
  shows "(decode_frame p = Inl kReservedFlagSet \<longleftrightarrow> p ! 30 AND kReservedMask \<noteq> 0) \<and>
    (decode_frame p = Inl kLengthOutOfRange \<longleftrightarrow>
       p ! 30 AND kReservedMask = 0 \<and> unat (p ! 29) > kMaxPayload) \<and>
    ((\<exists>f. decode_frame p = Inr f \<and> reserved f = p ! 31) \<longleftrightarrow>
       p ! 30 AND kReservedMask = 0 \<and> unat (p ! 29) \<le> kMaxPayload)"
proof -
  have "ucast (load_le (get k 1 p)) = (p ! k :: u8)" if "k < 40" for k
    using load_byte [of k p] that assms by (simp add: kRecordSize_def)
  from this [of 30] this [of 29] this [of 31] show ?thesis
    by (auto simp: decode_frame_def Let_def)
qed

theorem decode_frame_decides_witness:
  "\<exists>f. decode_frame ((replicate 40 0)[31 := 255]) = Inr f \<and> reserved f = 255"
  using decode_frame_decides [of "(replicate 40 0)[31 := 255]"]
  by (simp add: kRecordSize_def)

text \<open>Distinct reasons print distinct words.\<close>

lemma to_string_inj: "inj to_string"
  by (rule injI) (auto elim!: to_string.elims)

end
