(* ===== verification/Broadcast_Ring.thy ===== *)
theory Broadcast_Ring
  imports Wire
begin

text \<open>
  The broadcast ring of topology B (\<^verbatim>\<open>src/broadcast_ring.hpp\<close>): any number of producers claim tickets
  and write cells, any number of readers follow with cursors of their own. Positions, sequence
  words and counters are 64-bit words. The operations are given twice: as functions on a ring
  that nobody else touches meanwhile (what a reader or a producer computes when it runs alone),
  and, in the theory \<open>Ring_Steps\<close>, as the sequence of atomic accesses each thread performs, to be
  interleaved arbitrarily. Both are built from the definitions of this theory, one per atomic
  access or local computation of the code.
\<close>

section \<open>A frame as five words\<close>

text \<open>\<open>memcpy\<close> between \<open>Frame\<close> and \<open>kFrameWords\<close> 64-bit words, on the little-endian hosts the gateway
  runs on: the field offsets are the ones the assertions of \<^verbatim>\<open>frame.hpp\<close> fix.\<close>

definition kFrameWords :: nat where
  "kFrameWords = 5"

definition frame_bytes :: "frame \<Rightarrow> u8 list" where
  "frame_bytes f =
     store_le 8 (seq f) @ store_le 8 (t_kernel_ns f) @ store_le 8 (t_ingest_ns f) @
     store_le 4 (ucast (can_id f)) @ [src_id f, len f, flags f, reserved f] @ data f"

definition frame_words :: "frame \<Rightarrow> u64 list" where
  "frame_words f = map (\<lambda>i. load_le (get (8 * i) 8 (frame_bytes f))) [0..<kFrameWords]"

definition words_frame :: "u64 list \<Rightarrow> frame" where
  "words_frame ws =
     (let p = concat (map (store_le 8) ws)
      in \<lparr>seq = load_le (get 0 8 p), t_kernel_ns = load_le (get 8 8 p),
          t_ingest_ns = load_le (get 16 8 p), can_id = ucast (load_le (get 24 4 p)),
          src_id = p ! 28, len = p ! 29, flags = p ! 30, reserved = p ! 31,
          data = get 32 8 p\<rparr>)"

section \<open>State\<close>

record cell =
  c_seq :: u64
  c_words :: "u64 list"

record ring =
  r_capacity :: u64
  r_mask :: u64
  r_write_pos :: u64
  r_claim_retries :: u64
  r_inconsistent_reads :: u64
  r_waiters :: u32
  r_closed :: bool
  r_cells :: "cell list"

record cursor =
  cur_next :: u64
  cur_missed :: u64

record read_result =
  rr_count :: nat
  rr_missed :: u64

datatype read_status = ReadOk | ReadEmpty | ReadLapped

text \<open>\<open>while (p < v) p <<= 1\<close>. Above \<open>2^63\<close> the shift reaches 0 and the loop never ends, so the result
  is optional.\<close>

partial_function (option) round_up_from :: "u64 \<Rightarrow> u64 \<Rightarrow> u64 option" where
  "round_up_from p v = (if p < v then round_up_from (push_bit 1 p) v else Some p)"

declare round_up_from.simps [code]

definition round_up_pow2 :: "u64 \<Rightarrow> u64 option" where
  "round_up_pow2 v = round_up_from 1 v"

definition ring_new :: "u64 \<Rightarrow> ring option" where
  "ring_new capacity =
     map_option (\<lambda>c. \<lparr>r_capacity = c, r_mask = c - 1, r_write_pos = 0, r_claim_retries = 0,
         r_inconsistent_reads = 0, r_waiters = 0, r_closed = False,
         r_cells = replicate (unat c) \<lparr>c_seq = 0, c_words = replicate kFrameWords 0\<rparr>\<rparr>)
       (round_up_pow2 (if capacity < 2 then 2 else capacity))"

definition cell_index :: "ring \<Rightarrow> u64 \<Rightarrow> nat" where
  "cell_index r pos = unat (pos AND r_mask r)"

definition cell_at :: "ring \<Rightarrow> u64 \<Rightarrow> cell" where
  "cell_at r pos = r_cells r ! cell_index r pos"

definition set_cell :: "ring \<Rightarrow> u64 \<Rightarrow> cell \<Rightarrow> ring" where
  "set_cell r pos c = r\<lparr>r_cells := (r_cells r)[cell_index r pos := c]\<rparr>"

section \<open>Producer\<close>

text \<open>\<open>write_pos_.fetch_add(n)\<close>.\<close>

definition take_tickets :: "nat \<Rightarrow> ring \<Rightarrow> u64 \<times> ring" where
  "take_tickets n r = (r_write_pos r, r\<lparr>r_write_pos := r_write_pos r + of_nat n\<rparr>)"

text \<open>The sequence word the previous occupant leaves behind, and the one that marks the claim.\<close>

definition expected_seq :: "ring \<Rightarrow> u64 \<Rightarrow> u64" where
  "expected_seq r pos = (if pos < r_capacity r then 0 else 2 * (pos - r_capacity r) + 2)"

definition claimed_seq :: "u64 \<Rightarrow> u64" where
  "claimed_seq pos = 2 * pos + 1"

definition complete_seq :: "u64 \<Rightarrow> u64" where
  "complete_seq pos = 2 * pos + 2"

text \<open>One \<open>compare_exchange_weak\<close>: it may fail spuriously, and a failure counts a retry.\<close>

definition cas_claim :: "bool \<Rightarrow> u64 \<Rightarrow> ring \<Rightarrow> bool \<times> ring" where
  "cas_claim spurious pos r =
     (if \<not> spurious \<and> c_seq (cell_at r pos) = expected_seq r pos
      then (True, set_cell r pos ((cell_at r pos)\<lparr>c_seq := claimed_seq pos\<rparr>))
      else (False, r\<lparr>r_claim_retries := r_claim_retries r + 1\<rparr>))"

definition kSpinsBeforeYield :: nat where
  "kSpinsBeforeYield = 64"

text \<open>The spin counter after a failed claim: reset, with a yield, every 64 failures.\<close>

definition next_spins :: "nat \<Rightarrow> nat" where
  "next_spins spins = (if spins + 1 < kSpinsBeforeYield then spins + 1 else 0)"

text \<open>The payload: the frame's words with the ticket in word 0.\<close>

definition payload :: "u64 \<Rightarrow> frame \<Rightarrow> u64 list" where
  "payload pos f = (frame_words f)[0 := pos]"

definition store_word :: "u64 \<Rightarrow> nat \<Rightarrow> u64 \<Rightarrow> ring \<Rightarrow> ring" where
  "store_word pos k w r =
     set_cell r pos ((cell_at r pos)\<lparr>c_words := (c_words (cell_at r pos))[k := w]\<rparr>)"

definition publish_cell :: "u64 \<Rightarrow> ring \<Rightarrow> ring" where
  "publish_cell pos r = set_cell r pos ((cell_at r pos)\<lparr>c_seq := complete_seq pos\<rparr>)"

text \<open>\<open>write_at\<close> when no other thread runs: \<open>None\<close> when the cell is still held, where the loop would
  spin until the holder publishes.\<close>

definition write_at :: "u64 \<Rightarrow> frame \<Rightarrow> ring \<Rightarrow> ring option" where
  "write_at pos f r =
     (case cas_claim False pos r of
        (False, _) \<Rightarrow> None
      | (True, r1) \<Rightarrow>
          Some (publish_cell pos (fold (\<lambda>k. store_word pos k (payload pos f ! k)) [0..<kFrameWords] r1)))"

fun write_all :: "u64 \<Rightarrow> frame list \<Rightarrow> ring \<Rightarrow> ring option" where
  "write_all pos [] r = Some r"
| "write_all pos (f # fs) r = Option.bind (write_at pos f r) (write_all (pos + 1) fs)"

definition publish_batch :: "frame list \<Rightarrow> ring \<Rightarrow> (u64 \<times> ring) option" where
  "publish_batch frames r =
     (if frames = [] then Some (r_write_pos r, r)
      else let (base, r1) = take_tickets (length frames) r
           in map_option (Pair base) (write_all base frames r1))"

definition publish :: "frame \<Rightarrow> ring \<Rightarrow> (u64 \<times> ring) option" where
  "publish f r =
     (let (pos, r1) = take_tickets 1 r in map_option (Pair pos) (write_at pos f r1))"

section \<open>Reader\<close>

definition oldest :: "ring \<Rightarrow> u64" where
  "oldest r = (let w = r_write_pos r in if w > r_capacity r then w - r_capacity r else 0)"

definition attach :: "ring \<Rightarrow> cursor" where
  "attach r = \<lparr>cur_next = oldest r, cur_missed = 0\<rparr>"

definition lap :: "ring \<Rightarrow> cursor \<Rightarrow> cursor" where
  "lap r c =
     (let target = oldest r in
      if target > cur_next c
      then c\<lparr>cur_missed := cur_missed c + (target - cur_next c), cur_next := target\<rparr>
      else c\<lparr>cur_missed := cur_missed c + 1, cur_next := cur_next c + 1\<rparr>)"

text \<open>What the first load of the sequence word decides.\<close>

datatype s1_verdict = CellEmpty | CellLapped | CellReadable

definition s1_check :: "u64 \<Rightarrow> u64 \<Rightarrow> s1_verdict" where
  "s1_check nxt s1 =
     (if s1 = 0 then CellEmpty else
      let cell_pos = (s1 - 1) div 2 in
      if cell_pos < nxt then CellEmpty
      else if cell_pos > nxt then CellLapped
      else if s1 AND 1 \<noteq> 0 then CellEmpty
      else CellReadable)"

text \<open>What the second load and the position check decide.\<close>

datatype s2_verdict = Torn | Inconsistent | Good

definition s2_check :: "u64 \<Rightarrow> u64 \<Rightarrow> u64 \<Rightarrow> u64 list \<Rightarrow> s2_verdict" where
  "s2_check nxt s1 s2 words =
     (if s2 \<noteq> s1 then Torn else if words ! 0 \<noteq> nxt then Inconsistent else Good)"

definition try_read :: "ring \<Rightarrow> cursor \<Rightarrow> read_status \<times> cursor \<times> frame option \<times> ring" where
  "try_read r c =
     (let cell = cell_at r (cur_next c); s1 = c_seq cell in
      case s1_check (cur_next c) s1 of
        CellEmpty \<Rightarrow> (ReadEmpty, c, None, r)
      | CellLapped \<Rightarrow> (ReadLapped, lap r c, None, r)
      | CellReadable \<Rightarrow>
          let words = c_words cell; s2 = c_seq cell in
          case s2_check (cur_next c) s1 s2 words of
            Torn \<Rightarrow> (ReadLapped, lap r c, None, r)
          | Inconsistent \<Rightarrow>
              (ReadLapped, lap r c, None,
               r\<lparr>r_inconsistent_reads := r_inconsistent_reads r + 1\<rparr>)
          | Good \<Rightarrow>
              (ReadOk, c\<lparr>cur_next := cur_next c + 1\<rparr>, Some (words_frame words), r))"

text \<open>The loop of \<open>read_batch\<close>; \<open>None\<close> would mean that it does not return.\<close>

partial_function (option) read_loop ::
  "nat \<Rightarrow> frame list \<Rightarrow> cursor \<Rightarrow> ring \<Rightarrow> (frame list \<times> cursor \<times> ring) option" where
  "read_loop room acc c r =
     (if room = 0 then Some (acc, c, r)
      else case try_read r c of
             (st, c', fo, r') \<Rightarrow>
               (case st of
                  ReadOk \<Rightarrow> read_loop (room - 1) (acc @ [the fo]) c' r'
                | ReadLapped \<Rightarrow> read_loop room acc c' r'
                | ReadEmpty \<Rightarrow> Some (acc, c', r')))"

declare read_loop.simps [code]

definition read_batch ::
  "nat \<Rightarrow> cursor \<Rightarrow> ring \<Rightarrow> (read_result \<times> frame list \<times> cursor \<times> ring) option" where
  "read_batch out_size c r =
     map_option (\<lambda>(fs, c', r').
         (\<lparr>rr_count = length fs, rr_missed = cur_missed c' - cur_missed c\<rparr>, fs, c', r'))
       (read_loop out_size [] c r)"

section \<open>Idle path\<close>

text \<open>\<open>wait_for_data\<close>: \<open>env1\<close> is what other threads do to the ring between the registration and the
  second check, \<open>env2\<close> what they do while this reader is parked; \<open>wait_for\<close> returns the value of its
  predicate in the state it wakes up in.\<close>

definition wait_for_data :: "u64 \<Rightarrow> (ring \<Rightarrow> ring) \<Rightarrow> (ring \<Rightarrow> ring) \<Rightarrow> ring \<Rightarrow> bool \<times> ring" where
  "wait_for_data known env1 env2 r =
     (if r_write_pos r > known then (True, r) else
      let r1 = env1 (r\<lparr>r_waiters := r_waiters r + 1\<rparr>) in
      if r_write_pos r1 > known then (True, r1\<lparr>r_waiters := r_waiters r1 - 1\<rparr>) else
      let r2 = env2 r1; woken = (r_write_pos r2 > known \<or> r_closed r2)
      in (woken, r2\<lparr>r_waiters := r_waiters r2 - 1\<rparr>))"

text \<open>Whether a publish notifies the parked readers.\<close>

definition wake_readers :: "ring \<Rightarrow> bool" where
  "wake_readers r \<longleftrightarrow> r_waiters r \<noteq> 0"

definition ring_close :: "ring \<Rightarrow> ring" where
  "ring_close r = r\<lparr>r_closed := True\<rparr>"

section \<open>The payload words\<close>

lemma length_frame_bytes [simp]: "frame_ok f \<Longrightarrow> length (frame_bytes f) = 40"
  by (simp add: frame_bytes_def frame_ok_def kMaxPayload_def)

lemma length_frame_words [simp]: "length (frame_words f) = 5"
  by (simp add: frame_words_def kFrameWords_def)

lemma upt_5: "[0..<5] = [0, 1, 2, 3, 4 :: nat]"
  by (simp add: upt_rec)

lemma concat_frame_words:
  assumes "frame_ok f"
  shows "concat (map (store_le 8) (frame_words f)) = frame_bytes f"
proof -
  have "concat (map (store_le 8) (frame_words f)) =
      get 0 8 (frame_bytes f) @ get 8 8 (frame_bytes f) @ get 16 8 (frame_bytes f) @
      get 24 8 (frame_bytes f) @ get 32 8 (frame_bytes f)"
    using assms by (simp add: frame_words_def kFrameWords_def upt_5 store_load_le)
  also have "get 32 8 (frame_bytes f) = drop 32 (frame_bytes f)"
    using assms by (simp add: get_def)
  finally show ?thesis by (simp add: get_append_drop)
qed

lemma words_frame_words:
  assumes "frame_ok f"
  shows "words_frame (frame_words f) = f"
proof -
  have l: "length (data f) = 8" using assms by (simp add: frame_ok_def kMaxPayload_def)
  have fields: "get 0 8 (frame_bytes f) = store_le 8 (seq f)"
    "get 8 8 (frame_bytes f) = store_le 8 (t_kernel_ns f)"
    "get 16 8 (frame_bytes f) = store_le 8 (t_ingest_ns f)"
    "get 24 4 (frame_bytes f) = store_le 4 (ucast (can_id f))"
    "get 32 8 (frame_bytes f) = data f"
    "frame_bytes f ! 28 = src_id f" "frame_bytes f ! 29 = len f"
    "frame_bytes f ! 30 = flags f" "frame_bytes f ! 31 = reserved f"
    using l by (simp_all add: frame_bytes_def get_def nth_append)
  show ?thesis
    unfolding words_frame_def Let_def concat_frame_words [OF assms] fields by simp
qed

lemma frame_words_seq: "(frame_words f)[0 := pos] = frame_words (f\<lparr>seq := pos\<rparr>)"
  by (simp add: frame_words_def kFrameWords_def upt_5 frame_bytes_def get_def)

lemma payload_eq: "payload pos f = frame_words (f\<lparr>seq := pos\<rparr>)"
  by (simp add: payload_def frame_words_seq)

lemma payload_0 [simp]: "payload pos f ! 0 = pos"
  by (simp add: payload_def)

lemma length_payload [simp]: "length (payload pos f) = 5"
  by (simp add: payload_def)

lemma words_frame_payload [simp]: "frame_ok f \<Longrightarrow> words_frame (payload pos f) = f\<lparr>seq := pos\<rparr>"
  by (simp add: payload_eq words_frame_words)

section \<open>Capacity\<close>

lemma round_up_from_diverges:
  assumes "round_up_from p v = Some c"
  shows "\<not> (v > 2 ^ 63 \<and> (p = 0 \<or> (\<exists>k < 64. p = 2 ^ k)))"
proof (rule round_up_from.raw_induct [where P = "\<lambda>p v c. \<not> (v > 2 ^ 63 \<and> (p = 0 \<or> (\<exists>k < 64. p = 2 ^ k)))",
      OF _ assms])
  fix f :: "u64 \<Rightarrow> u64 \<Rightarrow> u64 option" and p v c :: u64
  assume IH: "\<And>p v c. f p v = Some c \<Longrightarrow> \<not> (v > 2 ^ 63 \<and> (p = 0 \<or> (\<exists>k < 64. p = 2 ^ k)))"
    and eq: "(if p < v then f (push_bit 1 p) v else Some p) = Some c"
  show "\<not> (v > 2 ^ 63 \<and> (p = 0 \<or> (\<exists>k < 64. p = 2 ^ k)))"
  proof
    assume a: "v > 2 ^ 63 \<and> (p = 0 \<or> (\<exists>k < 64. p = 2 ^ k))"
    then have v: "v > 2 ^ 63" by simp
    have "unat p \<le> 2 ^ 63"
    proof (cases "p = 0")
      case False
      then obtain k where "k < 64" "p = 2 ^ k" using a by auto
      then have "unat p = 2 ^ k" "k \<le> 63" by simp_all
      then show ?thesis by (simp only: power_increasing one_le_numeral)
    qed simp
    then have "p \<le> 2 ^ 63" by (simp add: word_le_nat_alt)
    with v have lt: "p < v" by simp
    have "push_bit 1 p = 0 \<or> (\<exists>k < 64. push_bit 1 p = 2 ^ k)"
    proof (cases "p = 0")
      case False
      then obtain k where k: "k < 64" "p = 2 ^ k" using a by auto
      show ?thesis
      proof (cases "k = 63")
        case True
        with k show ?thesis by (simp add: push_bit_eq_mult)
      next
        case False
        with k have "Suc k < 64" "push_bit 1 p = 2 ^ Suc k" by (auto simp: push_bit_eq_mult)
        then show ?thesis by blast
      qed
    qed simp
    moreover have "f (push_bit 1 p) v = Some c" using eq lt by simp
    ultimately show False using IH v by blast
  qed
qed

lemma round_up_from_pow2:
  assumes "v \<le> 2 ^ 63" "k \<le> 63"
  shows "\<exists>m. k \<le> m \<and> m \<le> 63 \<and> round_up_from (2 ^ k) v = Some (2 ^ m) \<and> v \<le> 2 ^ m \<and>
    (m = k \<or> 2 ^ (m - 1) < v)"
  using assms(2)
proof (induction "63 - k" arbitrary: k)
  case 0
  then have "k = 63" by simp
  with assms(1) show ?case
    by (intro exI [of _ 63], subst round_up_from.simps) (auto simp: not_less)
next
  case (Suc d)
  show ?case
  proof (cases "2 ^ k < v")
    case False
    then show ?thesis using Suc.prems
      by (intro exI [of _ k], subst round_up_from.simps) (auto simp: not_less)
  next
    case True
    from Suc.hyps(2) have "d = 63 - Suc k" "Suc k \<le> 63" by auto
    from Suc.hyps(1) [OF this] obtain m where m: "Suc k \<le> m" "m \<le> 63"
      "round_up_from (2 ^ Suc k) v = Some (2 ^ m)" "v \<le> 2 ^ m" "m = Suc k \<or> 2 ^ (m - 1) < v"
      by blast
    have "round_up_from (2 ^ k) v = round_up_from (2 ^ Suc k) v"
      using True by (subst round_up_from.simps) (simp add: push_bit_eq_mult mult.commute)
    with m True show ?thesis by (intro exI [of _ m]) auto
  qed
qed

text \<open>(C22) The ring's capacity is the least power of two that holds the request (at least 2), for every
  request up to \<open>2^63\<close>; above that the rounding loop never returns, so no ring is built.\<close>

theorem round_up_pow2_spec:
  "(v \<le> 2 ^ 63 \<longrightarrow> (\<exists>m \<le> 63. round_up_pow2 v = Some (2 ^ m) \<and> v \<le> 2 ^ m \<and>
      (m = 0 \<or> 2 ^ (m - 1) < v))) \<and>
   (v > 2 ^ 63 \<longrightarrow> round_up_pow2 v = None)"
proof (intro conjI impI)
  assume "v \<le> 2 ^ 63"
  from round_up_from_pow2 [OF this, of 0]
  show "\<exists>m \<le> 63. round_up_pow2 v = Some (2 ^ m) \<and> v \<le> 2 ^ m \<and> (m = 0 \<or> 2 ^ (m - 1) < v)"
    by (auto simp: round_up_pow2_def)
next
  assume v: "v > 2 ^ 63"
  show "round_up_pow2 v = None"
  proof (rule ccontr)
    assume "round_up_pow2 v \<noteq> None"
    then obtain c where "round_up_from 1 v = Some c" by (auto simp: round_up_pow2_def)
    from round_up_from_diverges [OF this] v show False by (metis power_0 zero_less_numeral)
  qed
qed

theorem round_up_pow2_spec_witness:
  "(\<exists>m \<le> 63. round_up_pow2 5 = Some (2 ^ m) \<and> 5 \<le> (2 ^ m :: u64) \<and> (m = 0 \<or> 2 ^ (m - 1) < (5 :: u64)))
   \<and> round_up_pow2 (2 ^ 63 + 1) = None"
  using round_up_pow2_spec [of 5] round_up_pow2_spec [of "2 ^ 63 + 1"] by simp

end
