(* ===== verification/Ring_Steps.thy ===== *)
theory Ring_Steps
  imports Broadcast_Ring
begin

text \<open>
  The broadcast ring under concurrency (\<^verbatim>\<open>src/broadcast_ring.hpp\<close>). Any number of producers run
  \<open>publish_batch\<close> and any number of readers run \<open>try_read\<close>; one step is one atomic access of one
  thread, together with the local computation up to the next one, and any thread may move next.
  The five relaxed payload stores of a cell may take effect in any order between the claim and the
  publishing store, and the five payload loads may happen in any order between the two loads of
  the sequence word; beyond that the accesses are interleaved as written (no weaker reordering is
  modelled). Three components are ghost state no step reads: the frames in ticket order, what each
  reader has been given, and where it attached. The invariant \<open>ring_inv\<close> holds in every reachable
  state in which at most \<open>2^62\<close> tickets were taken, so that \<open>2 * pos + 2\<close> does not wrap.
\<close>

section \<open>Threads\<close>

text \<open>Where a producer is: before the call, before \<open>fetch_add\<close>, at the claim loop for frame \<open>i\<close> of the
  batch with \<open>spins\<close> failures, at the payload stores still to do, at \<open>wake_readers\<close>.\<close>

datatype ppc =
    PIdle
  | PTake "frame list"
  | PClaim u64 nat "frame list" nat
  | PStore u64 nat "frame list" "nat list"
  | PWake u64

text \<open>Where a reader is: before \<open>s1\<close>, at the payload loads (with what it has loaded), at \<open>lap\<close>.\<close>

datatype rpc = RIdle | RWords u64 "(nat \<times> u64) list" | RLap

record ring_sys =
  s_ring :: ring
  s_prod :: "nat \<Rightarrow> ppc"
  s_rpc :: "nat \<Rightarrow> rpc"
  s_cur :: "nat \<Rightarrow> cursor"
  s_log :: "frame list"
  s_out :: "nat \<Rightarrow> frame list"
  s_from :: "nat \<Rightarrow> u64"

datatype action =
    Call nat "frame list"
  | Take nat
  | Cas nat bool
  | Store nat nat
  | Complete nat
  | Wake nat
  | Attach nat
  | ReadS1 nat
  | LoadWord nat nat
  | ReadS2 nat
  | Lap nat

definition loaded_words :: "(nat \<times> u64) list \<Rightarrow> u64 list" where
  "loaded_words ld = map (\<lambda>k. the (map_of ld k)) [0..<kFrameWords]"

text \<open>The producer's atomic steps.\<close>

fun exec_producer :: "action \<Rightarrow> ring_sys \<Rightarrow> ring_sys option" where
  "exec_producer (Call a fs) s =
     (if s_prod s a = PIdle \<and> fs \<noteq> [] \<and> list_all frame_ok fs
      then Some (s\<lparr>s_prod := (s_prod s)(a := PTake fs)\<rparr>) else None)"
| "exec_producer (Take a) s =
     (case s_prod s a of
        PTake fs \<Rightarrow>
          let (base, r) = take_tickets (length fs) (s_ring s)
          in Some (s\<lparr>s_ring := r, s_prod := (s_prod s)(a := PClaim base 0 fs 0),
                     s_log := s_log s @ fs\<rparr>)
      | _ \<Rightarrow> None)"
| "exec_producer (Cas a spurious) s =
     (case s_prod s a of
        PClaim base i fs spins \<Rightarrow>
          let (ok, r) = cas_claim spurious (base + of_nat i) (s_ring s)
          in Some (s\<lparr>s_ring := r, s_prod := (s_prod s)(a :=
               (if ok then PStore base i fs [0..<kFrameWords]
                else PClaim base i fs (next_spins spins)))\<rparr>)
      | _ \<Rightarrow> None)"
| "exec_producer (Store a k) s =
     (case s_prod s a of
        PStore base i fs todo \<Rightarrow>
          if k \<in> set todo then
            let pos = base + of_nat i
            in Some (s\<lparr>s_ring := store_word pos k (payload pos (fs ! i) ! k) (s_ring s),
                       s_prod := (s_prod s)(a := PStore base i fs (removeAll k todo))\<rparr>)
          else None
      | _ \<Rightarrow> None)"
| "exec_producer (Complete a) s =
     (case s_prod s a of
        PStore base i fs todo \<Rightarrow>
          if todo = [] then
            Some (s\<lparr>s_ring := publish_cell (base + of_nat i) (s_ring s),
                    s_prod := (s_prod s)(a :=
                      (if Suc i < length fs then PClaim base (Suc i) fs 0 else PWake base))\<rparr>)
          else None
      | _ \<Rightarrow> None)"
| "exec_producer (Wake a) s =
     (case s_prod s a of PWake base \<Rightarrow> Some (s\<lparr>s_prod := (s_prod s)(a := PIdle)\<rparr>) | _ \<Rightarrow> None)"
| "exec_producer _ s = None"

text \<open>The reader's atomic steps.\<close>

fun exec_reader :: "action \<Rightarrow> ring_sys \<Rightarrow> ring_sys option" where
  "exec_reader (Attach b) s =
     (if s_rpc s b = RIdle
      then Some (s\<lparr>s_cur := (s_cur s)(b := attach (s_ring s)), s_out := (s_out s)(b := []),
                   s_from := (s_from s)(b := oldest (s_ring s))\<rparr>)
      else None)"
| "exec_reader (ReadS1 b) s =
     (if s_rpc s b = RIdle then
        let nxt = cur_next (s_cur s b); s1 = c_seq (cell_at (s_ring s) nxt)
        in Some (s\<lparr>s_rpc := (s_rpc s)(b :=
             (case s1_check nxt s1 of
                CellEmpty \<Rightarrow> RIdle | CellLapped \<Rightarrow> RLap | CellReadable \<Rightarrow> RWords s1 []))\<rparr>)
      else None)"
| "exec_reader (LoadWord b k) s =
     (case s_rpc s b of
        RWords s1 ld \<Rightarrow>
          if k < kFrameWords \<and> k \<notin> fst ` set ld then
            Some (s\<lparr>s_rpc := (s_rpc s)(b :=
              RWords s1 ((k, c_words (cell_at (s_ring s) (cur_next (s_cur s b))) ! k) # ld))\<rparr>)
          else None
      | _ \<Rightarrow> None)"
| "exec_reader (ReadS2 b) s =
     (case s_rpc s b of
        RWords s1 ld \<Rightarrow>
          if length ld = kFrameWords then
            let nxt = cur_next (s_cur s b); s2 = c_seq (cell_at (s_ring s) nxt);
                words = loaded_words ld
            in Some
              (case s2_check nxt s1 s2 words of
                 Torn \<Rightarrow> s\<lparr>s_rpc := (s_rpc s)(b := RLap)\<rparr>
               | Inconsistent \<Rightarrow>
                   s\<lparr>s_ring := (s_ring s)\<lparr>r_inconsistent_reads := r_inconsistent_reads (s_ring s) + 1\<rparr>,
                     s_rpc := (s_rpc s)(b := RLap)\<rparr>
               | Good \<Rightarrow>
                   s\<lparr>s_rpc := (s_rpc s)(b := RIdle),
                     s_cur := (s_cur s)(b := (s_cur s b)\<lparr>cur_next := nxt + 1\<rparr>),
                     s_out := (s_out s)(b := s_out s b @ [words_frame words])\<rparr>)
          else None
      | _ \<Rightarrow> None)"
| "exec_reader (Lap b) s =
     (case s_rpc s b of
        RLap \<Rightarrow> Some (s\<lparr>s_rpc := (s_rpc s)(b := RIdle),
                       s_cur := (s_cur s)(b := lap (s_ring s) (s_cur s b))\<rparr>)
      | _ \<Rightarrow> None)"
| "exec_reader _ s = None"

definition ring_init :: "ring \<Rightarrow> ring_sys" where
  "ring_init r = \<lparr>s_ring = r, s_prod = (\<lambda>_. PIdle), s_rpc = (\<lambda>_. RIdle),
     s_cur = (\<lambda>_. \<lparr>cur_next = 0, cur_missed = 0\<rparr>), s_log = [], s_out = (\<lambda>_. []), s_from = (\<lambda>_. 0)\<rparr>"

inductive ring_step :: "ring_sys \<Rightarrow> ring_sys \<Rightarrow> bool" where
  producer: "exec_producer act s = Some t \<Longrightarrow> ring_step s t"
| reader: "exec_reader act s = Some t \<Longrightarrow> ring_step s t"

inductive ring_reachable :: "u64 \<Rightarrow> ring_sys \<Rightarrow> bool" for capacity where
  start: "ring_new capacity = Some r \<Longrightarrow> ring_reachable capacity (ring_init r)"
| step: "ring_reachable capacity s \<Longrightarrow> ring_step s t \<Longrightarrow> ring_reachable capacity t"

text \<open>A schedule, executed.\<close>

fun exec_all :: "action list \<Rightarrow> ring_sys \<Rightarrow> ring_sys option" where
  "exec_all [] s = Some s"
| "exec_all (a # as) s =
     (case exec_producer a s of
        Some t \<Rightarrow> exec_all as t
      | None \<Rightarrow> (case exec_reader a s of Some t \<Rightarrow> exec_all as t | None \<Rightarrow> None))"

section \<open>Positions and cells\<close>

definition ring_geo :: "ring \<Rightarrow> bool" where
  "ring_geo r \<longleftrightarrow> (\<exists>k. 1 \<le> k \<and> k < 64 \<and> r_capacity r = 2 ^ k \<and> r_mask r = 2 ^ k - 1 \<and>
     length (r_cells r) = 2 ^ k)"

abbreviation cap :: "ring \<Rightarrow> nat" where
  "cap r \<equiv> unat (r_capacity r)"

definition seqn :: "ring \<Rightarrow> nat \<Rightarrow> nat" where
  "seqn r p = unat (c_seq (r_cells r ! (p mod cap r)))"

definition wordsn :: "ring \<Rightarrow> nat \<Rightarrow> u64 list" where
  "wordsn r p = c_words (r_cells r ! (p mod cap r))"

lemma ring_geo_cap: "ring_geo r \<Longrightarrow> cap r \<ge> 2 \<and> length (r_cells r) = cap r"
proof -
  assume "ring_geo r"
  then obtain k where k: "1 \<le> k" "k < 64" "r_capacity r = 2 ^ k" "length (r_cells r) = 2 ^ k"
    by (auto simp: ring_geo_def)
  have "(2 :: nat) ^ 1 \<le> 2 ^ k" using k(1) by (rule power_increasing) simp
  then show ?thesis using k by simp
qed

lemma cell_index_mod [ring_simps]:
  assumes "ring_geo r"
  shows "cell_index r pos = unat pos mod cap r"
proof -
  obtain k where k: "k < 64" "r_capacity r = 2 ^ k" "r_mask r = 2 ^ k - 1"
    using assms by (auto simp: ring_geo_def)
  have "pos AND r_mask r = take_bit k pos"
    by (simp add: k(3) take_bit_eq_mask mask_eq_exp_minus_1)
  then have "cell_index r pos = take_bit k (unat pos)"
    by (simp add: cell_index_def unsigned_take_bit_eq)
  then show ?thesis using k by (simp add: take_bit_eq_mod)
qed

lemma cell_index_less: "ring_geo r \<Longrightarrow> cell_index r pos < length (r_cells r)"
  using ring_geo_cap [of r] by (simp add: cell_index_mod)

lemma cell_at_seqn [ring_simps]: "ring_geo r \<Longrightarrow> unat (c_seq (cell_at r pos)) = seqn r (unat pos)"
  by (simp add: cell_at_def seqn_def cell_index_mod)

lemma cell_at_wordsn [ring_simps]: "ring_geo r \<Longrightarrow> c_words (cell_at r pos) = wordsn r (unat pos)"
  by (simp add: cell_at_def wordsn_def cell_index_mod)

lemma set_cell_frame [simp]:
  "r_capacity (set_cell r pos c) = r_capacity r" "r_mask (set_cell r pos c) = r_mask r"
  "r_write_pos (set_cell r pos c) = r_write_pos r"
  "r_inconsistent_reads (set_cell r pos c) = r_inconsistent_reads r"
  "length (r_cells (set_cell r pos c)) = length (r_cells r)"
  by (simp_all add: set_cell_def)

lemma ring_geo_set_cell [simp]: "ring_geo (set_cell r pos c) = ring_geo r"
  by (simp add: ring_geo_def)

lemma nth_set_cell:
  "ring_geo r \<Longrightarrow> i < cap r \<Longrightarrow>
    r_cells (set_cell r pos c) ! i = (if i = unat pos mod cap r then c else r_cells r ! i)"
  using ring_geo_cap [of r] by (simp add: set_cell_def cell_index_mod nth_list_update)

lemma mod_cap_less: "ring_geo r \<Longrightarrow> p mod cap r < cap r"
  using ring_geo_cap [of r] by simp

lemma seqn_set_cell [ring_simps]:
  "ring_geo r \<Longrightarrow>
    seqn (set_cell r pos c) p = (if p mod cap r = unat pos mod cap r then unat (c_seq c) else seqn r p)"
  by (simp add: seqn_def nth_set_cell mod_cap_less)

lemma wordsn_set_cell [ring_simps]:
  "ring_geo r \<Longrightarrow>
    wordsn (set_cell r pos c) p = (if p mod cap r = unat pos mod cap r then c_words c else wordsn r p)"
  by (simp add: wordsn_def nth_set_cell mod_cap_less)

section \<open>Sequence words\<close>

lemma unat_double_plus:
  fixes pos :: u64
  assumes "unat pos < 2 ^ 62" "b \<le> 2"
  shows "unat (2 * pos + of_nat b) = 2 * unat pos + b"
proof -
  have "unat (2 * pos) = 2 * unat pos"
    using assms(1) by (simp add: unat_word_ariths)
  then show ?thesis using assms by (subst unat_add_of_nat) auto
qed

lemma unat_claimed [ring_simps]: "unat pos < 2 ^ 62 \<Longrightarrow> unat (claimed_seq pos) = 2 * unat pos + 1"
  using unat_double_plus [of pos 1] by (simp add: claimed_seq_def)

lemma unat_complete [ring_simps]: "unat pos < 2 ^ 62 \<Longrightarrow> unat (complete_seq pos) = 2 * unat pos + 2"
  using unat_double_plus [of pos 2] by (simp add: complete_seq_def)

lemma unat_expected [ring_simps]:
  assumes "unat pos < 2 ^ 62"
  shows "unat (expected_seq r pos) =
    (if unat pos < cap r then 0 else 2 * (unat pos - cap r) + 2)"
proof (cases "pos < r_capacity r")
  case True
  then show ?thesis by (simp add: expected_seq_def word_less_nat_alt)
next
  case False
  then have "unat (pos - r_capacity r) = unat pos - cap r"
    by (simp add: unat_sub_le not_less)
  with False assms show ?thesis
    using unat_double_plus [of "pos - r_capacity r" 2]
    by (simp add: expected_seq_def word_less_nat_alt)
qed

lemma s1_check_nat:
  "s1_check nxt s1 =
    (if unat s1 = 0 \<or> (unat s1 - 1) div 2 < unat nxt then CellEmpty
     else if (unat s1 - 1) div 2 > unat nxt then CellLapped
     else if odd (unat s1) then CellEmpty else CellReadable)"
proof (cases "s1 = 0")
  case True
  then show ?thesis by (simp add: s1_check_def)
next
  case False
  then have "unat s1 \<noteq> 0" by (simp add: unat_eq_0)
  moreover have "unat (s1 - 1) = unat s1 - 1"
    using False by (subst unat_sub_le) (simp_all add: word_le_nat_alt Suc_le_eq unat_gt_0)
  then have "unat ((s1 - 1) div 2) = (unat s1 - 1) div 2" by (simp add: unat_div)
  moreover have "s1 AND 1 \<noteq> 0 \<longleftrightarrow> odd (unat s1)"
  proof -
    have "odd (unat s1) \<longleftrightarrow> odd s1" by (simp flip: bit_0 add: bit_unsigned_iff)
    then show ?thesis by (simp add: and_one_eq mod_2_eq_odd)
  qed
  ultimately show ?thesis
    using False by (simp add: s1_check_def Let_def word_less_nat_alt)
qed

lemma s1_readable: "s1_check nxt s1 = CellReadable \<Longrightarrow> unat s1 = 2 * unat nxt + 2"
  by (auto simp: s1_check_nat split: if_splits)

lemma s1_lapped: "s1_check nxt s1 = CellLapped \<Longrightarrow> unat s1 > 0 \<and> (unat s1 - 1) div 2 > unat nxt"
  by (auto simp: s1_check_nat split: if_splits)

end
