(* ===== verification/Ring_Invariant.thy ===== *)
theory Ring_Invariant
  imports Ring_Steps
begin

text \<open>
  The invariant of the concurrent ring and its preservation by every atomic step, one lemma per
  kind of step. The cells, the producers and the readers each have their own clause; the clauses
  about producers say which ticket is pending, which is being written and which is published, and
  that is what excludes two writers in one cell.
\<close>

section \<open>The invariant\<close>

definition slot :: "frame list \<Rightarrow> nat \<Rightarrow> u64 list" where
  "slot log p = payload (of_nat p) (log ! p)"

text \<open>A cell was never written, or is being written for a ticket that maps to it, or holds that
  ticket's frame entirely.\<close>

definition cell_ok :: "nat \<Rightarrow> frame list \<Rightarrow> nat \<Rightarrow> cell \<Rightarrow> bool" where
  "cell_ok n log i c \<longleftrightarrow> length (c_words c) = 5 \<and>
     (c_seq c = 0 \<or>
      (\<exists>p < length log. p mod n = i \<and>
         (unat (c_seq c) = 2 * p + 1 \<or> unat (c_seq c) = 2 * p + 2 \<and> c_words c = slot log p)))"

definition cells_ok :: "ring \<Rightarrow> frame list \<Rightarrow> bool" where
  "cells_ok r log \<longleftrightarrow> (\<forall>i < cap r. cell_ok (cap r) log i (r_cells r ! i))"

fun owned :: "ppc \<Rightarrow> nat set" where
  "owned (PClaim b i fs _) = {unat b + i ..< unat b + length fs}"
| "owned (PStore b i fs _) = {unat b + i ..< unat b + length fs}"
| "owned _ = {}"

fun pending :: "ppc \<Rightarrow> nat set" where
  "pending (PClaim b i fs _) = {unat b + i ..< unat b + length fs}"
| "pending (PStore b i fs _) = {Suc (unat b + i) ..< unat b + length fs}"
| "pending _ = {}"

definition batch_ok :: "frame list \<Rightarrow> u64 \<Rightarrow> nat \<Rightarrow> frame list \<Rightarrow> bool" where
  "batch_ok log b i fs \<longleftrightarrow> i < length fs \<and> unat b + length fs \<le> length log \<and>
     (\<forall>j < length fs. log ! (unat b + j) = fs ! j)"

fun prod_ok :: "frame list \<Rightarrow> ppc \<Rightarrow> bool" where
  "prod_ok log PIdle = True"
| "prod_ok log (PTake fs) = (fs \<noteq> [] \<and> list_all frame_ok fs)"
| "prod_ok log (PClaim b i fs _) = batch_ok log b i fs"
| "prod_ok log (PStore b i fs todo) = (batch_ok log b i fs \<and> set todo \<subseteq> {..<5})"
| "prod_ok log (PWake b) = True"

fun writing_ok :: "ring \<Rightarrow> frame list \<Rightarrow> ppc \<Rightarrow> bool" where
  "writing_ok r log (PStore b i fs todo) =
     (seqn r (unat b + i) = 2 * (unat b + i) + 1 \<and>
      (\<forall>k < 5. k \<notin> set todo \<longrightarrow> wordsn r (unat b + i) ! k = slot log (unat b + i) ! k))"
| "writing_ok r log _ = True"

definition producers_ok :: "ring \<Rightarrow> frame list \<Rightarrow> (nat \<Rightarrow> ppc) \<Rightarrow> bool" where
  "producers_ok r log ps \<longleftrightarrow>
     (\<forall>a. prod_ok log (ps a)) \<and>
     (\<forall>a b. a \<noteq> b \<longrightarrow> owned (ps a) \<inter> owned (ps b) = {}) \<and>
     (\<forall>a. \<forall>p \<in> pending (ps a). seqn r p \<le> 2 * p) \<and>
     (\<forall>a. writing_ok r log (ps a)) \<and>
     (\<forall>p < length log. (\<forall>a. p \<notin> owned (ps a)) \<longrightarrow> 2 * p + 2 \<le> seqn r p)"

fun reader_pc_ok :: "ring \<Rightarrow> frame list \<Rightarrow> nat \<Rightarrow> rpc \<Rightarrow> bool" where
  "reader_pc_ok r log p RIdle = True"
| "reader_pc_ok r log p (RWords s1 ld) =
     (p < length log \<and> unat s1 = 2 * p + 2 \<and> 2 * p + 2 \<le> seqn r p \<and>
      distinct (map fst ld) \<and> fst ` set ld \<subseteq> {..<5} \<and>
      (seqn r p = 2 * p + 2 \<longrightarrow> (\<forall>(k, w) \<in> set ld. w = slot log p ! k)))"
| "reader_pc_ok r log p RLap = (p + cap r < length log)"

text \<open>What a reader was given: frames of the log, ascending, none before it attached or after its
  cursor; and every position it passed was either given to it or counted as missed.\<close>

definition reader_out_ok :: "frame list \<Rightarrow> u64 \<Rightarrow> cursor \<Rightarrow> frame list \<Rightarrow> bool" where
  "reader_out_ok log from c out \<longleftrightarrow>
     unat (cur_next c) \<le> length log \<and>
     (\<forall>f \<in> set out. f = (log ! unat (seq f))\<lparr>seq := seq f\<rparr> \<and> from \<le> seq f \<and> seq f < cur_next c) \<and>
     sorted_wrt (<) (map seq out) \<and>
     unat from + length out + unat (cur_missed c) = unat (cur_next c)"

definition ring_inv :: "ring_sys \<Rightarrow> bool" where
  "ring_inv s \<longleftrightarrow>
     ring_geo (s_ring s) \<and>
     r_write_pos (s_ring s) = of_nat (length (s_log s)) \<and>
     r_inconsistent_reads (s_ring s) = 0 \<and>
     list_all frame_ok (s_log s) \<and>
     cells_ok (s_ring s) (s_log s) \<and>
     producers_ok (s_ring s) (s_log s) (s_prod s) \<and>
     (\<forall>b. reader_pc_ok (s_ring s) (s_log s) (unat (cur_next (s_cur s b))) (s_rpc s b)) \<and>
     (\<forall>b. reader_out_ok (s_log s) (s_from s b) (s_cur s b) (s_out s b))"

lemma producers_okD:
  assumes "producers_ok r log ps"
  shows "prod_ok log (ps a)" "a \<noteq> b \<Longrightarrow> owned (ps a) \<inter> owned (ps b) = {}"
    "p \<in> pending (ps a) \<Longrightarrow> seqn r p \<le> 2 * p" "writing_ok r log (ps a)"
    "p < length log \<Longrightarrow> (\<And>a. p \<notin> owned (ps a)) \<Longrightarrow> 2 * p + 2 \<le> seqn r p"
  using assms unfolding producers_ok_def by blast+

lemma pending_owned: "prod_ok log pc \<Longrightarrow> pending pc \<subseteq> owned pc"
  by (cases pc) (auto simp: batch_ok_def)

lemma owned_bound: "prod_ok log pc \<Longrightarrow> p \<in> owned pc \<Longrightarrow> p < length log"
  by (cases pc) (auto simp: batch_ok_def)

section \<open>Reading the cells\<close>

lemma cells_okD:
  assumes "cells_ok r log" "ring_geo r"
  shows "length (wordsn r p) = 5"
    "seqn r p = 0 \<or> (\<exists>q < length log. q mod cap r = p mod cap r \<and>
       (seqn r p = 2 * q + 1 \<or> seqn r p = 2 * q + 2 \<and> wordsn r p = slot log q))"
  using assms mod_cap_less [OF assms(2), of p]
  by (auto simp: cells_ok_def cell_ok_def seqn_def wordsn_def unat_eq_0)

lemma cells_ok_complete:
  assumes "cells_ok r log" "ring_geo r" "seqn r p = 2 * p + 2"
  shows "p < length log" "wordsn r p = slot log p"
proof -
  obtain q where q: "q < length log"
    "seqn r p = 2 * q + 1 \<or> seqn r p = 2 * q + 2 \<and> wordsn r p = slot log q"
    using cells_okD(2) [OF assms(1,2), of p] assms(3) by auto
  moreover have "seqn r p \<noteq> 2 * q + 1" using assms(3) by presburger
  ultimately have "q = p" "wordsn r p = slot log q" using assms(3) by auto
  with q show "p < length log" "wordsn r p = slot log p" by auto
qed

text \<open>A cell whose sequence word is past position \<open>p\<close> belongs to a ticket a whole lap ahead.\<close>

lemma cells_ok_beyond:
  assumes "cells_ok r log" "ring_geo r" "seqn r p > 0" "(seqn r p - 1) div 2 > p"
  shows "p + cap r < length log"
proof -
  obtain q where q: "q < length log" "q mod cap r = p mod cap r"
    "seqn r p = 2 * q + 1 \<or> seqn r p = 2 * q + 2"
    using cells_okD(2) [OF assms(1,2), of p] assms(3) by auto
  then have "p < q" using assms(4) by auto
  then have "cap r dvd q - p" using q(2) by (metis less_imp_le mod_eq_dvd_iff_nat)
  then have "cap r \<le> q - p" using \<open>p < q\<close> by (simp add: dvd_imp_le)
  with q(1) \<open>p < q\<close> show ?thesis by simp
qed

lemma slot_append [simp]: "p < length log \<Longrightarrow> slot (log @ fs) p = slot log p"
  by (simp add: slot_def nth_append)

lemma length_slot [simp]: "length (slot log p) = 5"
  by (simp add: slot_def)

section \<open>Frame rules\<close>

text \<open>Readers only depend on the sequence words not going backwards.\<close>

lemma reader_pc_ok_mono:
  assumes "reader_pc_ok r log p pc" "seqn r p \<le> seqn r' p" "cap r' = cap r"
  shows "reader_pc_ok r' log p pc"
  using assms by (cases pc) auto

lemma reader_pc_ok_append: "reader_pc_ok r log p pc \<Longrightarrow> reader_pc_ok r (log @ fs) p pc"
  by (cases pc) auto

lemma reader_out_ok_append:
  assumes "reader_out_ok log from c out"
  shows "reader_out_ok (log @ fs) from c out"
proof -
  have "(log @ fs) ! unat (seq f) = log ! unat (seq f)" if "f \<in> set out" for f
  proof -
    have "seq f < cur_next c" "unat (cur_next c) \<le> length log"
      using assms that by (auto simp: reader_out_ok_def)
    then show ?thesis by (simp add: nth_append word_less_nat_alt)
  qed
  with assms show ?thesis by (auto simp: reader_out_ok_def)
qed

lemma prod_ok_append: "prod_ok log pc \<Longrightarrow> prod_ok (log @ fs) pc"
  by (cases pc) (auto simp: batch_ok_def nth_append)

lemma writing_ok_append: "prod_ok log pc \<Longrightarrow> writing_ok r log pc \<Longrightarrow> writing_ok r (log @ fs) pc"
  by (cases pc) (auto simp: batch_ok_def)

lemma cell_ok_append: "cell_ok n log i c \<Longrightarrow> cell_ok n (log @ fs) i c"
  unfolding cell_ok_def
  by (metis (no_types, lifting) length_append slot_append trans_less_add1)

lemma cells_ok_append: "cells_ok r log \<Longrightarrow> cells_ok r (log @ fs)"
  by (simp add: cells_ok_def cell_ok_append)

end
