(* ===== verification/Ring_Safety.thy ===== *)
theory Ring_Safety
  imports Ring_Invariant
begin

text \<open>
  Every atomic step of the concurrent ring preserves \<open>ring_inv\<close>, so it holds in every reachable state
  in which at most \<open>2^62\<close> tickets were taken; and what follows from it for readers and producers.
\<close>

section \<open>Producer steps\<close>

lemma producers_ok_update:
  assumes "producers_ok r log ps" "owned pc \<subseteq> owned (ps a)" "prod_ok log pc" "writing_ok r' log pc"
    and "\<And>q. q \<in> pending pc \<Longrightarrow> seqn r' q \<le> 2 * q"
    and "\<And>c q. c \<noteq> a \<Longrightarrow> q \<in> pending (ps c) \<Longrightarrow> seqn r' q \<le> 2 * q"
    and "\<And>c. c \<noteq> a \<Longrightarrow> writing_ok r' log (ps c)"
    and "\<And>q. q < length log \<Longrightarrow> q \<notin> owned pc \<Longrightarrow> (\<And>c. c \<noteq> a \<Longrightarrow> q \<notin> owned (ps c)) \<Longrightarrow>
      2 * q + 2 \<le> seqn r' q"
  shows "producers_ok r' log (ps(a := pc))"
  unfolding producers_ok_def
proof (intro conjI allI impI ballI)
  fix x show "prod_ok log ((ps(a := pc)) x)"
    using producers_okD(1) [OF assms(1)] assms(3) by simp
next
  fix x y :: nat assume "x \<noteq> y"
  then show "owned ((ps(a := pc)) x) \<inter> owned ((ps(a := pc)) y) = {}"
    using producers_okD(2) [OF assms(1), of x y] assms(2) by auto
next
  fix x q assume "q \<in> pending ((ps(a := pc)) x)"
  then show "seqn r' q \<le> 2 * q" using assms(5,6) by (auto split: if_splits)
next
  fix x show "writing_ok r' log ((ps(a := pc)) x)" using assms(4,7) by simp
next
  fix q assume q: "q < length log" "\<forall>x. q \<notin> owned ((ps(a := pc)) x)"
  then have "q \<notin> owned pc" by (metis fun_upd_same)
  moreover have "q \<notin> owned (ps c)" if "c \<noteq> a" for c using q(2) that by (metis fun_upd_other)
  ultimately show "2 * q + 2 \<le> seqn r' q" using assms(8) q(1) by blast
qed

text \<open>A step of one producer that changes neither the ring nor what the producer owns.\<close>

lemma producers_ok_local:
  assumes "producers_ok r log ps" "owned pc = owned (ps a)" "pending pc = pending (ps a)"
    and "prod_ok log pc" "writing_ok r log pc"
  shows "producers_ok r log (ps(a := pc))"
proof (rule producers_ok_update [OF assms(1) _ assms(4,5)])
  show "owned pc \<subseteq> owned (ps a)" using assms(2) by simp
  show "seqn r q \<le> 2 * q" if "q \<in> pending pc" for q
    using producers_okD(3) [OF assms(1)] assms(3) that by blast
  show "seqn r q \<le> 2 * q" if "c \<noteq> a" "q \<in> pending (ps c)" for c q
    using producers_okD(3) [OF assms(1) that(2)] .
  show "writing_ok r log (ps c)" for c using producers_okD(4) [OF assms(1)] .
  show "2 * q + 2 \<le> seqn r q"
    if "q < length log" "q \<notin> owned pc" "\<And>c. c \<noteq> a \<Longrightarrow> q \<notin> owned (ps c)" for q
    using producers_okD(5) [OF assms(1) that(1)] that(2,3) assms(2) by metis
qed

lemma seqn_same: "q mod cap r = p mod cap r \<Longrightarrow> seqn r q = seqn r p"
  by (simp add: seqn_def)

lemma same_cell_before:
  assumes "q mod n = p mod n" "q < p"
  shows "q + n \<le> (p :: nat)"
proof -
  have "n dvd p - q" using assms by (metis less_imp_le mod_eq_dvd_iff_nat)
  then show ?thesis using assms(2) by (auto dest: dvd_imp_le)
qed

text \<open>The claim. The word the previous occupant leaves is even, so nobody else is writing the cell,
  and any other pending ticket of the cell is at least a lap ahead.\<close>

lemma claim_keeps_producers:
  assumes inv: "producers_ok r log ps" and geo: "ring_geo r"
    and pc: "ps a = PClaim b i fs spins" and p: "p = unat b + i"
    and old: "seqn r p = (if p < cap r then 0 else 2 * (p - cap r) + 2)"
    and seq: "\<And>q. seqn r' q = (if q mod cap r = p mod cap r then 2 * p + 1 else seqn r q)"
    and words: "\<And>q. wordsn r' q = wordsn r q"
  shows "producers_ok r' log (ps(a := PStore b i fs [0..<kFrameWords]))"
proof (rule producers_ok_update [OF inv])
  have same: "seqn r q = seqn r p" if "q mod cap r = p mod cap r" for q
    using that by (simp add: seqn_def)
  have pa: "p \<in> owned (ps a)" using producers_okD(1) [OF inv, of a] pc p by (auto simp: batch_ok_def)
  have later: "seqn r' q \<le> 2 * q" if "seqn r q \<le> 2 * q" "q \<noteq> p" for q
  proof (cases "q mod cap r = p mod cap r")
    case True
    have "\<not> q < p"
    proof
      assume "q < p"
      then have "q + cap r \<le> p" using True by (rule same_cell_before [rotated])
      then have "2 * q + 2 \<le> seqn r p" using old by auto
      then show False using that(1) same [OF True] by simp
    qed
    then show ?thesis using that(2) True seq by simp
  qed (use that seq in simp)
  show "owned (PStore b i fs [0..<kFrameWords]) \<subseteq> owned (ps a)" by (simp add: pc)
  show "prod_ok log (PStore b i fs [0..<kFrameWords])"
    using producers_okD(1) [OF inv, of a] pc by (auto simp: kFrameWords_def)
  show "writing_ok r' log (PStore b i fs [0..<kFrameWords])" by (simp add: seq p kFrameWords_def)
  show "seqn r' q \<le> 2 * q" if "q \<in> pending (PStore b i fs [0..<kFrameWords])" for q
    using that p pc producers_okD(3) [OF inv, of q a] by (intro later) auto
  show "seqn r' q \<le> 2 * q" if "c \<noteq> a" "q \<in> pending (ps c)" for c q
    using that pa producers_okD(2) [OF inv, of c a] producers_okD(3) [OF inv, of q c]
      pending_owned [OF producers_okD(1) [OF inv, of c]] by (intro later) auto
  show "writing_ok r' log (ps c)" if "c \<noteq> a" for c
  proof (cases "ps c")
    case (PStore b' i' fs' todo)
    then have w: "seqn r (unat b' + i') = 2 * (unat b' + i') + 1"
      using producers_okD(4) [OF inv, of c] by simp
    have "even (seqn r p)" using old by simp
    then have "(unat b' + i') mod cap r \<noteq> p mod cap r" using w same [of "unat b' + i'"]
      by (metis even_Suc even_mult_iff even_numeral Suc_eq_plus1)
    then show ?thesis using producers_okD(4) [OF inv, of c] PStore by (simp add: seq words)
  qed simp_all
  show "2 * q + 2 \<le> seqn r' q"
    if "q < length log" "q \<notin> owned (PStore b i fs [0..<kFrameWords])"
      "\<And>c. c \<noteq> a \<Longrightarrow> q \<notin> owned (ps c)" for q
  proof -
    have "q \<notin> owned (ps c)" for c using that(2,3) pc by (cases "c = a") auto
    then have "2 * q + 2 \<le> seqn r q" using producers_okD(5) [OF inv that(1)] by blast
    moreover have "seqn r p \<le> 2 * p + 1" using old ring_geo_cap [OF geo] by (auto split: if_splits)
    ultimately show ?thesis
      by (cases "q mod cap r = p mod cap r") (use same [of q] in \<open>simp_all add: seq\<close>)
  qed
qed

text \<open>While a ticket is being written its cell is nobody else's.\<close>

lemma writer_alone:
  assumes "producers_ok r log ps" "ps a = PStore b i fs todo" "ps c = PStore b' i' fs' todo'"
    and "c \<noteq> a"
  shows "(unat b' + i') mod cap r \<noteq> (unat b + i) mod cap r"
proof
  assume m: "(unat b' + i') mod cap r = (unat b + i) mod cap r"
  then have "seqn r (unat b' + i') = seqn r (unat b + i)" by (simp add: seqn_def)
  then have "unat b' + i' = unat b + i"
    using producers_okD(4) [OF assms(1), of a] producers_okD(4) [OF assms(1), of c] assms(2,3) by simp
  moreover have "unat b + i \<in> owned (ps a)" "unat b' + i' \<in> owned (ps c)"
    using producers_okD(1) [OF assms(1), of a] producers_okD(1) [OF assms(1), of c] assms(2,3)
    by (auto simp: batch_ok_def)
  ultimately show False using producers_okD(2) [OF assms(1,4)] by auto
qed

lemma store_keeps_producers:
  assumes inv: "producers_ok r log ps"
    and pc: "ps a = PStore b i fs todo" and p: "p = unat b + i"
    and seq: "\<And>q. seqn r' q = seqn r q"
    and words: "\<And>q. wordsn r' q = (if q mod cap r = p mod cap r then (wordsn r p)[k := slot log p ! k]
      else wordsn r q)"
    and len: "length (wordsn r p) = 5"
  shows "producers_ok r' log (ps(a := PStore b i fs (removeAll k todo)))"
proof (rule producers_ok_update [OF inv])
  have upd: "(wordsn r (unat b + i))[k := w] ! j = (if j = k then w else wordsn r (unat b + i) ! j)"
    if "j < 5" for j w
    using len that p by (cases "j = k") simp_all
  show "owned (PStore b i fs (removeAll k todo)) \<subseteq> owned (ps a)" by (simp add: pc)
  show "prod_ok log (PStore b i fs (removeAll k todo))"
    using producers_okD(1) [OF inv, of a] pc by auto
  show "writing_ok r' log (PStore b i fs (removeAll k todo))"
    using producers_okD(4) [OF inv, of a] pc upd by (simp add: seq words p)
  show "seqn r' q \<le> 2 * q" if "q \<in> pending (PStore b i fs (removeAll k todo))" for q
    using that pc producers_okD(3) [OF inv, of q a] by (simp add: seq)
  show "seqn r' q \<le> 2 * q" if "c \<noteq> a" "q \<in> pending (ps c)" for c q
    using that producers_okD(3) [OF inv] by (auto simp: seq)
  show "writing_ok r' log (ps c)" if "c \<noteq> a" for c
    using producers_okD(4) [OF inv, of c] writer_alone [OF inv pc _ that] p
    by (cases "ps c") (auto simp: seq words)
  show "2 * q + 2 \<le> seqn r' q"
    if "q < length log" "q \<notin> owned (PStore b i fs (removeAll k todo))"
      "\<And>c. c \<noteq> a \<Longrightarrow> q \<notin> owned (ps c)" for q
  proof -
    have "q \<notin> owned (ps c)" for c using that(2,3) pc by (cases "c = a") auto
    then show ?thesis using producers_okD(5) [OF inv that(1)] by (simp add: seq)
  qed
qed

lemma complete_keeps_producers:
  assumes inv: "producers_ok r log ps"
    and pc: "ps a = PStore b i fs []" and p: "p = unat b + i"
    and seq: "\<And>q. seqn r' q = (if q mod cap r = p mod cap r then 2 * p + 2 else seqn r q)"
    and words: "\<And>q. wordsn r' q = wordsn r q"
    and next_pc: "pc' = (if Suc i < length fs then PClaim b (Suc i) fs 0 else PWake b)"
  shows "producers_ok r' log (ps(a := pc'))"
proof (rule producers_ok_update [OF inv])
  have sp: "seqn r p = 2 * p + 1" using producers_okD(4) [OF inv, of a] pc p by simp
  have same: "seqn r q = 2 * p + 1" if "q mod cap r = p mod cap r" for q
    using that sp by (simp add: seqn_def)
  have later: "seqn r' q \<le> 2 * q" if "seqn r q \<le> 2 * q" for q
  proof (cases "q mod cap r = p mod cap r")
    case True
    then have "2 * p + 1 \<le> 2 * q" using that same [OF True] by simp
    then have "2 * p + 2 \<le> 2 * q" by presburger
    then show ?thesis using True by (simp add: seq)
  qed (use that seq in simp)
  show "owned pc' \<subseteq> owned (ps a)" by (auto simp: next_pc pc)
  show "prod_ok log pc'" using producers_okD(1) [OF inv, of a] pc by (auto simp: next_pc batch_ok_def)
  show "writing_ok r' log pc'" by (simp add: next_pc)
  show "seqn r' q \<le> 2 * q" if "q \<in> pending pc'" for q
    using that pc producers_okD(3) [OF inv, of q a] by (intro later) (auto simp: next_pc split: if_splits)
  show "seqn r' q \<le> 2 * q" if "c \<noteq> a" "q \<in> pending (ps c)" for c q
    using that producers_okD(3) [OF inv, of q c] by (intro later)
  show "writing_ok r' log (ps c)" if "c \<noteq> a" for c
    using producers_okD(4) [OF inv, of c] writer_alone [OF inv pc _ that] p
    by (cases "ps c") (auto simp: seq words)
  show "2 * q + 2 \<le> seqn r' q"
    if "q < length log" "q \<notin> owned pc'" "\<And>c. c \<noteq> a \<Longrightarrow> q \<notin> owned (ps c)" for q
  proof (cases "q \<in> owned (ps a)")
    case True
    then have "q = p" using that(2) pc p by (auto simp: next_pc split: if_splits)
    then show ?thesis by (simp add: seq)
  next
    case False
    then have "2 * q + 2 \<le> seqn r q" using producers_okD(5) [OF inv that(1)] that(3) by metis
    then show ?thesis using same [of q] by (auto simp: seq)
  qed
qed

lemma take_keeps_producers:
  assumes inv: "producers_ok r log ps" and pc: "ps a = PTake fs"
    and low: "\<And>q. seqn r q \<le> 2 * length log" and seq: "\<And>q. seqn r' q = seqn r q"
    and words: "\<And>q. wordsn r' q = wordsn r q" and b: "unat b = length log"
  shows "producers_ok r' (log @ fs) (ps(a := PClaim b 0 fs 0))"
  unfolding producers_ok_def
proof (intro conjI allI impI ballI)
  let ?ps = "ps(a := PClaim b 0 fs 0)"
  have fs: "fs \<noteq> []" using producers_okD(1) [OF inv, of a] pc by simp
  have old: "owned (ps c) \<subseteq> {..<length log}" for c
    using owned_bound [OF producers_okD(1) [OF inv, of c]] by auto
  fix x y q
  show "prod_ok (log @ fs) (?ps x)"
    using prod_ok_append [OF producers_okD(1) [OF inv, of x]] fs b
    by (simp add: batch_ok_def)
  show "owned (?ps x) \<inter> owned (?ps y) = {}" if "x \<noteq> y"
    using producers_okD(2) [OF inv that] old [of x] old [of y] that b by auto
  show "seqn r' q \<le> 2 * q" if "q \<in> pending (?ps x)"
    using that producers_okD(3) [OF inv, of q x] low [of q] b by (auto simp: seq split: if_splits)
  show "writing_ok r' (log @ fs) (?ps x)"
    using writing_ok_append [OF producers_okD(1,4) [OF inv, of x]]
    by (cases "ps x") (auto simp: seq words)
  show "2 * q + 2 \<le> seqn r' q" if q: "q < length (log @ fs)" "\<forall>x. q \<notin> owned (?ps x)"
  proof -
    have "q \<notin> owned (PClaim b 0 fs 0)" using q(2) by (metis fun_upd_same)
    then have "q < length log" using q(1) b by auto
    moreover have "q \<notin> owned (ps c)" for c using q(2) pc by (cases "c = a") (auto dest: spec [of _ c])
    ultimately show ?thesis using producers_okD(5) [OF inv] by (simp add: seq)
  qed
qed

section \<open>The invariant under producer steps\<close>

lemma ring_invD:
  assumes "ring_inv s"
  shows "ring_geo (s_ring s)" "r_write_pos (s_ring s) = of_nat (length (s_log s))"
    "r_inconsistent_reads (s_ring s) = 0" "list_all frame_ok (s_log s)"
    "cells_ok (s_ring s) (s_log s)" "producers_ok (s_ring s) (s_log s) (s_prod s)"
    "reader_pc_ok (s_ring s) (s_log s) (unat (cur_next (s_cur s b))) (s_rpc s b)"
    "reader_out_ok (s_log s) (s_from s b) (s_cur s b) (s_out s b)"
  using assms unfolding ring_inv_def by blast+

text \<open>A step that leaves readers alone and does not move a sequence word backwards.\<close>

lemma ring_inv_ring_step:
  assumes inv: "ring_inv s" and geo: "ring_geo r'" and pos: "r_write_pos r' = r_write_pos (s_ring s)"
    and "r_inconsistent_reads r' = r_inconsistent_reads (s_ring s)" and "cap r' = cap (s_ring s)"
    and cells: "cells_ok r' (s_log s)" and prods: "producers_ok r' (s_log s) ps"
    and mono: "\<And>q. seqn (s_ring s) q \<le> seqn r' q"
  shows "ring_inv (s\<lparr>s_ring := r', s_prod := ps\<rparr>)"
  using assms(2-7) ring_invD(2-4,8) [OF inv]
    reader_pc_ok_mono [OF ring_invD(7) [OF inv] mono assms(5)]
  by (simp add: ring_inv_def)

lemma ticket_unat:
  assumes "ring_inv s" "s_prod s a = PClaim b i fs spins \<or> s_prod s a = PStore b i fs todo"
    and "length (s_log s) \<le> 2 ^ 62"
  shows "unat (b + of_nat i) = unat b + i" "unat b + i < length (s_log s)"
    "unat (b + of_nat i) < 2 ^ 62" "slot (s_log s) (unat b + i) = payload (b + of_nat i) (fs ! i)"
proof -
  have b: "batch_ok (s_log s) b i fs"
    using producers_okD(1) [OF ring_invD(6) [OF assms(1)], of a] assms(2) by auto
  then show l: "unat b + i < length (s_log s)" by (simp add: batch_ok_def)
  then show u: "unat (b + of_nat i) = unat b + i" using assms(3) by (simp add: unat_add_of_nat)
  then show "unat (b + of_nat i) < 2 ^ 62" using l assms(3) by simp
  have "of_nat (unat b + i) = b + of_nat i" by simp
  then show "slot (s_log s) (unat b + i) = payload (b + of_nat i) (fs ! i)"
    using b by (simp only: slot_def) (simp add: batch_ok_def)
qed

lemma cells_ok_set_cell:
  assumes "cells_ok r log" "ring_geo r" "cell_ok (cap r) log (unat pos mod cap r) c"
  shows "cells_ok (set_cell r pos c) log"
  using assms by (simp add: cells_ok_def nth_set_cell)

lemma writing_ok_cong: "seqn r' = seqn r \<Longrightarrow> wordsn r' = wordsn r \<Longrightarrow> writing_ok r' = writing_ok r"
proof (intro ext)
  fix log pc assume "seqn r' = seqn r" "wordsn r' = wordsn r"
  then show "writing_ok r' log pc = writing_ok r log pc" by (cases pc) simp_all
qed

lemma cas_keeps_inv:
  assumes inv: "ring_inv s" and le: "length (s_log s) \<le> 2 ^ 62"
    and step: "exec_producer (Cas a spurious) s = Some t"
  shows "ring_inv t"
proof -
  obtain b i fs spins where pc: "s_prod s a = PClaim b i fs spins"
    using step by (auto split: ppc.splits)
  note geo = ring_invD(1) [OF inv] and tick = ticket_unat [OF inv disjI1 [OF pc] le]
  let ?r = "s_ring s" and ?pos = "b + of_nat i" and ?p = "unat b + i"
  show ?thesis
  proof (cases "\<not> spurious \<and> c_seq (cell_at ?r ?pos) = expected_seq ?r ?pos")
    case False
    then have t: "t = s\<lparr>s_ring := ?r\<lparr>r_claim_retries := r_claim_retries ?r + 1\<rparr>,
        s_prod := (s_prod s)(a := PClaim b i fs (next_spins spins))\<rparr>"
      using step pc by (auto simp: cas_claim_def Let_def)
    have eq: "seqn (?r\<lparr>r_claim_retries := n\<rparr>) = seqn ?r" "wordsn (?r\<lparr>r_claim_retries := n\<rparr>) = wordsn ?r" for n
      by (simp_all add: seqn_def wordsn_def fun_eq_iff)
    have "producers_ok ?r (s_log s) ((s_prod s)(a := PClaim b i fs (next_spins spins)))"
      using producers_okD(1) [OF ring_invD(6) [OF inv], of a] pc
      by (intro producers_ok_local [OF ring_invD(6) [OF inv]]) simp_all
    then have "producers_ok (?r\<lparr>r_claim_retries := r_claim_retries ?r + 1\<rparr>) (s_log s)
        ((s_prod s)(a := PClaim b i fs (next_spins spins)))"
      unfolding producers_ok_def writing_ok_cong [OF eq] eq .
    then show ?thesis unfolding t
      using ring_invD(1,5) [OF inv] eq(1)
      by (intro ring_inv_ring_step [OF inv]) (simp_all add: ring_geo_def cells_ok_def)
  next
    case True
    let ?r' = "set_cell ?r ?pos ((cell_at ?r ?pos)\<lparr>c_seq := claimed_seq ?pos\<rparr>)"
    have t: "t = s\<lparr>s_ring := ?r', s_prod := (s_prod s)(a := PStore b i fs [0..<kFrameWords])\<rparr>"
      using step pc True by (auto simp: cas_claim_def Let_def)
    have old: "seqn ?r ?p = (if ?p < cap ?r then 0 else 2 * (?p - cap ?r) + 2)"
      using True cell_at_seqn [OF geo, of ?pos] tick unat_expected [of ?pos ?r] by simp
    have seq: "seqn ?r' q = (if q mod cap ?r = ?p mod cap ?r then 2 * ?p + 1 else seqn ?r q)" for q
      using tick by (simp add: seqn_set_cell [OF geo] unat_claimed)
    have words: "wordsn ?r' q = wordsn ?r q" for q
      using tick by (simp add: wordsn_set_cell [OF geo] cell_at_wordsn [OF geo]) (simp add: wordsn_def)
    have "cell_ok (cap ?r) (s_log s) (unat ?pos mod cap ?r)
        ((cell_at ?r ?pos)\<lparr>c_seq := claimed_seq ?pos\<rparr>)"
      using tick cells_okD(1) [OF ring_invD(5) [OF inv] geo, of ?p]
      by (auto simp: cell_ok_def unat_claimed cell_at_wordsn [OF geo])
    moreover have "seqn ?r q \<le> seqn ?r' q" for q
      using old seqn_same [of q ?r ?p] ring_geo_cap [OF geo] by (auto simp: seq)
    ultimately show ?thesis unfolding t
      using geo claim_keeps_producers [OF ring_invD(6) [OF inv] geo pc refl old seq words]
        cells_ok_set_cell [OF ring_invD(5) [OF inv] geo]
      by (intro ring_inv_ring_step [OF inv]) auto
  qed
qed

lemma store_keeps_inv:
  assumes inv: "ring_inv s" and le: "length (s_log s) \<le> 2 ^ 62"
    and step: "exec_producer (Store a k) s = Some t"
  shows "ring_inv t"
proof -
  obtain b i fs todo where pc: "s_prod s a = PStore b i fs todo"
    using step by (auto split: ppc.splits)
  note geo = ring_invD(1) [OF inv] and tick = ticket_unat [OF inv disjI2 [OF pc] le]
  let ?r = "s_ring s" and ?pos = "b + of_nat i" and ?p = "unat b + i"
  let ?c = "(cell_at ?r ?pos)\<lparr>c_words := (c_words (cell_at ?r ?pos))[k := slot (s_log s) ?p ! k]\<rparr>"
  let ?r' = "set_cell ?r ?pos ?c"
  have t: "t = s\<lparr>s_ring := ?r', s_prod := (s_prod s)(a := PStore b i fs (removeAll k todo))\<rparr>"
    using step pc tick(4) by (auto simp: store_word_def Let_def split: if_splits)
  have odd: "seqn ?r ?p = 2 * ?p + 1" using producers_okD(4) [OF ring_invD(6) [OF inv], of a] pc by simp
  have seq: "seqn ?r' q = seqn ?r q" for q
    using tick cell_at_seqn [OF geo, of ?pos] by (simp add: seqn_set_cell [OF geo]) (simp add: seqn_def)
  have words: "wordsn ?r' q = (if q mod cap ?r = ?p mod cap ?r
      then (wordsn ?r ?p)[k := slot (s_log s) ?p ! k] else wordsn ?r q)" for q
    using tick by (simp add: wordsn_set_cell [OF geo] cell_at_wordsn [OF geo])
  have len: "length (wordsn ?r ?p) = 5" using cells_okD(1) [OF ring_invD(5) [OF inv] geo] .
  have "cell_ok (cap ?r) (s_log s) (unat ?pos mod cap ?r) ?c"
    using tick len odd cell_at_seqn [OF geo, of ?pos] by (auto simp: cell_ok_def cell_at_wordsn [OF geo])
  then show ?thesis unfolding t
    using geo store_keeps_producers [OF ring_invD(6) [OF inv] pc refl seq words len]
      cells_ok_set_cell [OF ring_invD(5) [OF inv] geo]
    by (intro ring_inv_ring_step [OF inv]) (auto simp: seq)
qed

lemma complete_keeps_inv:
  assumes inv: "ring_inv s" and le: "length (s_log s) \<le> 2 ^ 62"
    and step: "exec_producer (Complete a) s = Some t"
  shows "ring_inv t"
proof -
  obtain b i fs where pc: "s_prod s a = PStore b i fs []"
    using step by (auto split: ppc.splits if_splits)
  note geo = ring_invD(1) [OF inv] and tick = ticket_unat [OF inv disjI2 [OF pc] le]
  let ?r = "s_ring s" and ?pos = "b + of_nat i" and ?p = "unat b + i"
  let ?c = "(cell_at ?r ?pos)\<lparr>c_seq := complete_seq ?pos\<rparr>"
  let ?r' = "set_cell ?r ?pos ?c" and ?pc = "if Suc i < length fs then PClaim b (Suc i) fs 0 else PWake b"
  have t: "t = s\<lparr>s_ring := ?r', s_prod := (s_prod s)(a := ?pc)\<rparr>"
    using step pc by (auto simp: publish_cell_def)
  have w: "seqn ?r ?p = 2 * ?p + 1" "\<forall>k < 5. wordsn ?r ?p ! k = slot (s_log s) ?p ! k"
    using producers_okD(4) [OF ring_invD(6) [OF inv], of a] pc by simp_all
  have seq: "seqn ?r' q = (if q mod cap ?r = ?p mod cap ?r then 2 * ?p + 2 else seqn ?r q)" for q
    using tick by (simp add: seqn_set_cell [OF geo] unat_complete)
  have words: "wordsn ?r' q = wordsn ?r q" for q
    using tick by (simp add: wordsn_set_cell [OF geo] cell_at_wordsn [OF geo]) (simp add: wordsn_def)
  have len: "length (wordsn ?r ?p) = 5" using cells_okD(1) [OF ring_invD(5) [OF inv] geo] .
  have "wordsn ?r ?p = slot (s_log s) ?p" using w(2) len by (simp add: list_eq_iff_nth_eq)
  then have "cell_ok (cap ?r) (s_log s) (unat ?pos mod cap ?r) ?c"
    using tick len by (auto simp: cell_ok_def cell_at_wordsn [OF geo] unat_complete)
  moreover have "seqn ?r q \<le> seqn ?r' q" for q using w(1) seqn_same [of q ?r ?p] by (auto simp: seq)
  ultimately show ?thesis unfolding t
    using geo complete_keeps_producers [OF ring_invD(6) [OF inv] pc refl seq words refl]
      cells_ok_set_cell [OF ring_invD(5) [OF inv] geo]
    by (intro ring_inv_ring_step [OF inv]) auto
qed

lemma take_keeps_inv:
  assumes inv: "ring_inv s" and le: "length (s_log t) \<le> 2 ^ 62"
    and step: "exec_producer (Take a) s = Some t"
  shows "ring_inv t"
proof -
  obtain fs where pc: "s_prod s a = PTake fs" using step by (auto split: ppc.splits)
  let ?r = "s_ring s" and ?log = "s_log s"
  let ?b = "r_write_pos ?r" and ?r' = "?r\<lparr>r_write_pos := r_write_pos ?r + of_nat (length fs)\<rparr>"
  have t: "t = s\<lparr>s_ring := ?r', s_prod := (s_prod s)(a := PClaim ?b 0 fs 0), s_log := ?log @ fs\<rparr>"
    using step pc by (auto simp: take_tickets_def)
  have b: "unat ?b = length ?log"
    using ring_invD(2) [OF inv] le t by (simp add: unat_of_nat_small)
  have eq: "seqn ?r' = seqn ?r" "wordsn ?r' = wordsn ?r" by (simp_all add: seqn_def wordsn_def fun_eq_iff)
  have low: "seqn ?r q \<le> 2 * length ?log" for q
    using cells_okD(2) [OF ring_invD(5,1) [OF inv], of q] by auto
  have "producers_ok ?r' (?log @ fs) ((s_prod s)(a := PClaim ?b 0 fs 0))"
    using take_keeps_producers [OF ring_invD(6) [OF inv] pc low _ _ b, where r' = ?r'] eq by simp
  moreover have "cells_ok ?r' (?log @ fs)"
    using cells_ok_append [OF ring_invD(5) [OF inv]] by (simp add: cells_ok_def)
  moreover have "reader_pc_ok ?r' (?log @ fs) (unat (cur_next (s_cur s x))) (s_rpc s x)" for x
    using reader_pc_ok_mono [OF reader_pc_ok_append [OF ring_invD(7) [OF inv]], where r' = ?r'] eq by simp
  ultimately show ?thesis
    using ring_invD(1-4) [OF inv] reader_out_ok_append [OF ring_invD(8) [OF inv]]
      producers_okD(1) [OF ring_invD(6) [OF inv], of a] pc
    by (simp add: t ring_inv_def ring_geo_def)
qed

lemma log_grows: "exec_producer act s = Some t \<Longrightarrow> length (s_log s) \<le> length (s_log t)"
proof (cases act)
  case (Take a)
  assume "exec_producer act s = Some t"
  then show ?thesis using Take by (auto simp: take_tickets_def split: ppc.splits)
next
  case (Cas a spurious)
  assume "exec_producer act s = Some t"
  then show ?thesis using Cas by (auto simp: Let_def split: ppc.splits prod.splits)
qed (auto simp: Let_def split: ppc.splits if_splits)

lemma producer_keeps_inv:
  assumes inv: "ring_inv s" and le: "length (s_log t) \<le> 2 ^ 62"
    and step: "exec_producer act s = Some t"
  shows "ring_inv t"
proof -
  have log: "length (s_log s) \<le> 2 ^ 62" using log_grows [OF step] le by simp
  have idle: "ring_inv (s\<lparr>s_prod := (s_prod s)(a := pc)\<rparr>)"
    if "owned (s_prod s a) = {}" "pending (s_prod s a) = {}" "owned pc = {}" "pending pc = {}"
      "prod_ok (s_log s) pc" "writing_ok (s_ring s) (s_log s) pc" for a pc
    using producers_ok_local [OF ring_invD(6) [OF inv], of pc a] that ring_invD [OF inv]
    by (simp add: ring_inv_def)
  show ?thesis
  proof (cases act)
    case (Call a fs)
    then show ?thesis using step idle [of a "PTake fs"] by (auto split: if_splits)
  next
    case (Wake a)
    then show ?thesis using step idle [of a PIdle] by (auto split: ppc.splits)
  next
    case (Take a)
    then show ?thesis using take_keeps_inv [OF inv le] step by blast
  next
    case (Cas a spurious)
    then show ?thesis using cas_keeps_inv [OF inv log] step by blast
  next
    case (Store a k)
    then show ?thesis using store_keeps_inv [OF inv log] step by blast
  next
    case (Complete a)
    then show ?thesis using complete_keeps_inv [OF inv log] step by blast
  qed (use step in simp_all)
qed

section \<open>The invariant under reader steps\<close>

lemma ring_inv_reader:
  assumes "ring_inv s"
    and "reader_pc_ok (s_ring s) (s_log s) (unat (cur_next c)) pc"
    and "reader_out_ok (s_log s) from c out"
  shows "ring_inv (s\<lparr>s_rpc := (s_rpc s)(b := pc), s_cur := (s_cur s)(b := c),
    s_out := (s_out s)(b := out), s_from := (s_from s)(b := from)\<rparr>)"
  using assms by (simp add: ring_inv_def)

lemma oldest_unat:
  assumes "ring_inv s" "length (s_log s) \<le> 2 ^ 62"
  shows "unat (oldest (s_ring s)) = length (s_log s) - cap (s_ring s)"
  using assms(2) ring_invD(2) [OF assms(1)]
  by (auto simp: oldest_def Let_def word_less_nat_alt unat_sub_le word_le_nat_alt unat_of_nat_small)

lemma attach_keeps_inv:
  assumes inv: "ring_inv s" and le: "length (s_log s) \<le> 2 ^ 62"
    and step: "exec_reader (Attach b) s = Some t"
  shows "ring_inv t"
proof -
  have "t = s\<lparr>s_rpc := (s_rpc s)(b := RIdle), s_cur := (s_cur s)(b := attach (s_ring s)),
      s_out := (s_out s)(b := []), s_from := (s_from s)(b := oldest (s_ring s))\<rparr>"
    using step by (auto simp: fun_upd_idem split: if_splits)
  then show ?thesis
    using ring_inv_reader [OF inv, of "attach (s_ring s)" RIdle "oldest (s_ring s)" "[]" b]
      oldest_unat [OF inv le] by (simp add: attach_def reader_out_ok_def)
qed

lemma reader_pc_step:
  assumes inv: "ring_inv s" and t: "t = s\<lparr>s_rpc := (s_rpc s)(b := pc)\<rparr>"
    and "reader_pc_ok (s_ring s) (s_log s) (unat (cur_next (s_cur s b))) pc"
  shows "ring_inv t"
  using ring_inv_reader [OF inv assms(3) ring_invD(8) [OF inv], of b] t by simp

lemma read_s1_keeps_inv:
  assumes inv: "ring_inv s" and step: "exec_reader (ReadS1 b) s = Some t"
  shows "ring_inv t"
proof -
  note geo = ring_invD(1) [OF inv] and cells = ring_invD(5) [OF inv]
  let ?n = "cur_next (s_cur s b)"
  let ?s1 = "c_seq (cell_at (s_ring s) ?n)"
  have t: "t = s\<lparr>s_rpc := (s_rpc s)(b := (case s1_check ?n ?s1 of
      CellEmpty \<Rightarrow> RIdle | CellLapped \<Rightarrow> RLap | CellReadable \<Rightarrow> RWords ?s1 []))\<rparr>"
    using step by (auto simp: Let_def split: if_splits)
  show ?thesis
  proof (rule reader_pc_step [OF inv t], cases "s1_check ?n ?s1")
    case CellLapped
    then show "reader_pc_ok (s_ring s) (s_log s) (unat ?n) (case s1_check ?n ?s1 of
        CellEmpty \<Rightarrow> RIdle | CellLapped \<Rightarrow> RLap | CellReadable \<Rightarrow> RWords ?s1 [])"
      using s1_lapped [OF CellLapped] cells_ok_beyond [OF cells geo, of "unat ?n"]
      by (simp add: cell_at_seqn [OF geo])
  next
    case CellReadable
    then show "reader_pc_ok (s_ring s) (s_log s) (unat ?n) (case s1_check ?n ?s1 of
        CellEmpty \<Rightarrow> RIdle | CellLapped \<Rightarrow> RLap | CellReadable \<Rightarrow> RWords ?s1 [])"
      using s1_readable [OF CellReadable] cells_ok_complete [OF cells geo, of "unat ?n"]
      by (simp add: cell_at_seqn [OF geo])
  qed simp
qed

lemma load_word_keeps_inv:
  assumes inv: "ring_inv s" and step: "exec_reader (LoadWord b k) s = Some t"
  shows "ring_inv t"
proof -
  note geo = ring_invD(1) [OF inv] and cells = ring_invD(5) [OF inv]
  let ?n = "cur_next (s_cur s b)"
  obtain s1 ld where pc: "s_rpc s b = RWords s1 ld" and k: "k < 5" "k \<notin> fst ` set ld"
    and t: "t = s\<lparr>s_rpc := (s_rpc s)(b := RWords s1 ((k, wordsn (s_ring s) (unat ?n) ! k) # ld))\<rparr>"
    using step by (auto simp: cell_at_wordsn [OF geo] kFrameWords_def split: rpc.splits if_splits)
  show ?thesis
    using ring_invD(7) [OF inv, of b] pc k cells_ok_complete(2) [OF cells geo, of "unat ?n"]
    by (intro reader_pc_step [OF inv t]) (auto simp: image_iff)
qed

lemma loaded_words_slot:
  assumes "distinct (map fst ld)" "fst ` set ld \<subseteq> {..<5}" "length ld = 5"
    and "\<forall>(k, w) \<in> set ld. w = ws ! k" "length ws = 5"
  shows "loaded_words ld = ws"
proof -
  have "fst ` set ld = {..<5}"
    using assms(1-3) distinct_card [OF assms(1)] by (intro card_subset_eq) simp_all
  then have "map_of ld k = Some (ws ! k)" if "k < 5" for k
  proof -
    have "k \<in> fst ` set ld" using that \<open>fst ` set ld = {..<5}\<close> by simp
    then obtain w where "(k, w) \<in> set ld" by auto
    then show ?thesis using assms(1,4) by (auto simp: map_of_eq_Some_iff)
  qed
  then show ?thesis using assms(5)
    by (simp add: loaded_words_def kFrameWords_def list_eq_iff_nth_eq)
qed

lemma read_s2_keeps_inv:
  assumes inv: "ring_inv s" and le: "length (s_log s) \<le> 2 ^ 62"
    and step: "exec_reader (ReadS2 b) s = Some t"
  shows "ring_inv t"
proof -
  note geo = ring_invD(1) [OF inv] and cells = ring_invD(5) [OF inv]
  let ?c = "s_cur s b" and ?log = "s_log s"
  let ?n = "cur_next ?c"
  let ?p = "unat ?n"
  obtain s1 ld where pc: "s_rpc s b = RWords s1 ld" and len: "length ld = 5"
    using step by (auto simp: kFrameWords_def split: rpc.splits if_splits)
  have r: "?p < length ?log" "unat s1 = 2 * ?p + 2" "2 * ?p + 2 \<le> seqn (s_ring s) ?p"
      "distinct (map fst ld)" "fst ` set ld \<subseteq> {..<5}"
      "seqn (s_ring s) ?p = 2 * ?p + 2 \<longrightarrow> (\<forall>(k, w) \<in> set ld. w = slot ?log ?p ! k)"
    using ring_invD(7) [OF inv, of b] pc by simp_all
  let ?s2 = "c_seq (cell_at (s_ring s) ?n)"
  show ?thesis
  proof (cases "?s2 = s1")
    case False
    then have t: "t = s\<lparr>s_rpc := (s_rpc s)(b := RLap)\<rparr>"
      using step pc len by (simp add: kFrameWords_def s2_check_def Let_def)
    have "seqn (s_ring s) ?p \<noteq> 2 * ?p + 2"
      using False r(2) cell_at_seqn [OF geo, of ?n] by (metis word_unat_eq_iff)
    then have "seqn (s_ring s) ?p \<ge> 2 * ?p + 3" using r(3) by simp
    then have "(seqn (s_ring s) ?p - 1) div 2 > ?p" "seqn (s_ring s) ?p > 0" by auto
    then show ?thesis
      using cells_ok_beyond [OF cells geo, of ?p] by (intro reader_pc_step [OF inv t]) simp
  next
    case True
    then have "seqn (s_ring s) ?p = 2 * ?p + 2" using r(2) cell_at_seqn [OF geo, of ?n] by simp
    then have w: "loaded_words ld = slot ?log ?p" using loaded_words_slot [OF r(4,5) len] r(6) by simp
    have f: "words_frame (slot ?log ?p) = (?log ! ?p)\<lparr>seq := ?n\<rparr>"
      using ring_invD(4) [OF inv] r(1) by (simp add: slot_def list_all_length)
    have t: "t = s\<lparr>s_rpc := (s_rpc s)(b := RIdle), s_cur := (s_cur s)(b := ?c\<lparr>cur_next := ?n + 1\<rparr>),
        s_out := (s_out s)(b := s_out s b @ [(?log ! ?p)\<lparr>seq := ?n\<rparr>]),
        s_from := (s_from s)(b := s_from s b)\<rparr>"
      using step pc len True f by (auto simp: kFrameWords_def s2_check_def Let_def w slot_def)
    have n1: "unat (?n + 1) = ?p + 1" using r(1) le by (simp add: unat_Suc_small)
    have "s_from s b \<le> ?n" using ring_invD(8) [OF inv, of b]
      by (auto simp: reader_out_ok_def word_le_nat_alt)
    then have "reader_out_ok ?log (s_from s b) (?c\<lparr>cur_next := ?n + 1\<rparr>)
        (s_out s b @ [(?log ! ?p)\<lparr>seq := ?n\<rparr>])"
      using ring_invD(8) [OF inv, of b] r(1) n1
      by (auto simp: reader_out_ok_def sorted_wrt_append word_less_nat_alt)
    then show ?thesis unfolding t by (intro ring_inv_reader [OF inv]) simp_all
  qed
qed

lemma lap_keeps_inv:
  assumes inv: "ring_inv s" and le: "length (s_log s) \<le> 2 ^ 62"
    and step: "exec_reader (Lap b) s = Some t"
  shows "ring_inv t"
proof -
  let ?c = "s_cur s b" and ?o = "oldest (s_ring s)"
  have pc: "s_rpc s b = RLap" using step by (auto split: rpc.splits)
  have beyond: "unat (cur_next ?c) + cap (s_ring s) < length (s_log s)"
    using ring_invD(7) [OF inv, of b] pc by simp
  then have lt: "cur_next ?c < ?o" "unat ?o \<le> length (s_log s)"
    using oldest_unat [OF inv le] by (auto simp: word_less_nat_alt)
  then have l: "lap (s_ring s) ?c = ?c\<lparr>cur_missed := cur_missed ?c + (?o - cur_next ?c), cur_next := ?o\<rparr>"
    by (simp add: lap_def Let_def)
  have t: "t = s\<lparr>s_rpc := (s_rpc s)(b := RIdle), s_cur := (s_cur s)(b := lap (s_ring s) ?c),
      s_out := (s_out s)(b := s_out s b), s_from := (s_from s)(b := s_from s b)\<rparr>"
    using step pc by auto
  have old: "reader_out_ok (s_log s) (s_from s b) ?c (s_out s b)" using ring_invD(8) [OF inv] .
  have d: "unat (?o - cur_next ?c) = unat ?o - unat (cur_next ?c)"
    using lt by (simp add: unat_sub_le)
  have "unat (cur_missed ?c) + unat (?o - cur_next ?c) < 2 ^ 64"
    using old lt le d by (auto simp: reader_out_ok_def word_less_nat_alt)
  then have m: "unat (cur_missed ?c + (?o - cur_next ?c)) =
      unat (cur_missed ?c) + (unat ?o - unat (cur_next ?c))"
    using d by (simp add: unat_add_small)
  have "reader_out_ok (s_log s) (s_from s b) (lap (s_ring s) ?c) (s_out s b)"
    using old lt m by (auto simp: l reader_out_ok_def word_less_nat_alt)
  then show ?thesis unfolding t by (intro ring_inv_reader [OF inv]) simp_all
qed

lemma reader_keeps_inv:
  assumes inv: "ring_inv s" and le: "length (s_log t) \<le> 2 ^ 62"
    and step: "exec_reader act s = Some t"
  shows "ring_inv t"
proof -
  have log: "length (s_log s) \<le> 2 ^ 62"
    using step le by (cases act) (auto simp: Let_def split: rpc.splits if_splits s2_verdict.splits)
  show ?thesis
  proof (cases act)
    case (Attach b)
    then show ?thesis using attach_keeps_inv [OF inv log] step by blast
  next
    case (ReadS1 b)
    then show ?thesis using read_s1_keeps_inv [OF inv] step by blast
  next
    case (LoadWord b k)
    then show ?thesis using load_word_keeps_inv [OF inv] step by blast
  next
    case (ReadS2 b)
    then show ?thesis using read_s2_keeps_inv [OF inv log] step by blast
  next
    case (Lap b)
    then show ?thesis using lap_keeps_inv [OF inv log] step by blast
  qed (use step in simp_all)
qed

section \<open>Reachable states\<close>

lemma step_log_grows: "ring_step s t \<Longrightarrow> length (s_log s) \<le> length (s_log t)"
proof (induction rule: ring_step.induct)
  case (producer act s t)
  then show ?case by (rule log_grows)
next
  case (reader act s t)
  then show ?case
    by (cases act) (auto simp: Let_def split: rpc.splits if_splits s2_verdict.splits)
qed

lemma ring_new_geo:
  assumes "ring_new capacity = Some r"
  shows "ring_geo r" "r_write_pos r = 0" "r_inconsistent_reads r = 0" "cells_ok r log" "seqn r p = 0"
proof -
  let ?v = "if capacity < 2 then 2 else capacity"
  obtain c where c: "round_up_pow2 ?v = Some c"
    and r: "r_capacity r = c" "r_mask r = c - 1" "r_write_pos r = 0" "r_inconsistent_reads r = 0"
      "r_cells r = replicate (unat c) \<lparr>c_seq = 0, c_words = replicate kFrameWords 0\<rparr>"
    using assms by (auto simp: ring_new_def)
  have "?v \<le> 2 ^ 63"
    using c round_up_from_diverges [of 1 ?v c]
    unfolding round_up_pow2_def not_less [symmetric] by (metis power_0 zero_less_numeral)
  then obtain m where m: "m \<le> 63" "c = 2 ^ m" "?v \<le> 2 ^ m"
    using round_up_from_pow2 [of ?v 0] c by (auto simp: round_up_pow2_def)
  have "m \<noteq> 0"
  proof
    assume "m = 0"
    then have "?v \<le> 1" using m(3) by simp
    moreover have "\<not> ?v \<le> (1 :: u64)" by (auto simp: word_le_nat_alt word_less_nat_alt)
    ultimately show False by simp
  qed
  with m r show g: "ring_geo r" by (auto simp: ring_geo_def intro!: exI [of _ m])
  show "seqn r p = 0" using mod_cap_less [OF g, of p] r by (simp add: seqn_def)
  show "cells_ok r log" using r by (simp add: cells_ok_def cell_ok_def kFrameWords_def)
qed (use assms in \<open>auto simp: ring_new_def\<close>)

lemma ring_reachable_inv:
  assumes "ring_reachable capacity s" "length (s_log s) \<le> 2 ^ 62"
  shows "ring_inv s"
  using assms
proof (induction rule: ring_reachable.induct)
  case (start r)
  then show ?case using ring_new_geo [OF start(1)]
    by (simp add: ring_init_def ring_inv_def producers_ok_def reader_out_ok_def)
next
  case (step s t)
  then have "ring_inv s" using step_log_grows [OF step(2)] by simp
  with step(2) show ?case
    by (cases rule: ring_step.cases) (use step(4) producer_keeps_inv reader_keeps_inv in blast)+
qed

end
