(* ===== verification/Ring_Sequential.thy ===== *)
theory Ring_Sequential
  imports Ring_Safety
begin

text \<open>
  The ring between calls: no producer is inside \<open>publish_batch\<close>. \<open>ring_holds r log\<close> says that the ring
  has published exactly the frames of \<open>log\<close>; publishing appends to that log and \<open>read_batch\<close> returns a
  stretch of it. Both loops (the claim and the read) end.
\<close>

section \<open>A ring that has published a log\<close>

text \<open>Tickets below \<open>n\<close> are published, the ones from \<open>n\<close> on are not.\<close>

definition published_to :: "ring \<Rightarrow> frame list \<Rightarrow> nat \<Rightarrow> bool" where
  "published_to r log n \<longleftrightarrow> ring_geo r \<and> r_write_pos r = of_nat (length log) \<and>
     list_all frame_ok log \<and> cells_ok r log \<and> n \<le> length log \<and>
     (\<forall>q < n. 2 * q + 2 \<le> seqn r q) \<and> (\<forall>q \<ge> n. seqn r q \<le> 2 * q)"

definition ring_holds :: "ring \<Rightarrow> frame list \<Rightarrow> bool" where
  "ring_holds r log \<longleftrightarrow> published_to r log (length log)"

definition frame_at :: "frame list \<Rightarrow> nat \<Rightarrow> frame" where
  "frame_at log p = (log ! p)\<lparr>seq := of_nat p\<rparr>"

lemma published_toD:
  assumes "published_to r log n"
  shows "ring_geo r" "r_write_pos r = of_nat (length log)" "list_all frame_ok log" "cells_ok r log"
    "n \<le> length log" "q < n \<Longrightarrow> 2 * q + 2 \<le> seqn r q" "n \<le> q \<Longrightarrow> seqn r q \<le> 2 * q"
  using assms unfolding published_to_def by blast+

lemma ring_holds_new: "ring_new capacity = Some r \<Longrightarrow> ring_holds r []"
  using ring_new_geo [of capacity r] by (simp add: ring_holds_def published_to_def)

lemma ring_new_2: "\<exists>r. ring_new 2 = Some r"
proof -
  have "(ring_new 2 = None) = False" by code_simp
  then show ?thesis by auto
qed

lemma ring_step_dvd: "q mod n = p mod n \<Longrightarrow> p < q \<Longrightarrow> p + n \<le> (q :: nat)"
  by (rule same_cell_before) simp_all

text \<open>The last lap is complete.\<close>

lemma published_window:
  assumes "published_to r log n" "p < n" "n \<le> p + cap r"
  shows "seqn r p = 2 * p + 2" "wordsn r p = slot log p"
proof -
  note P = published_toD [OF assms(1)]
  have lo: "2 * p + 2 \<le> seqn r p" using P(6) assms(2) .
  then obtain q where q: "q mod cap r = p mod cap r" "seqn r p = 2 * q + 1 \<or> seqn r p = 2 * q + 2"
    using cells_okD(2) [OF P(4,1), of p] by auto
  have "\<not> p < q"
  proof
    assume "p < q"
    then have "n \<le> q" using ring_step_dvd [OF q(1)] assms(3) by simp
    then show False using P(7) [of q] q(2) seqn_same [OF q(1)] by auto
  qed
  then have "seqn r p \<le> 2 * p + 2" using q(2) by auto
  with lo show s: "seqn r p = 2 * p + 2" by simp
  show "wordsn r p = slot log p" using cells_ok_complete(2) [OF P(4,1) s] .
qed

text \<open>The cell of the next ticket holds what its producer expects.\<close>

lemma published_next:
  assumes "published_to r log n"
  shows "seqn r n = (if n < cap r then 0 else 2 * (n - cap r) + 2)"
proof (cases "n < cap r")
  case True
  note P = published_toD [OF assms]
  have "seqn r n = 0"
  proof (rule ccontr)
    assume "seqn r n \<noteq> 0"
    then obtain q where q: "q mod cap r = n mod cap r" "seqn r n = 2 * q + 1 \<or> seqn r n = 2 * q + 2"
      using cells_okD(2) [OF P(4,1), of n] by auto
    then have "q < n" using P(7) [of n] by auto
    then have "q + cap r \<le> n" using same_cell_before q(1) by blast
    then show False using True by simp
  qed
  then show ?thesis using True by simp
next
  case False
  then have "n - cap r < n" using ring_geo_cap [OF published_toD(1) [OF assms]] by simp
  then have "seqn r (n - cap r) = 2 * (n - cap r) + 2" using published_window(1) [OF assms] False by simp
  then show ?thesis using seqn_same [of "n - cap r" r n] False by (simp add: le_mod_geq)
qed

section \<open>Publishing\<close>

lemma cell_at_set_cell [simp]: "ring_geo r \<Longrightarrow> cell_at (set_cell r pos c) pos = c"
  using cell_index_less [of r pos] by (simp add: cell_at_def set_cell_def cell_index_def)

lemma set_cell_twice [simp]: "set_cell (set_cell r pos c) pos c' = set_cell r pos c'"
  by (simp add: set_cell_def cell_index_def)

lemma store_word_set_cell:
  "ring_geo r \<Longrightarrow>
    store_word pos k w (set_cell r pos c) = set_cell r pos (c\<lparr>c_words := (c_words c)[k := w]\<rparr>)"
  by (simp add: store_word_def)

lemma stores_write_payload:
  assumes "ring_geo r" "length (c_words c) = 5" "length ws = 5"
  shows "fold (\<lambda>k. store_word pos k (ws ! k)) [0..<kFrameWords] (set_cell r pos c) =
    set_cell r pos (c\<lparr>c_words := ws\<rparr>)"
proof -
  have five: "\<exists>a b d e f. xs = [a, b, d, e, f]" if "length xs = 5" for xs :: "u64 list"
    using that by (auto simp: numeral_eq_Suc length_Suc_conv)
  obtain x0 x1 x2 x3 x4 where "c_words c = [x0, x1, x2, x3, x4]" using five [OF assms(2)] by blast
  moreover obtain y0 y1 y2 y3 y4 where "ws = [y0, y1, y2, y3, y4]" using five [OF assms(3)] by blast
  ultimately show ?thesis
    using assms(1) by (simp add: kFrameWords_def upt_5 store_word_set_cell)
qed

lemma write_at_published:
  assumes P: "published_to r log n" and n: "n < length log" "n < 2 ^ 62"
  obtains r' where "write_at (of_nat n) (log ! n) r = Some r'" "published_to r' log (Suc n)"
proof -
  let ?pos = "of_nat n :: u64"
  have u: "unat ?pos = n" using n(2) by (simp add: unat_of_nat_small)
  note D = published_toD [OF P] and geo = published_toD(1) [OF P]
  let ?c = "cell_at r ?pos"
  let ?c' = "\<lparr>c_seq = complete_seq ?pos, c_words = slot log n\<rparr>"
  have "unat (c_seq ?c) = unat (expected_seq r ?pos)"
    using published_next [OF P] u n(2) by (simp add: cell_at_seqn [OF geo] unat_expected)
  then have "c_seq ?c = expected_seq r ?pos" by (simp add: word_unat_eq_iff)
  moreover have "fold (\<lambda>k. store_word ?pos k (payload ?pos (log ! n) ! k)) [0..<kFrameWords]
      (set_cell r ?pos (?c\<lparr>c_seq := claimed_seq ?pos\<rparr>)) =
      set_cell r ?pos (?c\<lparr>c_seq := claimed_seq ?pos, c_words := slot log n\<rparr>)"
    using stores_write_payload [OF geo, of "?c\<lparr>c_seq := claimed_seq ?pos\<rparr>"] cells_okD(1) [OF D(4,1), of n] u
    by (simp add: cell_at_wordsn [OF geo] slot_def)
  ultimately have w: "write_at ?pos (log ! n) r = Some (set_cell r ?pos ?c')"
    using geo by (cases ?c) (simp add: write_at_def cas_claim_def publish_cell_def)
  have seq: "seqn (set_cell r ?pos ?c') q = (if q mod cap r = n mod cap r then 2 * n + 2 else seqn r q)" for q
    using u n(2) by (simp add: seqn_set_cell [OF geo] unat_complete)
  have "cell_ok (cap r) log (unat ?pos mod cap r) ?c'"
    using u n by (auto simp: cell_ok_def unat_complete)
  then have cells: "cells_ok (set_cell r ?pos ?c') log" using cells_ok_set_cell [OF D(4,1)] by simp
  have below: "2 * q + 2 \<le> seqn (set_cell r ?pos ?c') q" if "q < Suc n" for q
    using that D(6) [of q] by (cases "q = n") (auto simp: seq)
  have above: "seqn (set_cell r ?pos ?c') q \<le> 2 * q" if "Suc n \<le> q" for q
    using that D(7) [of q] by (auto simp: seq)
  show thesis
    using that [OF w] below above cells D n by (simp add: published_to_def)
qed

lemma write_all_published:
  assumes "published_to r log n" "length log \<le> 2 ^ 62"
  shows "\<exists>r'. write_all (of_nat n) (drop n log) r = Some r' \<and> ring_holds r' log"
  using assms(1)
proof (induction "length log - n" arbitrary: n r)
  case 0
  then have "n = length log" using published_toD(5) [OF 0(2)] by simp
  then show ?case using 0 by (simp add: ring_holds_def)
next
  case (Suc d)
  then have n: "n < length log" by simp
  obtain r' where r': "write_at (of_nat n) (log ! n) r = Some r'" "published_to r' log (Suc n)"
    using write_at_published [OF Suc(3) n] n assms(2) by (metis order_less_le_trans)
  have "\<exists>r''. write_all (of_nat (Suc n)) (drop (Suc n) log) r' = Some r'' \<and> ring_holds r'' log"
    using Suc(1) [OF _ r'(2)] Suc(2) by simp
  then show ?case using r'(1) n
    by (simp add: Cons_nth_drop_Suc [symmetric] add.commute)
qed

lemma published_append:
  assumes "ring_holds r log" "list_all frame_ok fs"
  shows "published_to (r\<lparr>r_write_pos := r_write_pos r + of_nat (length fs)\<rparr>) (log @ fs) (length log)"
proof -
  have "seqn (r\<lparr>r_write_pos := w\<rparr>) = seqn r" for w by (simp add: seqn_def fun_eq_iff)
  then show ?thesis
    using assms cells_ok_append [of r log fs]
    by (simp add: ring_holds_def published_to_def ring_geo_def cells_ok_def)
qed

text \<open>A batch published with nobody else inside the ring gets the next tickets, in order.\<close>

lemma publish_batch_appends:
  assumes "ring_holds r log" "list_all frame_ok fs" "length log + length fs \<le> 2 ^ 62"
  shows "\<exists>r'. publish_batch fs r = Some (of_nat (length log), r') \<and> ring_holds r' (log @ fs)"
proof (cases "fs = []")
  case True
  then show ?thesis using assms(1) published_toD(2)
    by (auto simp: publish_batch_def ring_holds_def)
next
  case False
  have "r_write_pos r = of_nat (length log)"
    using assms(1) published_toD(2) by (auto simp: ring_holds_def)
  with write_all_published [OF published_append [OF assms(1,2)]] assms(3) False
  show ?thesis by (auto simp: publish_batch_def take_tickets_def)
qed

lemma publish_is_batch: "publish f r = publish_batch [f] r"
proof -
  have "write_all pos [f] r' = write_at pos f r'" for pos r' by (cases "write_at pos f r'") simp_all
  then show ?thesis by (simp add: publish_def publish_batch_def take_tickets_def)
qed

section \<open>Reading\<close>

text \<open>The three outcomes of \<open>try_read\<close>: up to date, overwritten, or the frame.\<close>

lemma try_read_empty:
  assumes "ring_holds r log" "unat (cur_next c) = length log"
  shows "try_read r c = (ReadEmpty, c, None, r)"
proof -
  let ?s = "seqn r (length log)"
  note P = published_toD [OF assms(1) [unfolded ring_holds_def]]
  have "?s \<le> 2 * length log" using P(7) by simp
  then have "?s = 0 \<or> (?s - 1) div 2 < length log" by auto
  then show ?thesis using assms(2)
    by (simp add: try_read_def Let_def s1_check_nat cell_at_seqn [OF P(1)])
qed

lemma try_read_lapped:
  assumes "ring_holds r log" "unat (cur_next c) + cap r < length log"
  shows "try_read r c = (ReadLapped, lap r c, None, r)"
proof -
  let ?n = "unat (cur_next c)"
  note P = published_toD [OF assms(1) [unfolded ring_holds_def]]
  have "2 * (?n + cap r) + 2 \<le> seqn r (?n + cap r)" using P(6) assms(2) .
  then have "2 * (?n + cap r) + 2 \<le> seqn r ?n" using seqn_same [of "?n + cap r" r ?n] by simp
  then have "seqn r ?n \<noteq> 0" "?n < (seqn r ?n - 1) div 2" using ring_geo_cap [OF P(1)] by auto
  then show ?thesis
    by (simp add: try_read_def Let_def s1_check_nat cell_at_seqn [OF P(1)])
qed

lemma try_read_ok:
  assumes "ring_holds r log" "unat (cur_next c) < length log" "length log \<le> unat (cur_next c) + cap r"
  shows "try_read r c =
    (ReadOk, c\<lparr>cur_next := cur_next c + 1\<rparr>, Some (frame_at log (unat (cur_next c))), r)"
proof -
  let ?n = "unat (cur_next c)"
  note P = published_toD [OF assms(1) [unfolded ring_holds_def]]
  have w: "seqn r ?n = 2 * ?n + 2" "wordsn r ?n = slot log ?n"
    using published_window [OF assms(1) [unfolded ring_holds_def] assms(2,3)] .
  have "frame_ok (log ! ?n)" using P(3) assms(2) by (simp add: list_all_length)
  then show ?thesis using w
    by (simp add: try_read_def Let_def s1_check_nat s2_check_def cell_at_seqn [OF P(1)]
        cell_at_wordsn [OF P(1)] slot_def frame_at_def)
qed

lemma ring_holds_cap: "ring_holds r log \<Longrightarrow> 2 \<le> cap r"
  using ring_geo_cap by (simp add: ring_holds_def published_to_def)

lemma oldest_held:
  assumes "ring_holds r log" "length log \<le> 2 ^ 62"
  shows "oldest r = of_nat (length log - cap r)" "unat (oldest r) = length log - cap r"
proof -
  note P = published_toD [OF assms(1) [unfolded ring_holds_def]]
  show "unat (oldest r) = length log - cap r" using assms(2) P(2)
    by (auto simp: oldest_def Let_def word_less_nat_alt unat_sub_le word_le_nat_alt unat_of_nat_small)
  then show "oldest r = of_nat (length log - cap r)" by (metis of_nat_unat ucast_id)
qed

lemma read_loop_window:
  assumes "ring_holds r log" "length log \<le> 2 ^ 62" "unat (cur_next c) = n" "n \<le> length log"
    and "length log \<le> n + cap r"
  shows "read_loop room acc c r = Some
    (acc @ map (frame_at log) [n..<min (length log) (n + room)],
     c\<lparr>cur_next := of_nat (min (length log) (n + room))\<rparr>, r)"
  using assms(3-5)
proof (induction room arbitrary: acc c n)
  case 0
  then show ?case by (subst read_loop.simps) (auto simp: min_def)
next
  case (Suc room)
  show ?case
  proof (cases "n = length log")
    case True
    have "of_nat n = cur_next c" using Suc.prems(1) by auto
    then show ?thesis using Suc.prems(1) True
      by (subst read_loop.simps) (auto simp: try_read_empty [OF assms(1)])
  next
    case False
    then have n: "n < length log" using Suc.prems by simp
    then have next_n: "unat (cur_next c + 1) = Suc n" using Suc.prems(1) assms(2) by (simp add: unat_Suc_small)
    have "[n..<min (length log) (n + Suc room)] = n # [Suc n..<min (length log) (Suc n + room)]"
      using n by (simp add: upt_rec)
    moreover have "read_loop room (acc @ [frame_at log n]) (c\<lparr>cur_next := cur_next c + 1\<rparr>) r =
        Some ((acc @ [frame_at log n]) @ map (frame_at log) [Suc n..<min (length log) (Suc n + room)],
          c\<lparr>cur_next := of_nat (min (length log) (Suc n + room))\<rparr>, r)"
      using Suc.IH [of "c\<lparr>cur_next := cur_next c + 1\<rparr>" "Suc n"] next_n Suc.prems n by simp
    ultimately show ?thesis using n Suc.prems
      by (subst read_loop.simps) (simp add: try_read_ok [OF assms(1)])
  qed
qed

text \<open>What the loop returns, for any cursor: the reader skips to the oldest frame still held, counts
  what it skipped, and gets the next frames in order.\<close>

lemma read_loop_returns:
  fixes c :: cursor
  assumes held: "ring_holds r log" and le: "length log \<le> 2 ^ 62" and n: "unat (cur_next c) \<le> length log"
    and room: "0 < room"
    and start: "start = max (unat (cur_next c)) (length log - cap r)"
    and stop: "stop = min (length log) (start + room)"
  shows "read_loop room acc c r = Some
    (acc @ map (frame_at log) [start..<stop],
     \<lparr>cur_next = of_nat stop, cur_missed = cur_missed c + of_nat (start - unat (cur_next c))\<rparr>, r)"
proof (cases "unat (cur_next c) + cap r < length log")
  case False
  then have "start = unat (cur_next c)" using start by simp
  then show ?thesis using read_loop_window [OF held le refl n] False stop by (cases c) simp
next
  case True
  note old = oldest_held [OF held le]
  have s: "start = length log - cap r" using True start by simp
  let ?c = "lap r c"
  have "cur_next c < oldest r" using True old(2) by (simp add: word_less_nat_alt)
  moreover have "oldest r - cur_next c = of_nat (start - unat (cur_next c))"
    using True s old(1) by (simp add: of_nat_diff)
  ultimately have l: "?c = \<lparr>cur_next = of_nat start, cur_missed = cur_missed c + of_nat (start - unat (cur_next c))\<rparr>"
    using old(1) s by (cases c) (simp add: lap_def Let_def)
  have "read_loop room acc c r = read_loop room acc ?c r"
    using room by (subst read_loop.simps) (simp add: try_read_lapped [OF held True])
  moreover have "unat (cur_next ?c) = start" using l s le by (simp add: unat_of_nat_small)
  ultimately show ?thesis
    using read_loop_window [OF held le, of ?c start room acc] s True stop l by simp
qed

lemma read_batch_returns:
  fixes c :: cursor
  assumes held: "ring_holds r log" and le: "length log \<le> 2 ^ 62" and n: "unat (cur_next c) \<le> length log"
    and room: "0 < room"
    and start: "start = max (unat (cur_next c)) (length log - cap r)"
    and stop: "stop = min (length log) (start + room)"
  shows "read_batch room c r = Some
    (\<lparr>rr_count = stop - start, rr_missed = of_nat (start - unat (cur_next c))\<rparr>,
     map (frame_at log) [start..<stop],
     \<lparr>cur_next = of_nat stop, cur_missed = cur_missed c + of_nat (start - unat (cur_next c))\<rparr>, r)"
  using read_loop_returns [OF assms, of "[]"] by (simp add: read_batch_def)

text \<open>One attempt, summarised.\<close>

lemma try_read_held:
  assumes held: "ring_holds r log" and le: "length log \<le> 2 ^ 62" and n: "unat (cur_next c) \<le> length log"
  obtains
    (ok) "unat (cur_next c) < length log" "try_read r c =
      (ReadOk, c\<lparr>cur_next := cur_next c + 1\<rparr>, Some (frame_at log (unat (cur_next c))), r)"
      "unat (cur_next c + 1) = Suc (unat (cur_next c))"
  | (lapped) c' where "try_read r c = (ReadLapped, c', None, r)"
      "unat (cur_next c) < unat (cur_next c')" "unat (cur_next c') < length log"
  | (empty) "try_read r c = (ReadEmpty, c, None, r)"
proof -
  let ?n = "unat (cur_next c)"
  consider "?n = length log" | "?n + cap r < length log" | "?n < length log" "length log \<le> ?n + cap r"
    using n by linarith
  then show thesis
  proof cases
    case 1
    then show thesis using empty try_read_empty [OF held] by blast
  next
    case 2
    have old: "unat (oldest r) = length log - cap r" using oldest_held(2) [OF held le] .
    then have "cur_next c < oldest r" using 2 by (simp add: word_less_nat_alt)
    then have "cur_next (lap r c) = oldest r" by (simp add: lap_def Let_def)
    then show thesis using lapped [OF try_read_lapped [OF held 2]] old 2 ring_holds_cap [OF held] by simp
  next
    case 3
    then show thesis using ok [OF _ try_read_ok [OF held 3]] le by (simp add: unat_Suc_small)
  qed
qed

lemma ring_holds_cong:
  "r_capacity r' = r_capacity r \<Longrightarrow> r_mask r' = r_mask r \<Longrightarrow> r_write_pos r' = r_write_pos r \<Longrightarrow>
    r_cells r' = r_cells r \<Longrightarrow> ring_holds r' log = ring_holds r log"
  by (simp add: ring_holds_def published_to_def ring_geo_def cells_ok_def seqn_def)

section \<open>Publish, then read\<close>

fun publish_batches :: "frame list list \<Rightarrow> ring \<Rightarrow> ring option" where
  "publish_batches [] r = Some r"
| "publish_batches (fs # bs) r = Option.bind (publish_batch fs r) (\<lambda>(_, r'). publish_batches bs r')"

lemma publish_batches_hold:
  assumes "ring_holds r log" "list_all (list_all frame_ok) bs" "length log + length (concat bs) \<le> 2 ^ 62"
  shows "\<exists>r'. publish_batches bs r = Some r' \<and> ring_holds r' (log @ concat bs)"
  using assms
proof (induction bs arbitrary: r log)
  case (Cons fs bs)
  then obtain r' where r': "publish_batch fs r = Some (of_nat (length log), r')" "ring_holds r' (log @ fs)"
    using publish_batch_appends [of r log fs] by auto
  then show ?case using Cons.IH [OF r'(2)] Cons.prems by simp
qed simp

text \<open>Sequential contract of the ring, for a ring of any capacity and any batches: publishing
  returns, and any reader that is not ahead of the log then gets, in one \<open>read_batch\<close> with room for
  \<open>room\<close> frames, the consecutive frames starting at its position or at the oldest frame the ring still
  holds, numbered by their tickets, with exactly the skipped ones counted as missed.\<close>

theorem publish_then_read:
  fixes c :: cursor
  assumes "ring_new capacity = Some r" "list_all (list_all frame_ok) bs" "length (concat bs) \<le> 2 ^ 62"
    and "unat (cur_next c) \<le> length (concat bs)" "0 < room"
  shows "\<exists>r'. publish_batches bs r = Some r' \<and>
    (let log = concat bs; start = max (unat (cur_next c)) (length log - cap r');
         stop = min (length log) (start + room)
     in read_batch room c r' = Some
          (\<lparr>rr_count = stop - start, rr_missed = of_nat (start - unat (cur_next c))\<rparr>,
           map (\<lambda>p. (log ! p)\<lparr>seq := of_nat p\<rparr>) [start..<stop],
           \<lparr>cur_next = of_nat stop, cur_missed = cur_missed c + of_nat (start - unat (cur_next c))\<rparr>, r'))"
proof -
  obtain r' where r': "publish_batches bs r = Some r'" "ring_holds r' (concat bs)"
    using publish_batches_hold [OF ring_holds_new [OF assms(1)] assms(2)] assms(3) by auto
  have "frame_at (concat bs) = (\<lambda>p. (concat bs ! p)\<lparr>seq := of_nat p\<rparr>)"
    by (simp add: frame_at_def fun_eq_iff)
  then show ?thesis
    using r' read_batch_returns [OF r'(2) assms(3-5) refl refl] by (simp only: Let_def) blast
qed

theorem publish_then_read_witness:
  "\<exists>r. ring_new 2 = Some r \<and>
    (\<exists>r'. publish_batches [[zero_frame, zero_frame], [zero_frame]] r = Some r' \<and>
      (let log = [zero_frame, zero_frame, zero_frame]; start = max 0 (3 - cap r'); stop = min 3 (start + 8)
       in read_batch 8 \<lparr>cur_next = 0, cur_missed = 0\<rparr> r' = Some
          (\<lparr>rr_count = stop - start, rr_missed = of_nat start\<rparr>,
           map (\<lambda>p. (log ! p)\<lparr>seq := of_nat p\<rparr>) [start..<stop],
           \<lparr>cur_next = of_nat stop, cur_missed = of_nat start\<rparr>, r')))"
proof -
  let ?bs = "[[zero_frame, zero_frame], [zero_frame]]"
  have c: "concat ?bs = [zero_frame, zero_frame, zero_frame]"
    and l: "length [zero_frame, zero_frame, zero_frame] = 3" by simp_all
  have "frame_ok zero_frame" by code_simp
  then have ok: "list_all (list_all frame_ok) ?bs" by simp
  obtain r where r: "ring_new 2 = Some r" using ring_new_2 by blast
  show ?thesis
    using publish_then_read [OF r ok, of "\<lparr>cur_next = 0, cur_missed = 0\<rparr>" 8, unfolded c, unfolded Let_def l] r
    by (simp add: Let_def del: publish_batches.simps)
qed

end
