(* ===== verification/Gap_Tracker.thy ===== *)
theory Gap_Tracker
  imports Wire
begin

text \<open>
  Consumer-side loss accounting (\<^verbatim>\<open>src/gap_tracker.hpp\<close>): \<open>observe\<close> classifies every record of the stream
  as a frame, a marker or a probe, and counts what the markers report and what the sequence
  numbers jump over without one. The specification \<open>stream_account\<close> walks the same records over the
  sequence numbers as natural numbers; the counters are exactly its totals.
\<close>

section \<open>State and operations\<close>

record gap_stats =
  gs_frames :: u64
  gs_markers :: u64
  gs_reported_lost :: u64
  gs_silent_jumps :: u64
  gs_silent_lost :: u64
  gs_overrun_markers :: u64
  gs_ingest_markers :: u64
  gs_absent_markers :: u64
  gs_absent_frames :: u64
  gs_echoes :: u64

record gap_tracker =
  gt_s :: gap_stats
  gt_next :: u64
  gt_have :: bool

definition gap_stats0 :: gap_stats where
  "gap_stats0 = \<lparr>gs_frames = 0, gs_markers = 0, gs_reported_lost = 0, gs_silent_jumps = 0,
     gs_silent_lost = 0, gs_overrun_markers = 0, gs_ingest_markers = 0, gs_absent_markers = 0,
     gs_absent_frames = 0, gs_echoes = 0\<rparr>"

definition gap_tracker0 :: gap_tracker where
  "gap_tracker0 = \<lparr>gt_s = gap_stats0, gt_next = 0, gt_have = False\<rparr>"

text \<open>The marker branch of \<open>observe\<close>.\<close>

definition observe_gap :: "frame \<Rightarrow> gap_stats \<Rightarrow> gap_stats" where
  "observe_gap f s =
     (let n = gap_count f; reason = gap_reason f; s1 = s\<lparr>gs_markers := gs_markers s + 1\<rparr> in
      if reason = kConsumerAbsent then
        s1\<lparr>gs_absent_markers := gs_absent_markers s1 + 1, gs_absent_frames := gs_absent_frames s1 + n\<rparr>
      else if reason = kIngestLoss then
        s1\<lparr>gs_ingest_markers := gs_ingest_markers s1 + 1, gs_reported_lost := gs_reported_lost s1 + n\<rparr>
      else
        s1\<lparr>gs_overrun_markers := gs_overrun_markers s1 + 1, gs_reported_lost := gs_reported_lost s1 + n\<rparr>)"

definition observe :: "frame \<Rightarrow> gap_tracker \<Rightarrow> bool \<times> gap_tracker" where
  "observe f g =
     (if is_echo f then (False, g\<lparr>gt_s := (gt_s g)\<lparr>gs_echoes := gs_echoes (gt_s g) + 1\<rparr>\<rparr>)
      else if is_gap f then
        (False, g\<lparr>gt_s := observe_gap f (gt_s g), gt_next := seq f + gap_count f, gt_have := True\<rparr>)
      else
        let s = gt_s g;
            s1 = (if gt_have g \<and> seq f > gt_next g
                  then s\<lparr>gs_silent_jumps := gs_silent_jumps s + 1,
                         gs_silent_lost := gs_silent_lost s + (seq f - gt_next g)\<rparr>
                  else s)
        in (True, g\<lparr>gt_s := s1\<lparr>gs_frames := gs_frames s1 + 1\<rparr>, gt_next := seq f + 1, gt_have := True\<rparr>))"

definition tracker_reset :: "gap_tracker \<Rightarrow> gap_tracker" where
  "tracker_reset g = g\<lparr>gt_have := False\<rparr>"

definition total_lost :: "gap_tracker \<Rightarrow> u64" where
  "total_lost g = gs_reported_lost (gt_s g) + gs_silent_lost (gt_s g)"

text \<open>A stream of records, in order.\<close>

definition observe_all :: "frame list \<Rightarrow> gap_tracker \<Rightarrow> gap_tracker" where
  "observe_all fs g = fold (\<lambda>f g. snd (observe f g)) fs g"

section \<open>Specification\<close>

text \<open>What a stream says about the sequence numbers it covers, as natural numbers.\<close>

record account =
  ac_frames :: nat
  ac_reported :: nat
  ac_absent :: nat
  ac_silent :: nat
  ac_jumps :: nat

definition account0 :: account where
  "account0 = \<lparr>ac_frames = 0, ac_reported = 0, ac_absent = 0, ac_silent = 0, ac_jumps = 0\<rparr>"

text \<open>How many sequence numbers a record accounts for.\<close>

definition covers :: "frame \<Rightarrow> nat" where
  "covers f = (if is_echo f then 0 else if is_gap f then unat (gap_count f) else 1)"

definition tally :: "nat \<Rightarrow> frame \<Rightarrow> account \<Rightarrow> account" where
  "tally pos f a =
     (if is_echo f then a
      else if is_gap f then
        (if gap_reason f = kConsumerAbsent then a\<lparr>ac_absent := ac_absent a + covers f\<rparr>
         else a\<lparr>ac_reported := ac_reported a + covers f\<rparr>)
      else a\<lparr>ac_frames := ac_frames a + 1, ac_silent := ac_silent a + (unat (seq f) - pos),
             ac_jumps := ac_jumps a + (if unat (seq f) > pos then 1 else 0)\<rparr>)"

text \<open>A stream that never goes back: a frame starts at or after the expected position, a marker exactly
  at it. \<open>well_ordered pos fs\<close> gives the position after the stream.\<close>

fun stream_end :: "nat \<Rightarrow> frame list \<Rightarrow> nat" where
  "stream_end pos [] = pos"
| "stream_end pos (f # fs) =
     (if is_echo f then stream_end pos fs else stream_end (unat (seq f) + covers f) fs)"

fun well_ordered :: "nat \<Rightarrow> frame list \<Rightarrow> bool" where
  "well_ordered pos [] \<longleftrightarrow> True"
| "well_ordered pos (f # fs) \<longleftrightarrow>
     (if is_echo f then well_ordered pos fs
      else (if is_gap f then unat (seq f) = pos else pos \<le> unat (seq f)) \<and>
           unat (seq f) + covers f < 2 ^ 64 \<and> well_ordered (unat (seq f) + covers f) fs)"

fun stream_account :: "nat \<Rightarrow> frame list \<Rightarrow> account \<Rightarrow> account" where
  "stream_account pos [] a = a"
| "stream_account pos (f # fs) a =
     stream_account (if is_echo f then pos else unat (seq f) + covers f) fs (tally pos f a)"

section \<open>The counters are the specification's totals\<close>

definition tracks :: "gap_tracker \<Rightarrow> nat \<Rightarrow> account \<Rightarrow> bool" where
  "tracks g pos a \<longleftrightarrow> gt_have g \<and> unat (gt_next g) = pos \<and>
     gs_frames (gt_s g) = of_nat (ac_frames a) \<and> gs_reported_lost (gt_s g) = of_nat (ac_reported a) \<and>
     gs_absent_frames (gt_s g) = of_nat (ac_absent a) \<and> gs_silent_lost (gt_s g) = of_nat (ac_silent a) \<and>
     gs_silent_jumps (gt_s g) = of_nat (ac_jumps a)"

lemma observe_tracks:
  assumes "tracks g pos a" "well_ordered pos (f # fs)"
  shows "tracks (snd (observe f g)) (if is_echo f then pos else unat (seq f) + covers f) (tally pos f a)"
proof -
  consider "is_echo f" | "\<not> is_echo f" "is_gap f" | "\<not> is_echo f" "\<not> is_gap f" by blast
  then show ?thesis
  proof cases
    case 1
    then show ?thesis using assms(1) by (simp add: tracks_def observe_def tally_def)
  next
    case 2
    then have "unat (seq f + gap_count f) = unat (seq f) + covers f"
      using assms(2) by (simp add: covers_def unat_add_small)
    with 2 assms(1) show ?thesis
      by (simp add: tracks_def observe_def tally_def observe_gap_def covers_def Let_def)
  next
    case 3
    have pos: "pos = unat (gt_next g)" using assms(1) by (simp add: tracks_def)
    have le: "pos \<le> unat (seq f)" and up: "unat (seq f + 1) = unat (seq f) + 1"
      using 3 assms(2) unat_add_small [of "seq f" 1] by (simp_all add: covers_def)
    have "of_nat (unat (seq f) - pos) = seq f - gt_next g" using le by (simp add: pos of_nat_diff)
    then show ?thesis
      using 3 assms(1) le up
      by (cases "pos < unat (seq f)")
        (simp_all add: tracks_def observe_def tally_def covers_def Let_def word_less_nat_alt)
  qed
qed

lemma observe_all_tracks:
  assumes "tracks g pos a" "well_ordered pos fs"
  shows "tracks (observe_all fs g) (stream_end pos fs) (stream_account pos fs a)"
  using assms
proof (induction fs arbitrary: g pos a)
  case Nil
  then show ?case by (simp add: observe_all_def)
next
  case (Cons f fs)
  have "well_ordered (if is_echo f then pos else unat (seq f) + covers f) fs"
    using Cons.prems(2) by (auto split: if_splits)
  from Cons.IH [OF observe_tracks [OF Cons.prems] this] show ?case
    by (simp add: observe_all_def split: if_splits)
qed

lemma stream_account_total:
  assumes "well_ordered pos fs"
  shows "pos \<le> stream_end pos fs"
    "ac_frames (stream_account pos fs a) + ac_reported (stream_account pos fs a) +
     ac_absent (stream_account pos fs a) + ac_silent (stream_account pos fs a) + pos =
     ac_frames a + ac_reported a + ac_absent a + ac_silent a + stream_end pos fs"
  using assms
proof (induction fs arbitrary: pos a)
  case (Cons f fs)
  case 1
  then show ?case using Cons.IH(1) [of "unat (seq f) + covers f"] Cons.IH(1) [of pos]
    by (auto split: if_splits)
  case 2
  then show ?case using Cons.IH(2) [of "if is_echo f then pos else unat (seq f) + covers f" "tally pos f a"]
    by (auto simp: tally_def covers_def split: if_splits)
qed simp_all

lemma tracks_start:
  assumes "\<not> is_echo f" "unat (seq f) + covers f < 2 ^ 64"
  shows "tracks (snd (observe f gap_tracker0)) (unat (seq f) + covers f) (tally (unat (seq f)) f account0)"
proof -
  have "unat (seq f + gap_count f) = unat (seq f) + unat (gap_count f)" if "is_gap f"
    using assms that by (simp add: covers_def unat_add_small)
  moreover have "unat (seq f + 1) = unat (seq f) + 1" if "\<not> is_gap f"
    using assms that unat_add_small [of "seq f" 1] by (simp add: covers_def)
  ultimately show ?thesis using assms(1)
    by (simp add: tracks_def observe_def gap_tracker0_def gap_stats0_def account0_def Let_def tally_def
        observe_gap_def covers_def)
qed

text \<open>The counters of a stream that starts with a frame or a marker, as natural numbers.\<close>

lemma tracker_counts:
  assumes "\<not> is_echo f" "well_ordered (unat (seq f)) (f # fs)"
  defines "b \<equiv> stream_account (unat (seq f)) (f # fs) account0"
    and "g \<equiv> observe_all (f # fs) gap_tracker0"
  shows "unat (gs_frames (gt_s g)) = ac_frames b" "unat (gs_reported_lost (gt_s g)) = ac_reported b"
    "unat (gs_absent_frames (gt_s g)) = ac_absent b" "unat (gs_silent_lost (gt_s g)) = ac_silent b"
    "unat (seq f) + ac_frames b + ac_reported b + ac_absent b + ac_silent b = stream_end (unat (seq f)) (f # fs)"
    "unat (gt_next g) = stream_end (unat (seq f)) (f # fs)"
proof -
  let ?p = "unat (seq f) + covers f" and ?a = "tally (unat (seq f)) f account0"
  have w: "well_ordered ?p fs" "?p < 2 ^ 64" using assms(1,2) by simp_all
  have t: "tracks g (stream_end ?p fs) b"
    using observe_all_tracks [OF tracks_start [OF assms(1) w(2)] w(1)] assms(1)
    by (simp add: g_def b_def observe_all_def)
  show tot: "unat (seq f) + ac_frames b + ac_reported b + ac_absent b + ac_silent b = stream_end (unat (seq f)) (f # fs)"
    using stream_account_total(2) [OF assms(2), of account0] by (simp add: account0_def b_def)
  show e: "unat (gt_next g) = stream_end (unat (seq f)) (f # fs)" using t assms(1) by (simp add: tracks_def)
  then have "stream_end (unat (seq f)) (f # fs) < 2 ^ 64" using unat_u64_less [of "gt_next g"] by simp
  then show "unat (gs_frames (gt_s g)) = ac_frames b" "unat (gs_reported_lost (gt_s g)) = ac_reported b"
      "unat (gs_absent_frames (gt_s g)) = ac_absent b" "unat (gs_silent_lost (gt_s g)) = ac_silent b"
    using t tot by (auto simp: tracks_def intro!: unat_of_nat_small)
qed

text \<open>(C15) The tracker's books balance. For a stream that starts with a frame or a marker and never goes
  back, every sequence number from that record up to the end of the stream is counted exactly once:
  as a frame, as reported lost, as missed while absent, or as silently lost (\<open>2^64\<close> is never
  reached, so nothing wraps).\<close>

theorem tracker_accounts_for_every_sequence:
  assumes "\<not> is_echo f" "well_ordered (unat (seq f)) (f # fs)"
  shows "let s = gt_s (observe_all (f # fs) gap_tracker0) in
    unat (seq f) + unat (gs_frames s) + unat (gs_reported_lost s) + unat (gs_absent_frames s) +
      unat (gs_silent_lost s) = stream_end (unat (seq f)) (f # fs)"
  using tracker_counts [OF assms] by (simp add: Let_def)

theorem tracker_accounts_for_every_sequence_witness:
  "let s = gt_s (observe_all [zero_frame, make_gap 1 4 kConsumerAbsent 9, zero_frame\<lparr>seq := 7\<rparr>] gap_tracker0)
   in unat (gs_frames s) + unat (gs_reported_lost s) + unat (gs_absent_frames s) + unat (gs_silent_lost s) = 8"
proof -
  have z: "\<not> is_echo (zero_frame\<lparr>seq := n\<rparr>)" "\<not> is_gap (zero_frame\<lparr>seq := n\<rparr>)" for n
    by (simp_all add: is_echo_def is_gap_def zero_frame_def)
  have z0: "\<not> is_echo zero_frame" "\<not> is_gap zero_frame" "seq zero_frame = 0"
    by (simp_all add: is_echo_def is_gap_def zero_frame_def)
  show ?thesis
    using tracker_accounts_for_every_sequence [OF z0(1), of "[make_gap 1 4 kConsumerAbsent 9, zero_frame\<lparr>seq := 7\<rparr>]"]
    by (simp add: z z0 covers_def Let_def)
qed

section \<open>Silence\<close>

text \<open>A stream in which every frame and every marker starts exactly where the previous record ended.\<close>

fun contiguous :: "nat \<Rightarrow> frame list \<Rightarrow> bool" where
  "contiguous pos [] \<longleftrightarrow> True"
| "contiguous pos (f # fs) \<longleftrightarrow>
     (if is_echo f then contiguous pos fs
      else unat (seq f) = pos \<and> contiguous (unat (seq f) + covers f) fs)"

lemma contiguous_append:
  "contiguous pos (fs @ gs) \<longleftrightarrow> contiguous pos fs \<and> contiguous (stream_end pos fs) gs"
  by (induction fs arbitrary: pos) auto

lemma well_ordered_append:
  "well_ordered pos (fs @ gs) \<longleftrightarrow> well_ordered pos fs \<and> well_ordered (stream_end pos fs) gs"
  by (induction fs arbitrary: pos) auto

lemma stream_end_append: "stream_end pos (fs @ gs) = stream_end (stream_end pos fs) gs"
  by (induction fs arbitrary: pos) auto

lemma stream_account_silent:
  assumes "well_ordered pos fs"
  shows "ac_silent a \<le> ac_silent (stream_account pos fs a) \<and>
    (ac_silent (stream_account pos fs a) = ac_silent a \<longleftrightarrow> contiguous pos fs)"
  using assms
proof (induction fs arbitrary: pos a)
  case (Cons f fs)
  let ?p = "if is_echo f then pos else unat (seq f) + covers f" and ?a = "tally pos f a"
  have t: "ac_silent a \<le> ac_silent ?a" by (simp add: tally_def)
  have here: "ac_silent ?a = ac_silent a \<longleftrightarrow> is_echo f \<or> unat (seq f) = pos"
    using Cons.prems by (auto simp: tally_def split: if_splits)
  have w: "well_ordered ?p fs" using Cons.prems by (auto split: if_splits)
  have "ac_silent (stream_account ?p fs ?a) = ac_silent a \<longleftrightarrow>
      ac_silent ?a = ac_silent a \<and> ac_silent (stream_account ?p fs ?a) = ac_silent ?a"
    using Cons.IH [OF w, of ?a] t by auto
  then show ?case using here t Cons.IH [OF w, of ?a] by (auto split: if_splits)
qed simp

text \<open>The tracker is silent about a stream exactly when the stream is contiguous: for a stream that
  never goes back, \<open>silent_lost\<close> stays 0 if and only if every frame and every marker starts where
  the record before it ended. Loss without a marker cannot hide.\<close>

theorem silent_lost_iff_hole:
  assumes "\<not> is_echo f" "well_ordered (unat (seq f)) (f # fs)"
  shows "gs_silent_lost (gt_s (observe_all (f # fs) gap_tracker0)) = 0 \<longleftrightarrow>
    contiguous (unat (seq f)) (f # fs)"
proof -
  let ?b = "stream_account (unat (seq f)) (f # fs) account0"
  have "gs_silent_lost (gt_s (observe_all (f # fs) gap_tracker0)) = 0 \<longleftrightarrow> ac_silent ?b = 0"
    using tracker_counts(4) [OF assms] by (metis unat_eq_0)
  also have "\<dots> \<longleftrightarrow> contiguous (unat (seq f)) (f # fs)"
    using stream_account_silent [OF assms(2), of account0] by (simp add: account0_def)
  finally show ?thesis .
qed

theorem silent_lost_iff_hole_witness:
  "gs_silent_lost (gt_s (observe_all [zero_frame, make_gap 1 4 kConsumerOverrun 9, zero_frame\<lparr>seq := 5\<rparr>]
     gap_tracker0)) = 0 \<and>
   gs_silent_lost (gt_s (observe_all [zero_frame, zero_frame\<lparr>seq := 5\<rparr>] gap_tracker0)) \<noteq> 0"
proof -
  have z: "\<not> is_echo (zero_frame\<lparr>seq := n\<rparr>)" "\<not> is_gap (zero_frame\<lparr>seq := n\<rparr>)" for n
    by (simp_all add: is_echo_def is_gap_def zero_frame_def)
  have z0: "\<not> is_echo zero_frame" "\<not> is_gap zero_frame" "seq zero_frame = 0"
    by (simp_all add: is_echo_def is_gap_def zero_frame_def)
  show ?thesis
    using silent_lost_iff_hole [OF z0(1), of "[make_gap 1 4 kConsumerOverrun 9, zero_frame\<lparr>seq := 5\<rparr>]"]
      silent_lost_iff_hole [OF z0(1), of "[zero_frame\<lparr>seq := 5\<rparr>]"]
    by (simp add: z z0 covers_def)
qed

end
