(* ===== verification/Feed.thy ===== *)
theory Feed
  imports Bounded_Queue Ring_Sequential Gap_Tracker
begin

text \<open>
  What an egress thread is fed by (\<^verbatim>\<open>src/feed.hpp\<close>): the interface \<open>ConsumerFeed\<close> as a locale, and its two
  implementations, a queue of its own (topology A) and a cursor into the shared ring (topology B).
  Producers run in other threads; what they publish between two critical sections, or between two
  attempts to read a cell, is an explicit script of batches, and everything holds for every script.
\<close>

section \<open>The interface\<close>

text \<open>A frame from a bus: it fits the wire format and is not a control record.\<close>

definition bus_frame :: "frame \<Rightarrow> bool" where
  "bus_frame f \<longleftrightarrow> wire_ok f \<and> \<not> is_control f"

text \<open>A frame with a sequence number the gateway can still have assigned.\<close>

definition numbered :: "frame \<Rightarrow> bool" where
  "numbered f \<longleftrightarrow> bus_frame f \<and> unat (seq f) < 2 ^ 62"

text \<open>Frames in strictly ascending sequence order, none below \<open>lo\<close>.\<close>

definition ascends :: "nat \<Rightarrow> frame list \<Rightarrow> bool" where
  "ascends lo fs \<longleftrightarrow> sorted_wrt (<) (map seq fs) \<and> (\<forall>f \<in> set fs. lo \<le> unat (seq f))"

text \<open>The first sequence number a consumer can still be given after \<open>fs\<close>.\<close>

definition resume_at :: "nat \<Rightarrow> frame list \<Rightarrow> nat" where
  "resume_at lo fs = (if fs = [] then lo else Suc (unat (seq (last fs))))"

text \<open>\<open>feed_from lo s\<close> says that everything the feed will hand out is at or above \<open>lo\<close>. The promise of
  \<open>pop_batch\<close>: it returns; at most \<open>n\<close> bus frames, ascending from \<open>lo\<close>; and the rest comes after them.\<close>

locale consumer_feed =
  fixes pop :: "nat \<Rightarrow> 's \<Rightarrow> (frame list \<times> 's) option"
    and feed_from :: "nat \<Rightarrow> 's \<Rightarrow> bool"
  assumes pop_promise: "feed_from lo s \<Longrightarrow> \<exists>fs s'. pop n s = Some (fs, s') \<and>
      length fs \<le> n \<and> list_all numbered fs \<and> ascends lo fs \<and> feed_from (resume_at lo fs) s'"

record feed_stats =
  fs_delivered :: u64
  fs_dropped :: u64
  fs_backlog :: nat
  fs_capacity :: nat

section \<open>Ascending runs\<close>

lemma ascends_Nil [simp]: "ascends lo []"
  by (simp add: ascends_def)

lemma ascends_Cons:
  "ascends lo (f # fs) \<longleftrightarrow> lo \<le> unat (seq f) \<and> ascends (Suc (unat (seq f))) fs"
  by (auto simp: ascends_def word_less_nat_alt Suc_le_eq order.strict_implies_order
      dest: order.strict_trans1)

lemma ascends_append:
  "ascends lo (fs @ gs) \<longleftrightarrow> ascends lo fs \<and> ascends (resume_at lo fs) gs"
proof (induction fs arbitrary: lo)
  case Nil
  then show ?case by (simp add: resume_at_def)
next
  case (Cons f fs)
  then show ?case by (cases "fs = []") (auto simp: ascends_Cons resume_at_def)
qed

lemma resume_at_append: "resume_at lo (fs @ gs) = resume_at (resume_at lo fs) gs"
  by (simp add: resume_at_def)

lemma ascends_mono: "ascends lo fs \<Longrightarrow> lo' \<le> lo \<Longrightarrow> ascends lo' fs"
  by (auto simp: ascends_def)

lemma ascends_drop: "ascends lo fs \<Longrightarrow> ascends lo (drop n fs)"
  by (auto simp: ascends_def drop_map [symmetric] sorted_wrt_drop dest: in_set_dropD)

lemma resume_at_ge: "ascends lo fs \<Longrightarrow> lo \<le> resume_at lo fs"
  by (auto simp: ascends_def resume_at_def le_Suc_eq)

section \<open>Topology A\<close>

text \<open>\<open>QueueFeed\<close>: before each critical section the fan-out thread pushes the next batch of the script.\<close>

type_synonym queue_feed = "frame list list \<times> frame bqueue"

definition queue_feed_pop :: "nat \<Rightarrow> queue_feed \<Rightarrow> (frame list \<times> queue_feed) option" where
  "queue_feed_pop n s =
     (let (arr, q) = s;
          (arr', q') = (case arr of [] \<Rightarrow> ([], q) | a # as \<Rightarrow> (as, snd (push_batch a q)));
          (fs, q'') = pop_batch n q'
      in Some (fs, (arr', q'')))"

definition queue_feed_close :: "queue_feed \<Rightarrow> queue_feed" where
  "queue_feed_close s = (fst s, q_close (snd s))"

definition queue_feed_stats :: "queue_feed \<Rightarrow> feed_stats" where
  "queue_feed_stats s =
     (let q = q_stats (snd s)
      in \<lparr>fs_delivered = qs_popped q, fs_dropped = qs_dropped q, fs_backlog = qs_size q,
          fs_capacity = qs_capacity q\<rparr>)"

definition queue_from :: "nat \<Rightarrow> queue_feed \<Rightarrow> bool" where
  "queue_from lo s \<longleftrightarrow> bq_inv (snd s) \<and> ascends lo (bq_view (snd s) @ concat (fst s)) \<and>
     list_all numbered (bq_view (snd s) @ concat (fst s))"

lemma push_batch_from:
  assumes "queue_from lo (a # as, q)"
  shows "queue_from lo (as, snd (push_batch a q))"
proof -
  have q: "bq_inv q" "ascends lo ((bq_view q @ a) @ concat as)"
      "list_all numbered ((bq_view q @ a) @ concat as)"
    using assms by (simp_all add: queue_from_def)
  let ?k = "length (bq_view q) + length a - q_capacity q"
  show ?thesis
  proof (cases "q_closed q")
    case True
    then have "ascends lo (bq_view q @ concat as)"
      using q(2) ascends_mono [OF _ resume_at_ge] by (auto simp: ascends_append resume_at_append)
    then show ?thesis using True q by (auto simp: queue_from_def push_batch_facts(9))
  next
    case False
    then have v: "bq_view (snd (push_batch a q)) = drop ?k (bq_view q @ a)"
      using push_batch_facts(5) [OF q(1)] by (simp add: bq_open_def)
    have "drop ?k ((bq_view q @ a) @ concat as) = drop ?k (bq_view q @ a) @ concat as"
      by (cases "?k \<le> length (bq_view q @ a)") auto
    then have "ascends lo (drop ?k (bq_view q @ a) @ concat as)" using ascends_drop [OF q(2)] by metis
    then show ?thesis using q push_batch_facts(1) [OF q(1)]
      by (auto simp: queue_from_def v list_all_iff dest: in_set_dropD)
  qed
qed

text \<open>A queue that will hand out everything up to the sequence number before \<open>hi\<close>: dropping the oldest frame never
  drops the last one.\<close>

definition queue_span :: "nat \<Rightarrow> nat \<Rightarrow> queue_feed \<Rightarrow> bool" where
  "queue_span hi lo s \<longleftrightarrow> queue_from lo s \<and> (fst s = [] \<or> bq_open (snd s)) \<and>
     (let rest = bq_view (snd s) @ concat (fst s) in if rest = [] then lo = hi else Suc (unat (seq (last rest))) = hi)"

lemma push_batch_span:
  assumes "queue_span hi lo (a # as, q)"
  shows "queue_span hi lo (as, snd (push_batch a q))"
proof -
  have q: "bq_inv q" "bq_open q" using assms by (simp_all add: queue_span_def queue_from_def)
  let ?k = "length (bq_view q) + length a - q_capacity q"
  have v: "bq_view (snd (push_batch a q)) = drop ?k (bq_view q @ a)" "bq_open (snd (push_batch a q))"
    using push_batch_facts(3,5) [OF q(1)] q(2) by (simp_all add: bq_open_def)
  have "?k < length (bq_view q @ a) \<or> bq_view q @ a = []" using q(1) by (cases a) (auto simp: bq_inv_def bq_view_def)
  then have "bq_view (snd (push_batch a q)) = [] \<longleftrightarrow> bq_view q @ a = []" "bq_view q @ a \<noteq> [] \<longrightarrow>
      last (bq_view (snd (push_batch a q))) = last (bq_view q @ a)"
    unfolding v(1) by (auto simp: last_drop simp del: drop_append length_append last_append)
  then show ?thesis using assms push_batch_from [of lo a as q] v(2)
    by (auto simp: queue_span_def Let_def last_append split: if_splits)
qed

text \<open>The next arrival, then a pop.\<close>

lemma queue_feed_pop_steps:
  assumes "queue_from lo s"
  obtains arr q where "(arr, q) = (case fst s of [] \<Rightarrow> ([], snd s) | a # as \<Rightarrow> (as, snd (push_batch a (snd s))))"
    "queue_from lo (arr, q)" "queue_feed_pop n s = Some (take n (bq_view q), (arr, snd (pop_batch n q)))"
    "queue_from (resume_at lo (take n (bq_view q))) (arr, snd (pop_batch n q))"
proof -
  obtain arr q where c: "(arr, q) = (case fst s of [] \<Rightarrow> ([], snd s) | a # as \<Rightarrow> (as, snd (push_batch a (snd s))))"
    by (metis surj_pair)
  have f: "queue_from lo (arr, q)"
    using assms c push_batch_from [of lo _ _ "snd s"] by (cases s; cases "fst s") auto
  then have q: "bq_inv q" by (simp add: queue_from_def)
  let ?v = "bq_view q"
  have p: "queue_feed_pop n s = Some (take n ?v, (arr, snd (pop_batch n q)))"
    using bq.pop_front [OF q, of n] by (cases "pop_batch n q") (simp add: queue_feed_pop_def split_beta flip: c)
  have "ascends lo (take n ?v @ drop n ?v @ concat arr)" using f by (simp add: queue_from_def flip: append_assoc)
  then have "ascends (resume_at lo (take n ?v)) (drop n ?v @ concat arr)" by (simp only: ascends_append [of lo "take n ?v"])
  then have "queue_from (resume_at lo (take n ?v)) (arr, snd (pop_batch n q))"
    using f bq.inv_pop [OF q, of n] bq.view_pop [OF q, of n]
    by (auto simp: queue_from_def list_all_iff dest: in_set_dropD)
  then show thesis by (rule that [OF c f p])
qed

interpretation qf: consumer_feed queue_feed_pop queue_from
proof unfold_locales
  fix lo n and s :: queue_feed
  assume "queue_from lo s"
  then obtain arr q where p: "queue_from lo (arr, q)" "queue_feed_pop n s = Some (take n (bq_view q), (arr, snd (pop_batch n q)))"
      "queue_from (resume_at lo (take n (bq_view q))) (arr, snd (pop_batch n q))"
    by (rule queue_feed_pop_steps [of lo s n])
  have "ascends lo (take n (bq_view q) @ drop n (bq_view q) @ concat arr)"
    using p(1) by (simp add: queue_from_def flip: append_assoc)
  then have "ascends lo (take n (bq_view q))" by (simp only: ascends_append)
  then show "\<exists>fs s'. queue_feed_pop n s = Some (fs, s') \<and> length fs \<le> n \<and> list_all numbered fs \<and>
      ascends lo fs \<and> queue_from (resume_at lo fs) s'"
    using p by (auto simp: queue_from_def list_all_iff dest: in_set_takeD)
qed

interpretation qs: consumer_feed queue_feed_pop "queue_span hi"
proof unfold_locales
  fix lo n and s :: queue_feed
  assume span: "queue_span hi lo s"
  then have "queue_from lo s" by (simp add: queue_span_def)
  then obtain arr q where p: "(arr, q) = (case fst s of [] \<Rightarrow> ([], snd s) | a # as \<Rightarrow> (as, snd (push_batch a (snd s))))"
      "queue_feed_pop n s = Some (take n (bq_view q), (arr, snd (pop_batch n q)))"
      "queue_from (resume_at lo (take n (bq_view q))) (arr, snd (pop_batch n q))"
    by (rule queue_feed_pop_steps [of lo s n])
  have sq: "queue_span hi lo (arr, q)"
    using span p(1) push_batch_span [of hi lo _ _ "snd s"] by (cases s; cases "fst s") auto
  then have q: "bq_inv q" by (simp add: queue_span_def queue_from_def)
  define fs rest where "fs = take n (bq_view q)" and "rest = drop n (bq_view q) @ concat arr"
  have all: "bq_view q @ concat arr = fs @ rest" by (simp add: fs_def rest_def flip: append_assoc)
  have "if rest = [] then resume_at lo fs = hi else Suc (unat (seq (last rest))) = hi"
    using sq by (auto simp: queue_span_def all Let_def resume_at_def last_append split: if_splits)
  then have "queue_span hi (resume_at lo (take n (bq_view q))) (arr, snd (pop_batch n q))"
    using sq p(3) pop_batch_facts(3) [OF q, of n]
    unfolding queue_span_def bq_open_def Let_def fst_conv snd_conv bq.view_pop [OF q] rest_def [symmetric] fs_def [symmetric] by blast
  then show "\<exists>fs s'. queue_feed_pop n s = Some (fs, s') \<and> length fs \<le> n \<and> list_all numbered fs \<and>
      ascends lo fs \<and> queue_span hi (resume_at lo fs) s'"
    using qf.pop_promise [of lo s n] span p(2) by (auto simp: queue_span_def)
qed

section \<open>Topology B\<close>

text \<open>\<open>read_batch\<close> while producers publish: the next batch of the script arrives before each attempt to
  read a cell; with no arrivals left it is \<open>read_loop\<close>.\<close>

fun read_loop_during ::
  "frame list list \<Rightarrow> nat \<Rightarrow> frame list \<Rightarrow> cursor \<Rightarrow> ring \<Rightarrow>
    (frame list \<times> cursor \<times> ring \<times> frame list list) option" where
  "read_loop_during [] room acc c r =
     map_option (\<lambda>(fs, c', r'). (fs, c', r', [])) (read_loop room acc c r)"
| "read_loop_during (a # as) room acc c r =
     (if room = 0 then Some (acc, c, r, a # as)
      else Option.bind (publish_batch a r) (\<lambda>(_, r1).
        case try_read r1 c of
          (st, c', fo, r') \<Rightarrow>
            (case st of
               ReadOk \<Rightarrow> read_loop_during as (room - 1) (acc @ [the fo]) c' r'
             | ReadLapped \<Rightarrow> read_loop_during as room acc c' r'
             | ReadEmpty \<Rightarrow> Some (acc, c', r', as))))"

record ring_feed =
  rf_ring :: ring
  rf_cursor :: cursor
  rf_delivered :: u64
  rf_missed :: u64
  rf_position :: u64
  rf_arrivals :: "frame list list"

definition ring_feed_new :: "ring \<Rightarrow> ring_feed" where
  "ring_feed_new r = \<lparr>rf_ring = r, rf_cursor = attach r, rf_delivered = 0, rf_missed = 0, rf_position = 0,
     rf_arrivals = []\<rparr>"

definition publish_stats :: "nat \<Rightarrow> ring_feed \<Rightarrow> ring_feed" where
  "publish_stats count s =
     s\<lparr>rf_delivered := rf_delivered s + of_nat count, rf_missed := cur_missed (rf_cursor s),
       rf_position := cur_next (rf_cursor s)\<rparr>"

text \<open>The call \<open>ring_.read_batch(cursor_, out)\<close>, with the producers' script.\<close>

definition feed_read :: "nat \<Rightarrow> ring_feed \<Rightarrow> (frame list \<times> ring_feed) option" where
  "feed_read n s =
     map_option (\<lambda>(fs, c, r, arr). (fs, s\<lparr>rf_cursor := c, rf_ring := r, rf_arrivals := arr\<rparr>))
       (read_loop_during (rf_arrivals s) n [] (rf_cursor s) (rf_ring s))"

text \<open>Parked in \<open>wait_for_data\<close>: the next batch of the script arrives meanwhile.\<close>

definition feed_wait :: "ring_feed \<Rightarrow> ring_feed" where
  "feed_wait s =
     (let known = cur_next (rf_cursor s); r = rf_ring s in
      case rf_arrivals s of
        [] \<Rightarrow> s\<lparr>rf_ring := snd (wait_for_data known id id r)\<rparr>
      | a # as \<Rightarrow>
          if r_write_pos r > known then s\<lparr>rf_ring := snd (wait_for_data known id id r)\<rparr>
          else let parked = (\<lambda>r. case publish_batch a r of None \<Rightarrow> r | Some (_, r') \<Rightarrow> r')
               in s\<lparr>rf_ring := snd (wait_for_data known id parked r), rf_arrivals := as\<rparr>)"

definition ring_feed_pop :: "nat \<Rightarrow> ring_feed \<Rightarrow> (frame list \<times> ring_feed) option" where
  "ring_feed_pop n s =
     Option.bind (feed_read n s) (\<lambda>(fs, s1).
       if length fs > 0 then Some (fs, publish_stats (length fs) s1)
       else if r_closed (rf_ring s1) then Some ([], s1)
       else Option.bind (feed_read n (feed_wait s1))
              (\<lambda>(fs', s2). Some (fs', publish_stats (length fs') s2)))"

definition ring_feed_close :: "ring_feed \<Rightarrow> ring_feed" where
  "ring_feed_close s = s\<lparr>rf_ring := ring_close (rf_ring s)\<rparr>"

definition ring_feed_stats :: "ring_feed \<Rightarrow> feed_stats" where
  "ring_feed_stats s =
     (let pos = rf_position s; w = r_write_pos (rf_ring s)
      in \<lparr>fs_delivered = rf_delivered s, fs_dropped = rf_missed s,
          fs_backlog = (if w > pos then unat (w - pos) else 0), fs_capacity = unat (r_capacity (rf_ring s))\<rparr>)"

section \<open>The ring feed keeps the promise\<close>

text \<open>\<open>L\<close> is everything that has been and will be published, and a frame of the feed is the one \<open>L\<close> has at its
  sequence number. The cursor is at a frame that can be read, or has seen everything: a reader that skips ahead
  always finds a frame there, so that the last one is never lost.\<close>

definition reads_from :: "frame list \<Rightarrow> nat \<Rightarrow> cursor \<Rightarrow> ring \<Rightarrow> frame list list \<Rightarrow> bool" where
  "reads_from L lo c r arr \<longleftrightarrow> list_all bus_frame L \<and> length L \<le> 2 ^ 62 \<and> lo \<le> unat (cur_next c) \<and>
     (\<exists>log. ring_holds r log \<and> log @ concat arr = L \<and>
        (unat (cur_next c) < length log \<or> unat (cur_next c) = length log \<and> lo = length log))"

definition ring_feeds :: "frame list \<Rightarrow> nat \<Rightarrow> ring_feed \<Rightarrow> bool" where
  "ring_feeds L lo s \<longleftrightarrow> reads_from L lo (rf_cursor s) (rf_ring s) (rf_arrivals s)"

definition ring_from :: "nat \<Rightarrow> ring_feed \<Rightarrow> bool" where
  "ring_from lo s \<longleftrightarrow> (\<exists>L. ring_feeds L lo s)"

definition of_log :: "frame list \<Rightarrow> frame \<Rightarrow> bool" where
  "of_log L f \<longleftrightarrow> unat (seq f) < length L \<and> f = frame_at L (unat (seq f))"

lemma of_log_frame_at: "p < length log \<Longrightarrow> p < 2 ^ 64 \<Longrightarrow> of_log (log @ tail) (frame_at log p)"
  by (simp add: of_log_def frame_at_def unat_of_nat_small nth_append)

lemma bus_frames_ok: "list_all bus_frame fs \<Longrightarrow> list_all frame_ok fs"
  by (auto simp: list_all_iff bus_frame_def wire_ok_def)

lemma bus_frame_at: "list_all bus_frame log \<Longrightarrow> p < length log \<Longrightarrow> bus_frame (frame_at log p)"
  by (simp add: list_all_length bus_frame_def frame_at_def wire_ok_def is_control_def)

lemma seq_frame_at: "p < 2 ^ 64 \<Longrightarrow> unat (seq (frame_at log p)) = p"
  by (simp add: frame_at_def unat_of_nat_small)

lemma frames_at_ascend:
  assumes "b \<le> 2 ^ 62"
  shows "ascends a (map (frame_at log) [a..<b])"
    "resume_at a (map (frame_at log) [a..<b]) = max a b"
proof -
  have u: "unat (seq (frame_at log p)) = p" if "p < b" for p
    using that assms by (simp add: seq_frame_at)
  show "ascends a (map (frame_at log) [a..<b])"
    using u by (auto simp: ascends_def sorted_wrt_iff_nth_less word_less_nat_alt)
  show "resume_at a (map (frame_at log) [a..<b]) = max a b"
    using u [of "b - 1"] by (auto simp: resume_at_def last_map max_def)
qed

lemma numbered_frame_at:
  "list_all bus_frame log \<Longrightarrow> p < length log \<Longrightarrow> p < 2 ^ 62 \<Longrightarrow> numbered (frame_at log p)"
  using bus_frame_at [of log p] seq_frame_at [of p log] by (simp add: numbered_def)

text \<open>What a read promises: \<open>fs\<close> is appended to what had been read, and reading can go on after it.\<close>

definition read_promised :: "frame list \<Rightarrow> nat \<Rightarrow> nat \<Rightarrow> frame list \<Rightarrow> (frame list \<times> cursor \<times> ring \<times> frame list list) option \<Rightarrow> bool" where
  "read_promised L lo room acc res \<longleftrightarrow> (\<exists>fs c r arr. res = Some (acc @ fs, c, r, arr) \<and> length fs \<le> room \<and>
     list_all numbered fs \<and> ascends lo fs \<and> list_all (of_log L) fs \<and> reads_from L (resume_at lo fs) c r arr)"

lemma read_none: "reads_from L lo c r arr \<Longrightarrow> read_promised L lo room acc (Some (acc, c, r, arr))"
  unfolding read_promised_def by (intro exI [of _ "[]"]) (simp add: resume_at_def)

lemma read_more:
  assumes "read_promised L (Suc (unat (seq f))) (room - 1) (acc @ [f]) res" "numbered f" "of_log L f"
    and "lo \<le> unat (seq f)" "0 < room"
  shows "read_promised L lo room acc res"
proof -
  obtain fs c r arr where P: "res = Some (acc @ f # fs, c, r, arr)" "length fs \<le> room - 1" "list_all numbered fs"
      "ascends (Suc (unat (seq f))) fs" "list_all (of_log L) fs" "reads_from L (resume_at (Suc (unat (seq f))) fs) c r arr"
    using assms(1) by (auto simp: read_promised_def)
  moreover have "resume_at lo (f # fs) = resume_at (Suc (unat (seq f))) fs" by (simp add: resume_at_def)
  ultimately show ?thesis unfolding read_promised_def using assms(2-5)
    by (intro exI [of _ "f # fs"]) (auto simp: ascends_Cons)
qed

text \<open>A read that nobody interferes with returns a stretch of the log.\<close>

lemma read_stretch:
  assumes "reads_from L lo c r arr" "arr = []" "0 < room"
  shows "read_promised L lo room acc (map_option (\<lambda>(fs, c, r). (fs, c, r, [])) (read_loop room acc c r))"
proof -
  have L: "ring_holds r L" "list_all bus_frame L" "length L \<le> 2 ^ 62" "lo \<le> unat (cur_next c)" "unat (cur_next c) \<le> length L"
      "0 < cap r" "L = [] \<Longrightarrow> unat (cur_next c) = 0"
    using assms(1,2) ring_holds_cap [of r L] by (auto simp: reads_from_def)
  define start where "start = max (unat (cur_next c)) (length L - cap r)"
  define stop where "stop = min (length L) (start + room)"
  let ?fs = "map (frame_at L) [start..<stop]"
  let ?c = "\<lparr>cur_next = of_nat stop, cur_missed = cur_missed c + of_nat (start - unat (cur_next c))\<rparr>"
  have b: "unat (cur_next c) \<le> start" "lo \<le> start" "stop \<le> length L" "start \<le> stop" "stop \<le> start + room"
    using L(4,5) by (auto simp: start_def stop_def)
  have u: "unat (cur_next ?c) = stop" using b(3) L(3) by (simp add: unat_of_nat_small)
  have asc: "ascends lo ?fs" using frames_at_ascend [of stop start L] ascends_mono [OF _ b(2)] b L(3) by simp
  have "resume_at lo ?fs = stop"
  proof (cases "start = stop")
    case True
    then have "start = length L" using assms(3) L(5) by (simp add: stop_def min_def split: if_splits)
    then have "unat (cur_next c) = length L" using L(6,7) by (simp add: start_def max_def split: if_splits)
    then show ?thesis using assms(1,2) True \<open>start = length L\<close> by (auto simp: resume_at_def reads_from_def)
  qed (use frames_at_ascend [of stop start L] b L(3) in \<open>auto simp: resume_at_def\<close>)
  then have "reads_from L (resume_at lo ?fs) ?c r []"
    using L(1-3) b(3) u unfolding reads_from_def by auto
  moreover have "list_all numbered ?fs" "list_all (of_log L) ?fs"
    using numbered_frame_at [OF L(2)] of_log_frame_at [of _ L "[]"] b L(3) by (simp_all add: list_all_iff)
  moreover have "read_loop room acc c r = Some (acc @ ?fs, ?c, r)"
    using read_loop_returns [OF L(1,3,5) assms(3) start_def stop_def] .
  ultimately show ?thesis unfolding read_promised_def using asc b(5)
    by (intro exI [of _ ?fs] exI [of _ ?c] exI [of _ r] exI [of _ "[]"]) auto
qed

lemma publish_reads_from:
  assumes "reads_from L lo c r (a # arr)"
  obtains n r' where "publish_batch a r = Some (n, r')" "reads_from L lo c r' arr"
proof -
  obtain log where log: "ring_holds r log" "log @ a @ concat arr = L"
      "unat (cur_next c) < length log \<or> unat (cur_next c) = length log \<and> lo = length log"
    using assms by (auto simp: reads_from_def)
  then have "list_all frame_ok a" "length log + length a \<le> 2 ^ 62"
    using assms by (auto simp: reads_from_def bus_frames_ok)
  then obtain r' where "publish_batch a r = Some (of_nat (length log), r')" "ring_holds r' (log @ a)"
    using publish_batch_appends [OF log(1)] by blast
  moreover from this(2) have "reads_from L lo c r' arr"
    using assms log(2,3) by (auto simp: reads_from_def intro!: exI [of _ "log @ a"])
  ultimately show thesis using that by blast
qed

text \<open>One read: what \<open>try_read\<close> returns while \<open>L\<close> is being published.\<close>

lemma try_read_from:
  assumes "reads_from L lo c r arr"
  obtains
    (ok) f c' where "try_read r c = (ReadOk, c', Some f, r)" "numbered f" "of_log L f" "lo \<le> unat (seq f)"
      "reads_from L (Suc (unat (seq f))) c' r arr"
  | (lapped) c' where "try_read r c = (ReadLapped, c', None, r)" "reads_from L lo c' r arr"
  | (empty) "try_read r c = (ReadEmpty, c, None, r)"
proof -
  obtain log where log: "ring_holds r log" "log @ concat arr = L" "unat (cur_next c) \<le> length log"
    using assms by (auto simp: reads_from_def)
  have L: "list_all bus_frame log" "length log \<le> 2 ^ 62" using assms log(2) by (auto simp: reads_from_def)
  from log(1) L(2) log(3) show thesis
  proof (cases rule: try_read_held [consumes 3, case_names ok lapped empty])
    case ok
    let ?f = "frame_at log (unat (cur_next c))"
    have "unat (seq ?f) = unat (cur_next c)" by (simp add: seq_frame_at)
    moreover have "numbered ?f" using numbered_frame_at [OF L(1) ok(1)] ok(1) L(2) by simp
    moreover have "of_log L ?f" using of_log_frame_at [OF ok(1), of "concat arr"] ok(1) L(2) log(2) by simp
    moreover have "Suc (unat (cur_next c)) < length log \<or> Suc (unat (cur_next c)) = length log" using ok(1) by linarith
    ultimately show thesis using that(1) [OF ok(2)] assms ok(1,3) log by (auto simp: reads_from_def)
  next
    case (lapped c')
    then show thesis using that(2) [OF lapped(1)] assms log by (auto simp: reads_from_def)
  next
    case empty
    then show thesis by (rule that(3))
  qed
qed

lemma read_loop_during_promise:
  "reads_from L lo c r arr \<Longrightarrow> read_promised L lo room acc (read_loop_during arr room acc c r)"
proof (induction arr arbitrary: lo room acc c r)
  case Nil
  then show ?case
    using read_none [OF Nil] read_stretch [OF Nil] by (cases "room = 0") (simp_all add: read_loop.simps [of 0])
next
  case (Cons a arr)
  show ?case
  proof (cases "room = 0")
    case True
    then show ?thesis using read_none [OF Cons.prems] by simp
  next
    case False
    obtain n r1 where r1: "publish_batch a r = Some (n, r1)" "reads_from L lo c r1 arr"
      by (rule publish_reads_from [OF Cons.prems])
    from r1(2) show ?thesis
    proof (cases rule: try_read_from)
      case (ok f c')
      then show ?thesis
        using read_more [OF Cons.IH [OF ok(5), of "room - 1" "acc @ [f]"] ok(2-4)] r1(1) False by simp
    next
      case (lapped c')
      then show ?thesis using Cons.IH [OF lapped(2)] r1(1) False by simp
    next
      case empty
      then show ?thesis using read_none [OF r1(2)] r1(1) False by simp
    qed
  qed
qed

lemma feed_read_promise:
  assumes "ring_feeds L lo s"
  obtains fs s' where "feed_read n s = Some (fs, s')" "length fs \<le> n" "list_all numbered fs"
    "ascends lo fs" "ring_feeds L (resume_at lo fs) s'" "list_all (of_log L) fs"
proof -
  from read_loop_during_promise [OF assms [unfolded ring_feeds_def], of n "[]"]
  obtain fs c' r' arr' where P: "read_loop_during (rf_arrivals s) n [] (rf_cursor s) (rf_ring s) = Some (fs, c', r', arr')"
      "length fs \<le> n" "list_all numbered fs" "ascends lo fs" "list_all (of_log L) fs" "reads_from L (resume_at lo fs) c' r' arr'"
    by (auto simp: read_promised_def)
  then show thesis
    using that [of fs "s\<lparr>rf_cursor := c', rf_ring := r', rf_arrivals := arr'\<rparr>"] by (simp add: feed_read_def ring_feeds_def)
qed

lemma ring_holds_waiters [simp]: "ring_holds (r\<lparr>r_waiters := w\<rparr>) log = ring_holds r log"
  by (rule ring_holds_cong) simp_all

lemma reads_from_waiters [simp]: "reads_from L lo c (r\<lparr>r_waiters := w\<rparr>) arr = reads_from L lo c r arr"
  by (simp add: reads_from_def)

lemma feed_wait_from:
  assumes "ring_feeds L lo s"
  shows "ring_feeds L lo (feed_wait s)"
proof (cases "rf_arrivals s = [] \<or> r_write_pos (rf_ring s) > cur_next (rf_cursor s)")
  case True
  then have "feed_wait s = s\<lparr>rf_ring := snd (wait_for_data (cur_next (rf_cursor s)) id id (rf_ring s))\<rparr>"
    by (auto simp: feed_wait_def Let_def split: list.splits)
  then show ?thesis using assms by (simp add: ring_feeds_def wait_for_data_def Let_def)
next
  case False
  then obtain a as where arr: "rf_arrivals s = a # as" by (cases "rf_arrivals s") auto
  let ?r = "(rf_ring s)\<lparr>r_waiters := r_waiters (rf_ring s) + 1\<rparr>"
  have "reads_from L lo (rf_cursor s) ?r (a # as)" using assms arr by (simp add: ring_feeds_def)
  then obtain n r' where "publish_batch a ?r = Some (n, r')" "reads_from L lo (rf_cursor s) r' as"
    by (rule publish_reads_from)
  then show ?thesis using False arr by (simp add: feed_wait_def wait_for_data_def Let_def ring_feeds_def)
qed

lemma ring_feeds_publish_stats [simp]: "ring_feeds L lo (publish_stats n s) = ring_feeds L lo s"
  by (simp add: ring_feeds_def publish_stats_def)

lemma ring_feed_pop_promise:
  assumes "ring_feeds L lo s"
  shows "\<exists>fs s'. ring_feed_pop n s = Some (fs, s') \<and> length fs \<le> n \<and> list_all numbered fs \<and>
      ascends lo fs \<and> ring_feeds L (resume_at lo fs) s' \<and> list_all (of_log L) fs"
proof -
  obtain fs s1 where one: "feed_read n s = Some (fs, s1)" "length fs \<le> n" "list_all numbered fs"
      "ascends lo fs" "ring_feeds L (resume_at lo fs) s1" "list_all (of_log L) fs"
    by (rule feed_read_promise [OF assms, of n])
  show ?thesis
  proof (cases "fs = []")
    case False
    then show ?thesis using one by (auto simp: ring_feed_pop_def)
  next
    case True
    then have s1: "ring_feeds L lo s1" using one(5) by (simp add: resume_at_def)
    obtain gs s2 where two: "feed_read n (feed_wait s1) = Some (gs, s2)" "length gs \<le> n"
        "list_all numbered gs" "ascends lo gs" "ring_feeds L (resume_at lo gs) s2" "list_all (of_log L) gs"
      by (rule feed_read_promise [OF feed_wait_from [OF s1], of n])
    show ?thesis using True one s1 two
      by (cases "r_closed (rf_ring s1)") (auto simp: ring_feed_pop_def resume_at_def)
  qed
qed

interpretation rf: consumer_feed ring_feed_pop ring_from
  by unfold_locales (use ring_feed_pop_promise in \<open>unfold ring_from_def, blast\<close>)

lemma ring_feed_new_feeds:
  assumes "ring_holds r log" "list_all bus_frame log" "list_all (list_all bus_frame) arr"
    and "length log + length (concat arr) \<le> 2 ^ 62"
  shows "ring_feeds (log @ concat arr) 0 ((ring_feed_new r)\<lparr>rf_arrivals := arr\<rparr>)"
proof -
  have "unat (oldest r) < length log \<or> unat (oldest r) = length log \<and> length log = 0"
    using oldest_held(2) [OF assms(1)] ring_holds_cap [OF assms(1)] assms(4) by (cases log) simp_all
  then show ?thesis using assms
    by (auto simp: ring_feeds_def reads_from_def ring_feed_new_def attach_def list_all_iff intro!: exI [of _ log])
qed

lemma ring_feed_new_from:
  assumes "ring_holds r log" "list_all bus_frame log" "list_all (list_all bus_frame) arr"
    and "length log + length (concat arr) \<le> 2 ^ 62"
  shows "ring_from 0 ((ring_feed_new r)\<lparr>rf_arrivals := arr\<rparr>)"
  using ring_feed_new_feeds [OF assms] by (auto simp: ring_from_def)

interpretation rs: consumer_feed ring_feed_pop "ring_feeds L"
  by unfold_locales (use ring_feed_pop_promise in blast)

section \<open>Nothing but what was published\<close>

locale contained_feed =
  fixes pop :: "nat \<Rightarrow> 's \<Rightarrow> (frame list \<times> 's) option"
    and inside :: "'s \<Rightarrow> bool" and good :: "frame \<Rightarrow> bool"
  assumes pop_contained: "inside s \<Longrightarrow> pop n s = Some (fs, s') \<Longrightarrow> list_all good fs \<and> inside s'"

definition queue_within :: "frame set \<Rightarrow> queue_feed \<Rightarrow> bool" where
  "queue_within G s \<longleftrightarrow> bq_inv (snd s) \<and> set (bq_view (snd s)) \<union> set (concat (fst s)) \<subseteq> G"

lemma push_batch_within: "queue_within G (a # as, q) \<Longrightarrow> queue_within G (as, snd (push_batch a q))"
proof (cases "q_closed q")
  case True
  assume "queue_within G (a # as, q)"
  then show ?thesis using True by (auto simp: queue_within_def push_batch_facts(9))
next
  case False
  assume w: "queue_within G (a # as, q)"
  then have q: "bq_inv q" by (simp add: queue_within_def)
  then have "bq_view (snd (push_batch a q)) = drop (length (bq_view q) + length a - q_capacity q) (bq_view q @ a)"
    using push_batch_facts(5) [OF q] False by (simp add: bq_open_def)
  then have "set (bq_view (snd (push_batch a q))) \<subseteq> set (bq_view q @ a)" by (simp only: set_drop_subset)
  then show ?thesis using w push_batch_facts(1) [OF q] by (auto simp: queue_within_def)
qed

interpretation qc: contained_feed queue_feed_pop "queue_within G" "\<lambda>f. f \<in> G"
proof
  fix n and s s' :: queue_feed and fs
  assume w: "queue_within G s" and p: "queue_feed_pop n s = Some (fs, s')"
  obtain arr q where s: "s = (arr, q)" by fastforce
  obtain arr' q' where c: "(case arr of [] \<Rightarrow> ([], q) | a # as \<Rightarrow> (as, snd (push_batch a q))) = (arr', q')"
    by fastforce
  have w': "queue_within G (arr', q')" using w c push_batch_within by (cases arr) (auto simp: s)
  then have q': "bq_inv q'" by (simp add: queue_within_def)
  have "fs = take n (bq_view q')" "s' = (arr', snd (pop_batch n q'))"
    using p bq.pop_front [OF q', of n] by (cases "pop_batch n q'"; simp add: queue_feed_pop_def s c)+
  then show "list_all (\<lambda>f. f \<in> G) fs \<and> queue_within G s'"
    using w' bq.inv_pop [OF q', of n] bq.view_pop [OF q', of n]
    by (auto simp: queue_within_def list_all_iff dest: in_set_takeD in_set_dropD)
qed

interpretation rc: contained_feed ring_feed_pop "\<lambda>s. \<exists>lo. ring_feeds L lo s" "of_log L"
proof
  fix n and s s' :: ring_feed and fs
  assume "\<exists>lo. ring_feeds L lo s" and p: "ring_feed_pop n s = Some (fs, s')"
  then obtain lo where "ring_feeds L lo s" by blast
  from ring_feed_pop_promise [OF this, of n] p show "list_all (of_log L) fs \<and> (\<exists>lo. ring_feeds L lo s')" by auto
qed

section \<open>In order, from either feed\<close>

fun pops :: "(nat \<Rightarrow> 's \<Rightarrow> (frame list \<times> 's) option) \<Rightarrow> nat list \<Rightarrow> 's \<Rightarrow> (frame list \<times> 's) option" where
  "pops pop [] s = Some ([], s)"
| "pops pop (n # ns) s =
     Option.bind (pop n s) (\<lambda>(fs, s'). map_option (\<lambda>(gs, s''). (fs @ gs, s'')) (pops pop ns s'))"

context consumer_feed
begin

lemma pops_promise:
  "feed_from lo s \<Longrightarrow> \<exists>fs s'. pops pop ns s = Some (fs, s') \<and> list_all numbered fs \<and> ascends lo fs \<and>
    feed_from (resume_at lo fs) s'"
proof (induction ns arbitrary: lo s)
  case Nil
  then show ?case by (simp add: resume_at_def)
next
  case (Cons n ns)
  obtain fs s1 where one: "pop n s = Some (fs, s1)" "list_all numbered fs" "ascends lo fs"
      "feed_from (resume_at lo fs) s1"
    using pop_promise [OF Cons.prems, of n] by blast
  obtain gs s2 where two: "pops pop ns s1 = Some (gs, s2)" "list_all numbered gs"
      "ascends (resume_at lo fs) gs" "feed_from (resume_at (resume_at lo fs) gs) s2"
    using Cons.IH [OF one(4)] by blast
  show ?case using one two by (simp add: ascends_append resume_at_append)
qed

end

text \<open>(C24) A consumer sees each bus frame at most once and in sequence order, from either topology,
  whatever the producers do between its calls: any number of \<open>pop_batch\<close> calls return, and the
  frames they return, taken together, have strictly increasing sequence numbers.\<close>

theorem feeds_deliver_in_order:
  "(queue_from lo q \<longrightarrow> (\<exists>fs q'. pops queue_feed_pop ns q = Some (fs, q') \<and> list_all bus_frame fs \<and>
      sorted_wrt (<) (map seq fs) \<and> (\<forall>f \<in> set fs. lo \<le> unat (seq f)))) \<and>
   (ring_from lo r \<longrightarrow> (\<exists>fs r'. pops ring_feed_pop ns r = Some (fs, r') \<and> list_all bus_frame fs \<and>
      sorted_wrt (<) (map seq fs) \<and> (\<forall>f \<in> set fs. lo \<le> unat (seq f))))"
  using qf.pops_promise [of lo q ns] rf.pops_promise [of lo r ns]
  by (auto simp: ascends_def list_all_iff numbered_def)

theorem feeds_deliver_in_order_witness:
  "\<exists>fs q'. pops queue_feed_pop [2, 2] ([[zero_frame, zero_frame\<lparr>seq := 1\<rparr>, zero_frame\<lparr>seq := 2\<rparr>]], bq_new zero_frame 2) =
      Some (fs, q') \<and> list_all bus_frame fs \<and> sorted_wrt (<) (map seq fs)"
proof -
  let ?q = "([[zero_frame, zero_frame\<lparr>seq := 1\<rparr>, zero_frame\<lparr>seq := 2\<rparr>]], bq_new zero_frame 2) :: queue_feed"
  have z: "numbered zero_frame" "numbered (zero_frame\<lparr>seq := 1\<rparr>)" "numbered (zero_frame\<lparr>seq := 2\<rparr>)"
    by (simp_all add: numbered_def bus_frame_def wire_ok_def is_control_def zero_frame_def frame_ok_def
        kMaxPayload_def)
  then have "queue_from 0 ?q"
    using bq_inv_new [of zero_frame 2] bq_view_new [of zero_frame 2]
    by (simp add: queue_from_def ascends_Cons zero_frame_def)
  then show ?thesis using feeds_deliver_in_order [of 0 ?q "[2, 2]"] by blast
qed

end
