(* ===== verification/Frame_Stream.thy ===== *)
theory Frame_Stream
  imports Wire
begin

text \<open>
  The consumer's incremental parser (\<^verbatim>\<open>src/frame_stream.hpp\<close>, \<^verbatim>\<open>src/frame_stream.cpp\<close>). The socket is the
  list of bytes the peer has written and this side has not read, plus a script of what each
  system call does: how many bytes a \<open>read\<close> is given, interruptions, errors, and how a \<open>poll\<close> ends.
  A call that runs out of script has reached its deadline. The main theorem is that the parser
  is indifferent to the script: whatever the splits, it hands out exactly the batches that were
  written, in order.
\<close>

section \<open>State\<close>

datatype status = StOk | StTimeout | StClosed | StProtocolError

datatype parse_state = StHeader | StPayload

record frame_stream =
  st_state :: parse_state
  st_buf :: "u8 list"
  st_got :: nat
  st_need :: nat
  st_records :: u32
  st_last_error :: decode_error
  st_echo_drops :: u64

definition stream_new :: frame_stream where
  "stream_new = \<lparr>st_state = StHeader, st_buf = replicate kHeaderSize 0, st_got = 0,
     st_need = kHeaderSize, st_records = 0, st_last_error = kOk, st_echo_drops = 0\<rparr>"

text \<open>How \<open>poll\<close> ends after \<open>EAGAIN\<close>: the deadline had passed before it, it was interrupted, it failed,
  it timed out, or the descriptor became readable.\<close>

datatype poll_end = Expired | PollIntr | PollFail | PollTimeout | PollReady

text \<open>One \<open>read\<close>: it is offered \<open>Suc n\<close> bytes (and takes at most what it asked for and what is there), or
  sees the end of the stream, or is interrupted, or fails, or would block.\<close>

datatype read_event = Deliver nat | EndOfStream | ReadIntr | ReadFail | WouldBlock poll_end

section \<open>Operations\<close>

definition resize_buf :: "nat \<Rightarrow> u8 list \<Rightarrow> u8 list" where
  "resize_buf need buf = (if length buf < need then buf @ replicate (need - length buf) 0 else buf)"

text \<open>The loop of \<open>fill\<close>; \<open>inc\<close> is the unread input.\<close>

fun fill_loop :: "nat \<Rightarrow> read_event list \<Rightarrow> u8 list \<Rightarrow> frame_stream \<Rightarrow>
    status \<times> frame_stream \<times> u8 list \<times> read_event list" where
  "fill_loop need [] inc s = ((if st_got s < need then StTimeout else StOk), s, inc, [])"
| "fill_loop need (e # es) inc s =
     (if \<not> st_got s < need then (StOk, s, inc, e # es)
      else case e of
        Deliver n \<Rightarrow>
          let k = min (Suc n) (min (need - st_got s) (length inc))
          in fill_loop need es (drop k inc)
               (s\<lparr>st_buf := put (st_got s) (take k inc) (st_buf s), st_got := st_got s + k\<rparr>)
      | EndOfStream \<Rightarrow> (StClosed, s, inc, es)
      | ReadIntr \<Rightarrow> fill_loop need es inc s
      | ReadFail \<Rightarrow> (StClosed, s, inc, es)
      | WouldBlock p \<Rightarrow>
          (case p of
             Expired \<Rightarrow> (StTimeout, s, inc, es)
           | PollIntr \<Rightarrow> fill_loop need es inc s
           | PollFail \<Rightarrow> (StClosed, s, inc, es)
           | PollTimeout \<Rightarrow> (StTimeout, s, inc, es)
           | PollReady \<Rightarrow> fill_loop need es inc s))"

definition fill :: "nat \<Rightarrow> read_event list \<Rightarrow> u8 list \<Rightarrow> frame_stream \<Rightarrow>
    status \<times> frame_stream \<times> u8 list \<times> read_event list" where
  "fill need es inc s = fill_loop need es inc (s\<lparr>st_buf := resize_buf need (st_buf s)\<rparr>)"

text \<open>The decoding loop of \<open>read_batch\<close>, from record \<open>i\<close> on with \<open>k\<close> to go.\<close>

fun decode_records :: "nat \<Rightarrow> nat \<Rightarrow> u8 list \<Rightarrow> frame list \<Rightarrow> decode_error \<times> frame list" where
  "decode_records 0 i buf out = (kOk, out)"
| "decode_records (Suc k) i buf out =
     (case decode_frame (get (i * kRecordSize) kRecordSize buf) of
        Inl e \<Rightarrow> (e, out)
      | Inr f \<Rightarrow> decode_records k (Suc i) buf (out @ [f]))"

definition back_to_header :: "frame_stream \<Rightarrow> frame_stream" where
  "back_to_header s = s\<lparr>st_state := StHeader, st_got := 0, st_need := kHeaderSize\<rparr>"

text \<open>The second half of \<open>read_batch\<close>: the payload.\<close>

definition read_payload :: "read_event list \<Rightarrow> u8 list \<Rightarrow> frame_stream \<Rightarrow>
    status \<times> frame list \<times> frame_stream \<times> u8 list" where
  "read_payload es inc s =
     (case fill (st_need s) es inc s of
        (st, s1, inc1, _) \<Rightarrow>
          if st \<noteq> StOk then (st, [], s1, inc1)
          else case decode_records (unat (st_records s1)) 0 (st_buf s1) [] of
                 (err, out) \<Rightarrow>
                   let s2 = (if st_records s1 = 0 then s1 else s1\<lparr>st_last_error := err\<rparr>)
                   in ((if err = kOk then StOk else StProtocolError), out, back_to_header s2, inc1))"

text \<open>A header has been accepted: what comes next is its payload.\<close>

definition to_payload :: "batch_header \<Rightarrow> frame_stream \<Rightarrow> frame_stream" where
  "to_payload h s = s\<lparr>st_last_error := kOk, st_records := bh_count h, st_need := unat (bh_payload_len h), st_got := 0,
     st_state := StPayload\<rparr>"

definition stream_read_batch :: "read_event list \<Rightarrow> u8 list \<Rightarrow> frame_stream \<Rightarrow>
    status \<times> frame list \<times> frame_stream \<times> u8 list" where
  "stream_read_batch es inc s =
     (if st_state s = StHeader then
        case fill kHeaderSize es inc s of
          (st, s1, inc1, es1) \<Rightarrow>
            if st \<noteq> StOk then (st, [], s1, inc1)
            else case decode_header (get 0 kHeaderSize (st_buf s1)) of
                   Inl e \<Rightarrow> (StProtocolError, [], s1\<lparr>st_last_error := e\<rparr>, inc1)
                 | Inr h \<Rightarrow>
                     let s2 = to_payload h s1
                     in if st_need s2 = 0
                        then (StOk, [], s2\<lparr>st_state := StHeader, st_need := kHeaderSize\<rparr>, inc1)
                        else read_payload es1 inc1 s2
      else read_payload es inc s)"

text \<open>\<open>send\<close>: room for \<open>Suc n\<close> bytes, an interruption, or anything else (a full buffer included).\<close>

datatype send_event = Accept nat | SendIntr | SendRefuse

definition batch_bytes :: "frame list \<Rightarrow> u8 list" where
  "batch_bytes fs = encode_header (of_nat (length fs)) (replicate kHeaderSize 0) @
     concat (map (\<lambda>f. encode_frame f (replicate kRecordSize 0)) fs)"

text \<open>\<open>send_back\<close>: the loop writes \<open>msg\<close> from \<open>sent\<close> on and gives up at the first refusal; the bytes it has
  put on the connection are the last component. Without a further event the socket refuses.\<close>

fun send_loop :: "send_event list \<Rightarrow> nat \<Rightarrow> u8 list \<Rightarrow> bool \<times> nat" where
  "send_loop [] sent msg = (\<not> sent < length msg, sent)"
| "send_loop (e # es) sent msg =
     (if \<not> sent < length msg then (True, sent)
      else case e of
        Accept n \<Rightarrow> send_loop es (sent + min (Suc n) (length msg - sent)) msg
      | SendIntr \<Rightarrow> send_loop es sent msg
      | SendRefuse \<Rightarrow> (False, sent))"

definition send_back :: "send_event list \<Rightarrow> frame \<Rightarrow> frame_stream \<Rightarrow> bool \<times> frame_stream \<times> u8 list" where
  "send_back es f s =
     (let msg = encode_header 1 (replicate kHeaderSize 0) @ encode_frame f (replicate kRecordSize 0) in
      case send_loop es 0 msg of
        (done, sent) \<Rightarrow>
          (done, (if done then s else s\<lparr>st_echo_drops := st_echo_drops s + 1\<rparr>), take sent msg))"

section \<open>Filling the buffer\<close>

text \<open>Nothing but the buffer and the fill level changes while filling.\<close>

definition same_parse :: "frame_stream \<Rightarrow> frame_stream \<Rightarrow> bool" where
  "same_parse s s' \<longleftrightarrow> st_state s' = st_state s \<and> st_need s' = st_need s \<and>
     st_records s' = st_records s \<and> st_last_error s' = st_last_error s \<and> st_echo_drops s' = st_echo_drops s"

lemma take_put: "off + length bs \<le> length out \<Longrightarrow> take (off + length bs) (put off bs out) = take off out @ bs"
  by (simp add: put_def)

lemma fill_loop_effect:
  assumes "fill_loop need es inc s = (st, s', inc', es')" "st_got s \<le> need" "need \<le> length (st_buf s)"
  shows "\<exists>k. inc' = drop k inc \<and> k \<le> length inc \<and> st_got s' = st_got s + k \<and> st_got s' \<le> need \<and>
    length (st_buf s') = length (st_buf s) \<and>
    take (st_got s') (st_buf s') = take (st_got s) (st_buf s) @ take k inc \<and> same_parse s s' \<and>
    (st = StOk \<longleftrightarrow> st_got s' = need) \<and> st \<noteq> StProtocolError"
  using assms
proof (induction es arbitrary: inc s)
  case Nil
  then show ?case by (intro exI [of _ 0]) (auto simp: same_parse_def split: if_splits)
next
  case (Cons e es)
  have stay: ?case if "inc' = inc" "s' = s" "st = StOk \<longleftrightarrow> st_got s = need" "st \<noteq> StProtocolError"
    using that Cons.prems(2) by (intro exI [of _ 0]) (auto simp: same_parse_def)
  show ?case
  proof (cases "st_got s < need")
    case False
    then show ?thesis using Cons.prems by (intro stay) auto
  next
    case True
    show ?thesis
    proof (cases e)
      case (Deliver n)
      define k where "k = min (Suc n) (min (need - st_got s) (length inc))"
      let ?s = "s\<lparr>st_buf := put (st_got s) (take k inc) (st_buf s), st_got := st_got s + k\<rparr>"
      have k: "k \<le> length inc" "st_got s + k \<le> need" using True by (auto simp: k_def)
      then have fit: "st_got s + length (take k inc) \<le> length (st_buf s)" using Cons.prems(3) by simp
      have run: "fill_loop need es (drop k inc) ?s = (st, s', inc', es')"
        using Cons.prems(1) True Deliver by (simp add: k_def Let_def)
      have "length (st_buf ?s) = length (st_buf s)" using fit by simp
      then obtain j where j: "inc' = drop j (drop k inc)" "j \<le> length (drop k inc)"
          "st_got s' = st_got ?s + j" "st_got s' \<le> need" "length (st_buf s') = length (st_buf s)"
          "take (st_got s') (st_buf s') = take (st_got ?s) (st_buf ?s) @ take j (drop k inc)"
          "same_parse ?s s'" "st = StOk \<longleftrightarrow> st_got s' = need" "st \<noteq> StProtocolError"
        using Cons.IH [OF run] k(2) Cons.prems(3) by auto
      have "take (st_got ?s) (st_buf ?s) = take (st_got s) (st_buf s) @ take k inc"
        using take_put [OF fit] k(1) by simp
      moreover have "take (k + j) inc = take k inc @ take j (drop k inc)" by (rule take_add)
      moreover have "same_parse s s'" using j(7) by (simp add: same_parse_def)
      moreover have "inc' = drop (k + j) inc" using j(1) by (simp add: add.commute)
      moreover have "k + j \<le> length inc" using j(2) k(1) by simp
      ultimately show ?thesis using j(3-6,8,9)
        by (intro exI [of _ "k + j"] conjI) simp_all
    next
      case (WouldBlock p)
      then show ?thesis using Cons True stay by (cases p) (auto simp: Cons.IH)
    qed (use Cons True stay in \<open>auto simp: Cons.IH\<close>)
  qed
qed

lemma fill_effect:
  assumes "fill need es inc s = (st, s', inc', es')" "st_got s \<le> need" "st_got s \<le> length (st_buf s)"
  obtains k where "inc' = drop k inc" "k \<le> length inc" "st_got s' = st_got s + k" "st_got s' \<le> need"
    "length (st_buf s') = max need (length (st_buf s))"
    "take (st_got s') (st_buf s') = take (st_got s) (st_buf s) @ take k inc" "same_parse s s'"
    "st = StOk \<longleftrightarrow> st_got s' = need" "st \<noteq> StProtocolError"
proof -
  let ?s = "s\<lparr>st_buf := resize_buf need (st_buf s)\<rparr>"
  have l: "length (st_buf ?s) = max need (length (st_buf s))" "need \<le> length (st_buf ?s)"
    by (simp_all add: resize_buf_def)
  have t: "take (st_got s) (st_buf ?s) = take (st_got s) (st_buf s)"
    using assms(3) by (simp add: resize_buf_def)
  show thesis
    using fill_loop_effect [OF assms(1) [unfolded fill_def] _ l(2)] assms(2) l(1) t that
    by (auto simp: same_parse_def)
qed


section \<open>Batches\<close>

definition batch_ok_wire :: "frame list \<Rightarrow> bool" where
  "batch_ok_wire fs \<longleftrightarrow> list_all wire_ok fs \<and> length fs \<le> 65535"

definition records_bytes :: "frame list \<Rightarrow> u8 list" where
  "records_bytes fs = concat (map (\<lambda>f. encode_frame f (replicate kRecordSize 0)) fs)"

lemma batch_bytes_split: "batch_bytes fs =
    encode_header (of_nat (length fs)) (replicate kHeaderSize 0) @ records_bytes fs"
  by (simp add: batch_bytes_def records_bytes_def)

lemma length_records_bytes: "list_all wire_ok fs \<Longrightarrow> length (records_bytes fs) = length fs * kRecordSize"
  by (induction fs) (simp_all add: records_bytes_def wire_ok_def)

lemma length_batch_bytes: "list_all wire_ok fs \<Longrightarrow>
    length (batch_bytes fs) = kHeaderSize + length fs * kRecordSize"
  by (simp add: batch_bytes_split length_records_bytes)

lemma decode_records_bytes:
  assumes "list_all wire_ok fs" "length pre = i * kRecordSize"
  shows "decode_records (length fs) i (pre @ records_bytes fs @ post) out = (kOk, out @ fs)"
  using assms
proof (induction fs arbitrary: pre i out)
  case (Cons f fs)
  let ?e = "encode_frame f (replicate kRecordSize 0)"
  have l: "length ?e = kRecordSize" using Cons.prems(1) by (simp add: wire_ok_def)
  have "get (i * kRecordSize) kRecordSize (pre @ records_bytes (f # fs) @ post) = ?e"
    using Cons.prems(2) l by (simp add: records_bytes_def get_def)
  moreover have "decode_frame ?e = Inr f" using Cons.prems(1) by (simp add: frame_round_trip)
  moreover have "decode_records (length fs) (Suc i) ((pre @ ?e) @ records_bytes fs @ post) (out @ [f]) =
      (kOk, (out @ [f]) @ fs)"
    using Cons.prems l by (intro Cons.IH) simp_all
  ultimately show ?case by (simp add: records_bytes_def)
qed simp

lemma header_of_batch:
  assumes "batch_ok_wire fs"
  shows "decode_header (encode_header (of_nat (length fs)) (replicate kHeaderSize 0)) =
      Inr (header_for (of_nat (length fs)))"
    "unat (of_nat (length fs) :: u32) = length fs"
    "unat (bh_payload_len (header_for (of_nat (length fs)))) = length fs * kRecordSize"
proof -
  have le: "length fs \<le> 65535" using assms by (simp add: batch_ok_wire_def)
  then show u: "unat (of_nat (length fs) :: u32) = length fs" by (simp add: unat_of_nat)
  then have "(of_nat (length fs) :: u32) \<le> kMaxCount" using le by (simp add: kMaxCount_def word_le_nat_alt)
  then show d: "decode_header (encode_header (of_nat (length fs)) (replicate kHeaderSize 0)) =
      Inr (header_for (of_nat (length fs)))"
    using header_round_trip [of "replicate kHeaderSize 0" "of_nat (length fs)"] by simp
  show "unat (bh_payload_len (header_for (of_nat (length fs)))) = length fs * kRecordSize"
    using decode_header_payload(1) [OF d] u by (simp add: header_for_def)
qed

section \<open>The parser follows the stream\<close>

text \<open>The bytes of the current message the parser has taken so far.\<close>

definition consumed :: "frame_stream \<Rightarrow> u8 list" where
  "consumed s = (case st_state s of
     StHeader \<Rightarrow> take (st_got s) (st_buf s)
   | StPayload \<Rightarrow> encode_header (st_records s) (replicate kHeaderSize 0) @ take (st_got s) (st_buf s))"

definition stream_wf :: "frame_stream \<Rightarrow> bool" where
  "stream_wf s \<longleftrightarrow> st_got s \<le> length (st_buf s) \<and> kHeaderSize \<le> length (st_buf s) \<and>
     (case st_state s of
        StHeader \<Rightarrow> st_got s \<le> kHeaderSize
      | StPayload \<Rightarrow> st_got s \<le> st_need s \<and> 0 < st_need s \<and> st_records s \<le> kMaxCount \<and>
          st_need s = unat (st_records s) * kRecordSize)"

text \<open>\<open>follows s inc bs\<close>: what the parser holds, followed by the unread input, is the encoding of \<open>bs\<close>.\<close>

definition follows :: "frame_stream \<Rightarrow> u8 list \<Rightarrow> frame list list \<Rightarrow> bool" where
  "follows s inc bs \<longleftrightarrow> stream_wf s \<and> list_all batch_ok_wire bs \<and>
     consumed s @ inc = concat (map batch_bytes bs)"

lemma follows_new: "list_all batch_ok_wire bs \<Longrightarrow> follows stream_new (concat (map batch_bytes bs)) bs"
  by (simp add: follows_def stream_wf_def stream_new_def consumed_def)

lemma append_same_length: "length a = length c \<Longrightarrow> a @ b = c @ d \<Longrightarrow> a = c \<and> b = d"
  by simp

text \<open>Filling, in either state.\<close>

lemma fill_follows:
  assumes f: "follows s inc bs" and need: "need = (case st_state s of StHeader \<Rightarrow> kHeaderSize | StPayload \<Rightarrow> st_need s)"
    and fl: "fill need es inc s = (q, s1, inc1, es1)"
  shows "follows s1 inc1 bs \<and> same_parse s s1 \<and> (q = StOk \<longleftrightarrow> st_got s1 = need) \<and> q \<noteq> StProtocolError \<and> need \<le> length (st_buf s1)"
proof -
  have wf: "st_got s \<le> need" "st_got s \<le> length (st_buf s)" "kHeaderSize \<le> length (st_buf s)"
    using f need by (auto simp: follows_def stream_wf_def split: parse_state.splits)
  obtain k where k: "inc1 = drop k inc" "k \<le> length inc" "st_got s1 = st_got s + k" "st_got s1 \<le> need"
      "length (st_buf s1) = max need (length (st_buf s))" "take (st_got s1) (st_buf s1) = take (st_got s) (st_buf s) @ take k inc"
      "same_parse s s1" "q = StOk \<longleftrightarrow> st_got s1 = need" "q \<noteq> StProtocolError"
    by (rule fill_effect [OF fl wf(1,2)])
  have "consumed s1 @ inc1 = consumed s @ inc"
    using k(1,6,7) by (simp add: consumed_def same_parse_def split: parse_state.splits)
  moreover have "stream_wf s1"
    using f need wf(3) k by (auto simp: follows_def stream_wf_def same_parse_def le_max_iff_disj split: parse_state.splits)
  ultimately show ?thesis using f k(5,7-9) by (simp add: follows_def)
qed

text \<open>A complete header is that of the next batch, and a complete payload holds its records.\<close>

lemma header_complete:
  assumes f: "follows s inc bs" and st: "st_state s = StHeader" "st_got s = kHeaderSize"
  obtains b bs' where "bs = b # bs'" "decode_header (get 0 kHeaderSize (st_buf s)) = Inr (header_for (of_nat (length b)))"
    "inc = records_bytes b @ concat (map batch_bytes bs')"
proof -
  let ?h = "take kHeaderSize (st_buf s)"
  have all: "?h @ inc = concat (map batch_bytes bs)" and lh: "length ?h = kHeaderSize"
    using f st by (simp_all add: follows_def consumed_def stream_wf_def)
  have "bs \<noteq> []" using all lh by (auto simp: kHeaderSize_def)
  then obtain b bs' where bs: "bs = b # bs'" by (cases bs) auto
  have b: "batch_ok_wire b" using f bs by (simp add: follows_def)
  have "?h = encode_header (of_nat (length b)) (replicate kHeaderSize 0) \<and>
      inc = records_bytes b @ concat (map batch_bytes bs')"
    using all lh by (intro append_same_length) (simp_all add: bs batch_bytes_split)
  then show thesis using that [OF bs] header_of_batch(1) [OF b] by (simp add: get_def)
qed

lemma payload_complete:
  assumes f: "follows s inc bs" and st: "st_state s = StPayload" "st_got s = st_need s"
  obtains b bs' where "bs = b # bs'" "decode_records (unat (st_records s)) 0 (st_buf s) [] = (kOk, b)"
    "inc = concat (map batch_bytes bs')"
proof -
  let ?h = "encode_header (st_records s) (replicate kHeaderSize 0)" and ?body = "take (st_need s) (st_buf s)"
  have wf: "st_need s = unat (st_records s) * kRecordSize" "st_records s \<le> kMaxCount" "st_need s \<le> length (st_buf s)"
    using f st by (auto simp: follows_def stream_wf_def)
  have all: "?h @ ?body @ inc = concat (map batch_bytes bs)" using f st by (simp add: follows_def consumed_def)
  have "length ?h = kHeaderSize" by simp
  then have "?h \<noteq> []" by (metis kHeaderSize_def length_0_conv zero_neq_numeral)
  then have "bs \<noteq> []" using all by auto
  then obtain b bs' where bs: "bs = b # bs'" by (cases bs) auto
  have b: "batch_ok_wire b" "list_all wire_ok b" using f bs by (simp_all add: follows_def batch_ok_wire_def)
  have h: "?h = encode_header (of_nat (length b)) (replicate kHeaderSize 0) \<and>
      ?body @ inc = records_bytes b @ concat (map batch_bytes bs')"
    using all by (intro append_same_length) (simp_all add: bs batch_bytes_split)
  then have "header_for (st_records s) = header_for (of_nat (length b))"
    using header_round_trip [of "replicate kHeaderSize 0" "st_records s"] wf(2) header_of_batch(1) [OF b(1)] by simp
  then have n: "unat (st_records s) = length b" using header_of_batch(2) [OF b(1)] by (simp add: header_for_def)
  have body: "?body = records_bytes b \<and> inc = concat (map batch_bytes bs')"
    using h wf by (intro append_same_length) (simp_all add: n length_records_bytes [OF b(2)])
  have "st_buf s = [] @ records_bytes b @ drop (st_need s) (st_buf s)" by (metis body append_Nil append_take_drop_id)
  then have "decode_records (unat (st_records s)) 0 (st_buf s) [] = (kOk, b)"
    using decode_records_bytes [OF b(2), of "[]" 0 "drop (st_need s) (st_buf s)" "[]"] n by simp
  then show thesis using that [OF bs] body by blast
qed

text \<open>What a call of \<open>read_batch\<close> has done when it returns.\<close>

definition read_one :: "frame list list \<Rightarrow> status \<times> frame list \<times> frame_stream \<times> u8 list \<Rightarrow> bool" where
  "read_one bs = (\<lambda>(r, out, s, inc). (r = StOk \<and> (\<exists>bs'. bs = out # bs' \<and> follows s inc bs')) \<or>
     (r \<in> {StTimeout, StClosed} \<and> out = [] \<and> follows s inc bs))"

lemma read_payload_follows:
  assumes f: "follows s inc bs" and st: "st_state s = StPayload"
  shows "read_one bs (read_payload es inc s)"
proof -
  obtain q s1 inc1 es1 where fl: "fill (st_need s) es inc s = (q, s1, inc1, es1)" by (metis prod_cases4)
  have s1: "follows s1 inc1 bs" "same_parse s s1" "q = StOk \<longleftrightarrow> st_got s1 = st_need s" "q \<noteq> StProtocolError"
    using fill_follows [OF f _ fl] st by auto
  show ?thesis
  proof (cases "q = StOk")
    case False
    then have "q \<in> {StTimeout, StClosed}" using s1(4) by (cases q) simp_all
    then show ?thesis using fl False s1(1) by (simp add: read_payload_def read_one_def)
  next
    case True
    then have "st_state s1 = StPayload" "st_got s1 = st_need s1" using s1(2,3) st by (simp_all add: same_parse_def)
    then obtain b bs' where b: "bs = b # bs'" "decode_records (unat (st_records s1)) 0 (st_buf s1) [] = (kOk, b)"
        "inc1 = concat (map batch_bytes bs')"
      by (rule payload_complete [OF s1(1)])
    then have "follows (back_to_header t) inc1 bs'" if "st_buf t = st_buf s1" for t
      using s1(1) that by (simp add: follows_def stream_wf_def consumed_def back_to_header_def)
    then show ?thesis using fl True b by (simp add: read_payload_def read_one_def Let_def)
  qed
qed

lemma to_payload_follows:
  assumes "follows s inc (b # bs)" "inc = records_bytes b @ concat (map batch_bytes bs)" "b \<noteq> []"
  defines "s' \<equiv> to_payload (header_for (of_nat (length b))) s"
  shows "follows s' inc (b # bs) \<and> st_state s' = StPayload \<and> st_need s' = length b * kRecordSize \<and> st_got s' = 0"
proof -
  have b: "batch_ok_wire b" using assms(1) by (simp add: follows_def)
  have "(of_nat (length b) :: u32) \<le> kMaxCount"
    using header_of_batch(2) [OF b] b by (simp add: batch_ok_wire_def kMaxCount_def word_le_nat_alt)
  then show ?thesis
    using assms(1-3) header_of_batch(2,3) [OF b]
    by (simp add: s'_def to_payload_def header_for_def follows_def stream_wf_def consumed_def batch_bytes_split kRecordSize_def)
qed

text \<open>A call that has got the whole header.\<close>

lemma stream_read_header:
  assumes f: "follows s inc bs" and st: "st_state s = StHeader" and fl: "fill kHeaderSize es inc s = (StOk, s1, inc1, es1)"
  obtains b bs' where "bs = b # bs'" "inc1 = records_bytes b @ concat (map batch_bytes bs')"
    "b = [] \<longrightarrow> read_one bs (stream_read_batch es inc s) \<and> fst (stream_read_batch es inc s) = StOk"
    "b \<noteq> [] \<longrightarrow> (\<exists>s2. stream_read_batch es inc s = read_payload es1 inc1 s2 \<and> follows s2 inc1 bs \<and>
       st_state s2 = StPayload \<and> st_need s2 = length b * kRecordSize \<and> st_got s2 = 0)"
proof -
  have s1: "follows s1 inc1 bs" "st_state s1 = StHeader" "st_got s1 = kHeaderSize"
    using fill_follows [OF f _ fl] st by (auto simp: same_parse_def)
  obtain b bs' where b: "bs = b # bs'" "decode_header (get 0 kHeaderSize (st_buf s1)) = Inr (header_for (of_nat (length b)))"
      "inc1 = records_bytes b @ concat (map batch_bytes bs')"
    by (rule header_complete [OF s1])
  have "batch_ok_wire b" using f b(1) by (simp add: follows_def)
  from header_of_batch(3) [OF this] have read: "stream_read_batch es inc s =
      (let s2 = to_payload (header_for (of_nat (length b))) s1 in
       if b = [] then (StOk, [], s2\<lparr>st_state := StHeader, st_need := kHeaderSize\<rparr>, inc1) else read_payload es1 inc1 s2)"
    using st fl b(2) by (simp add: stream_read_batch_def to_payload_def kRecordSize_def)
  show thesis
  proof (rule that [OF b(1,3)])
    show "b = [] \<longrightarrow> read_one bs (stream_read_batch es inc s) \<and> fst (stream_read_batch es inc s) = StOk"
      using read s1(1) b by (simp add: read_one_def to_payload_def follows_def stream_wf_def consumed_def records_bytes_def)
  qed (use read to_payload_follows [of s1 inc1 b bs'] s1(1) b in auto)
qed

lemma stream_read_one:
  assumes f: "follows s inc bs"
  shows "read_one bs (stream_read_batch es inc s)"
proof (cases "st_state s")
  case StPayload
  then show ?thesis using read_payload_follows [OF f] by (simp add: stream_read_batch_def)
next
  case StHeader
  obtain q s1 inc1 es1 where fl: "fill kHeaderSize es inc s = (q, s1, inc1, es1)" by (metis prod_cases4)
  have s1: "follows s1 inc1 bs" "q \<noteq> StProtocolError" using fill_follows [OF f _ fl] StHeader by auto
  show ?thesis
  proof (cases "q = StOk")
    case False
    then have "q \<in> {StTimeout, StClosed}" using s1(2) by (cases q) simp_all
    then show ?thesis using fl False s1(1) StHeader by (simp add: stream_read_batch_def read_one_def)
  next
    case True
    then show ?thesis
      using stream_read_header [OF f StHeader] fl read_payload_follows by metis
  qed
qed

lemma stream_read_follows:
  assumes "follows s inc bs" "stream_read_batch es inc s = (r, out, s', inc')"
  shows "(r = StOk \<and> (\<exists>b bs'. bs = b # bs' \<and> out = b \<and> follows s' inc' bs')) \<or>
    (r \<in> {StTimeout, StClosed} \<and> out = [] \<and> follows s' inc' bs)"
  using stream_read_one [OF assms(1), of es] assms(2) by (auto simp: read_one_def)

text \<open>A reader that calls \<open>read_batch\<close> again and again, each call with its own script, and keeps what the
  successful calls return.\<close>

fun read_many :: "read_event list list \<Rightarrow> u8 list \<Rightarrow> frame_stream \<Rightarrow>
    status list \<times> frame list list \<times> frame_stream \<times> u8 list" where
  "read_many [] inc s = ([], [], s, inc)"
| "read_many (es # ess) inc s =
     (case stream_read_batch es inc s of
        (r, out, s', inc') \<Rightarrow>
          (case read_many ess inc' s' of
             (rs, outs, s'', inc'') \<Rightarrow> (r # rs, (if r = StOk then out # outs else outs), s'', inc'')))"

lemma read_many_follows:
  assumes "follows s inc bs" "read_many ess inc s = (rs, outs, s', inc')"
  shows "outs = take (length outs) bs \<and> length outs \<le> length bs \<and>
    follows s' inc' (drop (length outs) bs) \<and> StProtocolError \<notin> set rs"
  using assms
proof (induction ess arbitrary: inc s bs rs outs s' inc')
  case Nil
  then show ?case by simp
next
  case (Cons es ess)
  obtain r out s1 inc1 where one: "stream_read_batch es inc s = (r, out, s1, inc1)" by (metis prod_cases4)
  obtain rs1 outs1 s2 inc2 where many: "read_many ess inc1 s1 = (rs1, outs1, s2, inc2)" by (metis prod_cases4)
  have eqs: "rs = r # rs1" "outs = (if r = StOk then out # outs1 else outs1)" "s' = s2" "inc' = inc2"
    using Cons.prems(2) one many by auto
  from stream_read_follows [OF Cons.prems(1) one] show ?case
  proof
    assume "r = StOk \<and> (\<exists>b bs'. bs = b # bs' \<and> out = b \<and> follows s1 inc1 bs')"
    then obtain bs' where "r = StOk" "bs = out # bs'" "follows s1 inc1 bs'" by blast
    then show ?thesis using Cons.IH [OF _ many] eqs by auto
  next
    assume "r \<in> {StTimeout, StClosed} \<and> out = [] \<and> follows s1 inc1 bs"
    then show ?thesis using Cons.IH [OF _ many] eqs by auto
  qed
qed

text \<open>(C25) The parser does not depend on how TCP splits the stream. Take any batches the gateway may
  write and any scripts for any number of \<open>read_batch\<close> calls (short reads inside a header or a
  record, interruptions, timeouts in the middle of a message): the successful calls return exactly
  those batches, in order, none twice and none skipped, and no call reports a protocol error.\<close>

theorem parser_ignores_splits:
  assumes "list_all batch_ok_wire bs"
  shows "case read_many ess (concat (map batch_bytes bs)) stream_new of
    (rs, outs, s', inc') \<Rightarrow> outs = take (length outs) bs \<and> StProtocolError \<notin> set rs"
proof -
  obtain rs outs s' inc' where r: "read_many ess (concat (map batch_bytes bs)) stream_new = (rs, outs, s', inc')"
    by (metis prod_cases4)
  show ?thesis using read_many_follows [OF follows_new [OF assms] r] r by simp
qed

theorem parser_ignores_splits_witness:
  "case read_many [[Deliver 6, WouldBlock Expired], [ReadIntr, Deliver 30, Deliver 100]]
      (concat (map batch_bytes [[make_echo 5 6]])) stream_new of
    (rs, outs, s', inc') \<Rightarrow> outs = take (length outs) [[make_echo 5 6]] \<and> StProtocolError \<notin> set rs"
  using parser_ignores_splits [of "[[make_echo 5 6]]" "[[Deliver 6, WouldBlock Expired], [ReadIntr, Deliver 30, Deliver 100]]"]
  by (simp add: batch_ok_wire_def del: read_many.simps)

section \<open>Progress\<close>





section \<open>Replies\<close>

lemma send_loop_bound:
  "sent \<le> length msg \<Longrightarrow> send_loop es sent msg = (ok, n) \<Longrightarrow>
    sent \<le> n \<and> n \<le> length msg \<and> (ok \<longleftrightarrow> n = length msg)"
proof (induction es arbitrary: sent)
  case (Cons e es)
  show ?case
  proof (cases "sent < length msg")
    case True
    show ?thesis
    proof (cases e)
      case (Accept k)
      have le: "sent + min (Suc k) (length msg - sent) \<le> length msg" using True by simp
      have "send_loop es (sent + min (Suc k) (length msg - sent)) msg = (ok, n)"
        using Cons.prems(2) True Accept by simp
      from Cons.IH [OF le this] show ?thesis by linarith
    next
      case SendIntr
      then show ?thesis using Cons.IH [OF Cons.prems(1)] Cons.prems(2) True by simp
    qed (use Cons.prems True in auto)
  qed (use Cons.prems in auto)
qed auto

lemma send_back_eq: "send_back es f s = (case send_loop es 0 (batch_bytes [f]) of (ok, n) \<Rightarrow>
    (ok, (if ok then s else s\<lparr>st_echo_drops := st_echo_drops s + 1\<rparr>), take n (batch_bytes [f])))"
  by (simp add: send_back_def batch_bytes_def Let_def)

text \<open>What \<open>send_back\<close> leaves on the connection: it reports success exactly when the whole reply was
  written, and then the reply is one well-formed batch with the record in it. When it gives up it
  counts one drop, and what it has written is a strict prefix of the reply, not necessarily empty:
  the gateway's next reply then starts in the middle of a message.\<close>

theorem send_back_writes_prefix:
  assumes "wire_ok f"
  shows "case send_back es f s of (ok, s', out) \<Rightarrow>
    (ok \<longrightarrow> out = batch_bytes [f] \<and> s' = s) \<and>
    (\<not> ok \<longrightarrow> (\<exists>n < 56. out = take n (batch_bytes [f])) \<and> st_echo_drops s' = st_echo_drops s + 1)"
proof -
  let ?msg = "batch_bytes [f]"
  obtain ok n where l: "send_loop es 0 ?msg = (ok, n)" by fastforce
  have len: "length ?msg = 56" using assms by (simp add: length_batch_bytes kHeaderSize_def kRecordSize_def)
  have "send_back es f s = (ok, (if ok then s else s\<lparr>st_echo_drops := st_echo_drops s + 1\<rparr>), take n ?msg)"
    using l by (simp add: send_back_eq)
  then show ?thesis using send_loop_bound [OF _ l] len by (auto intro!: exI [of _ n])
qed

theorem send_back_writes_prefix_witness:
  "wire_ok (make_echo 5 6) \<and>
   (case send_back [Accept 19, SendRefuse] (make_echo 5 6) stream_new of (ok, s', out) \<Rightarrow>
     \<not> ok \<and> (\<exists>n < 56. out = take n (batch_bytes [make_echo 5 6])) \<and> length out = 20)"
proof -
  have "length (batch_bytes [make_echo 5 6]) = 56"
    by (simp add: length_batch_bytes kHeaderSize_def kRecordSize_def)
  then have "send_loop [Accept 19, SendRefuse] 0 (batch_bytes [make_echo 5 6]) = (False, 20)" by simp
  then have e: "send_back [Accept 19, SendRefuse] (make_echo 5 6) stream_new =
      (False, stream_new\<lparr>st_echo_drops := st_echo_drops stream_new + 1\<rparr>, take 20 (batch_bytes [make_echo 5 6]))"
    by (simp add: send_back_eq del: send_loop.simps)
  show ?thesis
    using send_back_writes_prefix [of "make_echo 5 6" stream_new "[Accept 19, SendRefuse]"]
    unfolding e by (simp add: length_batch_bytes kHeaderSize_def kRecordSize_def)
qed

end
