(* ===== verification/Double.thy ===== *)
theory Double
  imports Complex_Main Prelude
begin

text \<open>
  The double-precision arithmetic the program uses for percentile ranks and for the cadence
  threshold. A double is the rational it denotes; \<open>rnd\<close> rounds a rational to 53 significant bits,
  ties to even, which is what one IEEE operation does to its exact result. The exponent range is
  not modelled: the operands here (sizes, percentages, nanosecond intervals, factors given on a
  command line) and their products stay far inside it.
\<close>

section \<open>Rounding\<close>

fun bit_length :: "nat \<Rightarrow> nat" where
  "bit_length n = (if n = 0 then 0 else Suc (bit_length (n div 2)))"

declare bit_length.simps [simp del]

text \<open>The exponent: \<open>2^e \<le> x < 2^(e+1)\<close>.\<close>

definition ilog2 :: "rat \<Rightarrow> int" where
  "ilog2 x = (case quotient_of x of (a, b) \<Rightarrow>
     let k = int (bit_length (nat a)) - int (bit_length (nat b))
     in if 2 powi k \<le> x then k else k - 1)"

definition round_even :: "rat \<Rightarrow> int" where
  "round_even y =
     (let f = \<lfloor>y\<rfloor>; d = y - of_int f
      in if d < 1 / 2 then f else if d > 1 / 2 then f + 1 else if even f then f else f + 1)"

definition rnd_pos :: "rat \<Rightarrow> rat" where
  "rnd_pos x = (let s = 2 powi (52 - ilog2 x) in of_int (round_even (x * s)) / s)"

definition rnd :: "rat \<Rightarrow> rat" where
  "rnd x = (if x = 0 then 0 else if x < 0 then - rnd_pos (- x) else rnd_pos x)"

section \<open>Facts\<close>

lemma bit_length_bounds: "0 < n \<Longrightarrow> 2 ^ (bit_length n - 1) \<le> n \<and> n < 2 ^ bit_length n \<and> 0 < bit_length n"
proof (induction n rule: bit_length.induct)
  case (1 n)
  then have b: "bit_length n = Suc (bit_length (n div 2))" by (simp add: bit_length.simps [of n])
  show ?case
  proof (cases "n div 2 = 0")
    case True
    then have "n = 1" using 1(2) by simp
    then show ?thesis by (simp add: bit_length.simps)
  next
    case False
    then have IH: "2 ^ (bit_length (n div 2) - 1) \<le> n div 2" "n div 2 < 2 ^ bit_length (n div 2)"
        "0 < bit_length (n div 2)" using 1 by auto
    have "2 * 2 ^ (bit_length (n div 2) - 1) = (2 :: nat) ^ bit_length (n div 2)"
      using IH(3) by (simp add: power_eq_if)
    then have "2 ^ bit_length (n div 2) \<le> n" using IH(1) by linarith
    moreover have "n < 2 * 2 ^ bit_length (n div 2)" using IH(2) by linarith
    ultimately show ?thesis by (simp add: b)
  qed
qed

lemma ilog2_bounds:
  assumes "0 < x"
  shows "2 powi ilog2 x \<le> x" "x < 2 powi (ilog2 x + 1)"
proof -
  obtain a b where q: "quotient_of x = (a, b)" by fastforce
  have b: "b > 0" using quotient_of_denom_pos [OF q] .
  have x: "x = of_int a / of_int b" using quotient_of_div [OF q] .
  then have a: "a > 0" using assms b by (simp add: zero_less_divide_iff)
  define i j where "i = bit_length (nat a)" and "j = bit_length (nat b)"
  have A: "2 ^ (i - 1) \<le> nat a" "nat a < 2 ^ i" "0 < i" using bit_length_bounds [of "nat a"] a by (auto simp: i_def)
  have B: "2 ^ (j - 1) \<le> nat b" "nat b < 2 ^ j" "0 < j" using bit_length_bounds [of "nat b"] b by (auto simp: j_def)
  have up: "rat_of_int a < 2 ^ i" "rat_of_int b < 2 ^ j"
    using A(2) B(2) a b by (metis nat_less_iff of_int_less_iff of_int_numeral of_int_power of_nat_numeral of_nat_power zless_nat_eq_int_zless order_less_imp_le)+
  have lo: "2 ^ (i - 1) \<le> rat_of_int a" "2 ^ (j - 1) \<le> rat_of_int b"
    using A(1) B(1) a b by (metis nat_le_eq_zle of_int_le_iff of_int_numeral of_int_power of_nat_numeral of_nat_power int_nat_eq nat_int zero_less_imp_eq_int of_nat_le_iff order_less_imp_le)+
  have pi: "(2 :: rat) ^ i = 2 * 2 ^ (i - 1)" "(2 :: rat) ^ j = 2 * 2 ^ (j - 1)"
    using A(3) B(3) by (simp_all add: power_eq_if)
  have k: "(2 :: rat) powi (int i - int j) = 2 ^ i / 2 ^ j" by (simp add: power_int_diff)
  have "x < 2 ^ i / 2 ^ (j - 1)" unfolding x using up(1) lo(2) a b
    by (intro frac_less) simp_all
  then have hi: "x < 2 * 2 powi (int i - int j)" using k pi(2) by simp
  have "2 ^ (i - 1) / 2 ^ j < x" unfolding x using lo(1) up(2) b
    by (intro frac_less2) simp_all
  then have lw: "2 powi (int i - int j) / 2 \<le> x" using k pi(1) by simp
  have e: "ilog2 x = (if 2 powi (int i - int j) \<le> x then int i - int j else int i - int j - 1)"
    by (simp add: ilog2_def q i_def j_def)
  show "2 powi ilog2 x \<le> x" using e lw by (auto simp: power_int_diff)
  show "x < 2 powi (ilog2 x + 1)"
  proof (cases "2 powi (int i - int j) \<le> x")
    case True
    then show ?thesis using e hi by (simp add: power_int_add)
  next
    case False
    then have "ilog2 x + 1 = int i - int j" using e by simp
    then show ?thesis using False by simp
  qed
qed

lemma round_even_near: "\<bar>of_int (round_even y) - y\<bar> \<le> 1 / 2"
proof -
  define f where "f = \<lfloor>y\<rfloor>"
  have "of_int f \<le> y" "y < of_int f + 1" unfolding f_def by linarith+
  then show ?thesis unfolding round_even_def f_def [symmetric] Let_def abs_if by auto
qed

text \<open>A value within less than half of an integer rounds to it.\<close>

lemma round_even_close: "\<bar>y - of_int k\<bar> < 1 / 2 \<Longrightarrow> round_even y = k"
proof -
  assume "\<bar>y - of_int k\<bar> < 1 / 2"
  then have "\<bar>of_int (round_even y) - of_int k\<bar> < (1 :: rat)" using round_even_near [of y] by linarith
  then have "\<bar>round_even y - k\<bar> < 1" by (metis of_int_abs of_int_diff of_int_less_1_iff)
  then show ?thesis by simp
qed

text \<open>The scale that turns a value into its 53-bit significand.\<close>

definition scale :: "rat \<Rightarrow> rat" where
  "scale x = 2 powi (52 - ilog2 x)"

lemma rnd_scale: "0 < x \<Longrightarrow> rnd x = of_int (round_even (x * scale x)) / scale x"
  by (simp add: rnd_def rnd_pos_def scale_def Let_def)

lemma scale_bounds:
  assumes "0 < x"
  shows "0 < scale x" "2 ^ 52 \<le> x * scale x" "x * scale x < 2 ^ 53"
proof -
  show s: "0 < scale x" by (simp add: scale_def)
  have e: "scale x * 2 powi ilog2 x = 2 ^ 52"
    by (simp add: scale_def power_int_diff)
  show "2 ^ 52 \<le> x * scale x"
    using mult_right_mono [OF ilog2_bounds(1) [OF assms], of "scale x"] s e by (simp add: mult.commute)
  have "x * scale x < 2 powi (ilog2 x + 1) * scale x"
    using ilog2_bounds(2) [OF assms] s by (rule mult_strict_right_mono)
  also have "\<dots> = 2 ^ 53" using e by (simp add: power_int_add mult.commute mult.left_commute)
  finally show "x * scale x < 2 ^ 53" .
qed

text \<open>Below \<open>2^53\<close> the scale is a whole number, so whole numbers scale to whole numbers.\<close>

lemma scale_int:
  assumes "0 < x" "x < 2 ^ 53"
  obtains m :: nat where "scale x = 2 ^ m"
proof -
  have "ilog2 x \<le> 52"
  proof (rule ccontr)
    assume "\<not> ilog2 x \<le> 52"
    then have "(2 :: rat) powi 53 \<le> 2 powi ilog2 x" by (intro power_int_increasing) auto
    then show False using ilog2_bounds(1) [OF assms(1)] assms(2) by simp
  qed
  then have "scale x = 2 ^ nat (52 - ilog2 x)" by (simp add: scale_def power_int_def)
  then show thesis by (rule that)
qed

text \<open>A value close enough to a whole number rounds to it.\<close>

lemma rnd_near_int:
  assumes "0 < x" "x < 2 ^ 53" "\<bar>x - of_int k\<bar> * scale x < 1 / 2"
  shows "rnd x = of_int k"
proof -
  obtain m where m: "scale x = 2 ^ m" by (rule scale_int [OF assms(1,2)])
  have "x * scale x - of_int (k * 2 ^ m) = (x - of_int k) * scale x"
    by (simp add: m algebra_simps)
  then have "\<bar>x * scale x - of_int (k * 2 ^ m)\<bar> < 1 / 2" using assms(3) by (simp add: abs_mult m)
  then have "round_even (x * scale x) = k * 2 ^ m" by (rule round_even_close)
  then show ?thesis using assms(1) by (simp add: rnd_scale m)
qed

lemma rnd_of_nat: "n < 2 ^ 53 \<Longrightarrow> rnd (of_nat n) = of_nat n"
proof (cases "n = 0")
  case False
  assume "n < 2 ^ 53"
  then have "rat_of_nat n < 2 ^ 53" by (metis of_nat_less_iff of_nat_numeral of_nat_power)
  then show ?thesis using rnd_near_int [of "of_nat n" "int n"] False by simp
qed (simp add: rnd_def)

lemma rnd_0 [simp]: "rnd 0 = 0"
  by (simp add: rnd_def)

text \<open>Rounding moves a value by at most half a unit in the last place.\<close>

lemma rnd_error: "0 < x \<Longrightarrow> \<bar>rnd x - x\<bar> * scale x \<le> 1 / 2"
proof -
  assume x: "0 < x"
  have s: "0 < scale x" using scale_bounds(1) [OF x] .
  have "(rnd x - x) * scale x = of_int (round_even (x * scale x)) - x * scale x"
    using s by (simp add: rnd_scale [OF x] left_diff_distrib)
  then show ?thesis using round_even_near [of "x * scale x"] s by (metis abs_mult abs_of_pos)
qed

end
