(* ===== verification/Samples.thy ===== *)
theory Samples
  imports Double
begin

text \<open>
  The bounded sample buffer and its percentiles (\<^verbatim>\<open>src/samples.hpp\<close>, \<^verbatim>\<open>src/samples.cpp\<close>). Values are
  integers; the rank of a percentile goes through two double operations, as in the code.
\<close>

section \<open>Definitions\<close>

record percentiles =
  pc_count :: u64
  pc_min :: i64
  pc_max :: i64
  pc_mean :: rat
  pc_p50 :: i64
  pc_p90 :: i64
  pc_p99 :: i64
  pc_p999 :: i64

definition percentiles0 :: percentiles where
  "percentiles0 = \<lparr>pc_count = 0, pc_min = 0, pc_max = 0, pc_mean = 0, pc_p50 = 0, pc_p90 = 0,
     pc_p99 = 0, pc_p999 = 0\<rparr>"

text \<open>The literals \<open>0.50\<close>, \<open>0.90\<close>, \<open>0.99\<close> and \<open>0.999\<close>, as doubles.\<close>

definition lit50 :: rat where "lit50 = rnd (1 / 2)"
definition lit90 :: rat where "lit90 = rnd (9 / 10)"
definition lit99 :: rat where "lit99 = rnd (99 / 100)"
definition lit999 :: rat where "lit999 = rnd (999 / 1000)"

definition rank_index :: "nat \<Rightarrow> rat \<Rightarrow> nat" where
  "rank_index n p =
     (let idx = nat \<lceil>rnd (p * rnd (of_nat n))\<rceil>;
          idx = (if idx = 0 then 1 else idx);
          idx = (if idx > n then n else idx)
      in idx - 1)"

definition nearest_rank :: "i64 list \<Rightarrow> rat \<Rightarrow> i64" where
  "nearest_rank xs p = (if xs = [] then 0 else xs ! rank_index (length xs) p)"

text \<open>\<open>percentiles_of\<close> sorts its argument in place; it returns the sorted values too.\<close>

definition percentiles_of :: "i64 list \<Rightarrow> percentiles \<times> i64 list" where
  "percentiles_of values =
     (if values = [] then (percentiles0, values)
      else let v = sort values
           in (\<lparr>pc_count = of_nat (length v), pc_min = hd v, pc_max = last v,
                pc_mean = rnd (rnd (of_int (sum_list v)) / rnd (of_nat (length v))),
                pc_p50 = nearest_rank v lit50, pc_p90 = nearest_rank v lit90,
                pc_p99 = nearest_rank v lit99, pc_p999 = nearest_rank v lit999\<rparr>, v))"

record samples =
  sm_values :: "i64 list"
  sm_capacity :: nat
  sm_total :: u64
  sm_stride :: u64
  sm_seen :: u64

definition samples_new :: "nat \<Rightarrow> samples" where
  "samples_new capacity = \<lparr>sm_values = [], sm_capacity = (if capacity = 0 then 1 else capacity),
     sm_total = 0, sm_stride = 1, sm_seen = 0\<rparr>"

text \<open>The compaction loop of \<open>decimate\<close>: index \<open>i\<close> steps by two.\<close>

fun every_second :: "'a list \<Rightarrow> 'a list" where
  "every_second [] = []"
| "every_second [x] = [x]"
| "every_second (x # y # xs) = x # every_second xs"

definition decimate :: "samples \<Rightarrow> samples" where
  "decimate s = s\<lparr>sm_values := every_second (sm_values s), sm_stride := sm_stride s * 2\<rparr>"

definition samples_add :: "i64 \<Rightarrow> samples \<Rightarrow> samples" where
  "samples_add value s =
     (let s = s\<lparr>sm_total := sm_total s + 1, sm_seen := sm_seen s + 1\<rparr> in
      if sm_seen s < sm_stride s then s
      else let s = s\<lparr>sm_seen := 0, sm_values := sm_values s @ [value]\<rparr>
           in if length (sm_values s) \<ge> sm_capacity s then decimate s else s)"

definition samples_compute :: "samples \<Rightarrow> percentiles" where
  "samples_compute s = (fst (percentiles_of (sm_values s)))\<lparr>pc_count := sm_total s\<rparr>"

section \<open>Ranks\<close>

lemma lit_values:
  "lit50 = 1 / 2" "lit90 = 8106479329266893 / 9007199254740992"
  "lit99 = 8917127262193582 / 9007199254740992" "lit999 = 8998192055486251 / 9007199254740992"
  by code_simp+

text \<open>A double \<open>d\<close> that is within \<open>2^-54\<close> of the intended \<open>m/1000\<close>, relatively, gives the rank of the
  intended percentile: the rounding of the product never crosses a whole number.\<close>

lemma ceil_rank:
  fixes d :: rat and m n :: nat
  assumes d: "0 < d" "d \<le> 1" "\<bar>d - of_nat m / 1000\<bar> < d / 2 ^ 54" and n: "0 < n" "n \<le> 2 ^ 40"
  shows "\<lceil>rnd (d * rnd (of_nat n))\<rceil> = \<lceil>of_nat (m * n) / (1000 :: rat)\<rceil>"
proof -
  let ?x = "d * of_nat n" and ?q = "of_nat (m * n) / (1000 :: rat)"
  define k where "k = \<lceil>?q\<rceil>"
  have n_rat: "0 < rat_of_nat n" "rat_of_nat n \<le> 2 ^ 40"
    using n by (simp, metis of_nat_le_iff of_nat_numeral of_nat_power)
  have x: "0 < ?x" using d(1) n_rat(1) by simp
  have xn: "?x \<le> 2 ^ 40" using mult_mono [OF d(2) n_rat(2)] d(1) by simp
  then have x53: "?x < 2 ^ 53" by simp
  note sc = scale_bounds [OF x]
  have "?x - ?q = (d - of_nat m / 1000) * of_nat n" by (simp add: left_diff_distrib)
  then have diff: "\<bar>?x - ?q\<bar> < ?x / 2 ^ 54"
    using d(3) n_rat(1) by (simp add: abs_mult mult_strict_right_mono [of _ "d / 2 ^ 54"] times_divide_eq_left [symmetric] del: times_divide_eq_left)
  have r: "rnd (d * rnd (of_nat n)) = rnd ?x" using rnd_of_nat [of n] n by simp
  show ?thesis
  proof (cases "of_int k = ?q")
    case True
    have "\<bar>?x - of_int k\<bar> < ?x / 2 ^ 54" using diff unfolding True [symmetric] .
    then have "\<bar>?x - of_int k\<bar> * scale ?x < ?x / 2 ^ 54 * scale ?x"
      using sc(1) by (rule mult_strict_right_mono)
    also have "\<dots> < 1 / 2" using sc(3) by simp
    finally have "rnd ?x = of_int k" by (rule rnd_near_int [OF x x53])
    then show ?thesis using r k_def by simp
  next
    case False
    have "?q \<le> of_int k" "of_int k - 1 < ?q" unfolding k_def by linarith+
    then have "(of_int (int (m * n)) :: rat) < of_int (1000 * k)"
        "(of_int (1000 * (k - 1)) :: rat) < of_int (int (m * n))"
      using False by (simp_all add: field_simps)
    then have "int (m * n) + 1 \<le> 1000 * k" "1000 * (k - 1) + 1 \<le> int (m * n)"
      unfolding of_int_less_iff by simp_all
    then have "(of_int (int (m * n) + 1) :: rat) \<le> of_int (1000 * k)"
        "(of_int (1000 * (k - 1) + 1) :: rat) \<le> of_int (int (m * n))"
      unfolding of_int_le_iff .
    then have gap: "?q \<le> of_int k - 1 / 1000" "of_int k - 1 + 1 / 1000 \<le> ?q"
      by (simp_all add: field_simps)
    have "?x / 2 ^ 54 \<le> 2 ^ 40 / 2 ^ 54" using xn by (intro divide_right_mono) simp_all
    then have near: "\<bar>?x - ?q\<bar> < 1 / 16384" using diff by simp
    have "2 ^ 52 \<le> 2 ^ 40 * scale ?x" using sc(1,2) mult_right_mono [OF xn, of "scale ?x"] by linarith
    then have "2 ^ 12 \<le> scale ?x" by simp
    then have "\<bar>rnd ?x - ?x\<bar> * 2 ^ 12 \<le> \<bar>rnd ?x - ?x\<bar> * scale ?x" by (intro mult_left_mono) simp_all
    then have "\<bar>rnd ?x - ?x\<bar> * 2 ^ 12 \<le> 1 / 2" using rnd_error [OF x] by linarith
    then have "\<bar>rnd ?x - ?x\<bar> \<le> 1 / 8192" by simp
    then have "of_int k - 1 < rnd ?x" "rnd ?x \<le> of_int k" using gap near by linarith+
    then have "\<lceil>rnd ?x\<rceil> = k" by linarith
    then show ?thesis using r k_def by simp
  qed
qed

lemma rank_index_eq:
  assumes "0 < n" "n \<le> 2 ^ 40"
    and "(p, m) \<in> {(lit50, 500), (lit90, 900), (lit99, 990), (lit999, 999)}"
  shows "rank_index n p = nat \<lceil>of_nat (m * n) / (1000 :: rat)\<rceil> - 1 \<and> rank_index n p < n"
proof -
  have d: "0 < p" "p \<le> 1" "\<bar>p - of_nat m / 1000\<bar> < p / 2 ^ 54"
    using assms(3) by (auto simp: lit_values)
  have m: "0 < m" "m \<le> 1000" using assms(3) by auto
  let ?k = "\<lceil>of_nat (m * n) / (1000 :: rat)\<rceil>"
  have "0 < m * n" using m assms(1) by simp
  then have "0 < of_nat (m * n) / (1000 :: rat)" by simp
  then have k1: "1 \<le> ?k" by linarith
  have "m * n \<le> 1000 * n" using m(2) by simp
  then have "of_nat (m * n) \<le> (of_nat (1000 * n) :: rat)" unfolding of_nat_le_iff .
  then have "of_nat (m * n) / (1000 :: rat) \<le> of_nat n" by simp
  then have kn: "?k \<le> int n" by (simp add: ceiling_le_iff)
  show ?thesis
    using ceil_rank [OF d assms(1,2)] k1 kn assms(1) by (auto simp: rank_index_def Let_def)
qed

text \<open>(C40) The percentile rank is exact. For every buffer of up to \<open>2^40\<close> samples, the index computed in
  double precision (a literal that is not exactly representable, a rounded product, a ceiling) is
  \<open>ceil(p * n) - 1\<close> for the percentile \<open>p\<close> that is meant, and it is a valid index.\<close>

theorem rank_index_exact:
  assumes "0 < n" "n \<le> 2 ^ 40"
    and "(p, m) \<in> {(lit50, 500), (lit90, 900), (lit99, 990), (lit999, 999)}"
  shows "rank_index n p = nat \<lceil>of_nat (m * n) / (1000 :: rat)\<rceil> - 1 \<and> rank_index n p < n"
  using assms by (rule rank_index_eq)

theorem rank_index_exact_witness:
  "rank_index 10 lit90 = 8 \<and> rank_index 1000 lit999 = 998"
  using rank_index_exact [of 10 lit90 900] rank_index_exact [of 1000 lit999 999] by simp

section \<open>Percentiles\<close>

lemma rank_index_mono:
  fixes a b :: nat
  assumes n: "0 < n" "n \<le> 2 ^ 40"
    and p: "(p, a) \<in> {(lit50, 500), (lit90, 900), (lit99, 990), (lit999, 999)}"
    and q: "(q, b) \<in> {(lit50, 500), (lit90, 900), (lit99, 990), (lit999, 999)}" and "a \<le> b"
  shows "rank_index n p \<le> rank_index n q"
proof -
  have "of_nat (a * n) \<le> (of_nat (b * n) :: rat)" using assms(5) unfolding of_nat_le_iff by simp
  then have "of_nat (a * n) / (1000 :: rat) \<le> of_nat (b * n) / 1000" by (rule divide_right_mono) simp
  then have "nat \<lceil>of_nat (a * n) / (1000 :: rat)\<rceil> - 1 \<le> nat \<lceil>of_nat (b * n) / (1000 :: rat)\<rceil> - 1"
    by (intro diff_le_mono nat_mono ceiling_mono)
  then show ?thesis using rank_index_eq [OF n p] rank_index_eq [OF n q] by simp
qed

lemma percentile_values:
  assumes "values \<noteq> []" "length values \<le> 2 ^ 40"
  shows "let p = fst (percentiles_of values) in
    pc_min p \<le> pc_p50 p \<and> pc_p50 p \<le> pc_p90 p \<and> pc_p90 p \<le> pc_p99 p \<and> pc_p99 p \<le> pc_p999 p \<and>
    pc_p999 p \<le> pc_max p \<and> {pc_min p, pc_p50 p, pc_p90 p, pc_p99 p, pc_p999 p, pc_max p} \<subseteq> set values \<and>
    (\<forall>v \<in> set values. pc_min p \<le> v \<and> v \<le> pc_max p)"
proof -
  let ?v = "sort values" and ?n = "length values"
  have ne: "?v \<noteq> []" using assms(1) by (metis length_sort length_0_conv)
  have s: "sorted ?v" by simp
  have n: "0 < ?n" "?n \<le> 2 ^ 40" using assms by simp_all
  have lt: "rank_index ?n p < ?n" if "(p, a) \<in> {(lit50, 500), (lit90, 900), (lit99, 990), (lit999, 999)}"
    for p and a :: nat using rank_index_eq [OF n that] by simp
  let ?r = "\<lambda>p. ?v ! rank_index ?n p"
  have le: "?r p \<le> ?r q"
    if "(p, a) \<in> {(lit50, 500), (lit90, 900), (lit99, 990), (lit999, 999)}"
      "(q, b) \<in> {(lit50, 500), (lit90, 900), (lit99, 990), (lit999, 999)}" "a \<le> b"
    for p q and a b :: nat
    using sorted_nth_mono [OF s rank_index_mono [OF n that]] lt [OF that(2)] by simp
  have mem: "?r p \<in> set values" if "(p, a) \<in> {(lit50, 500), (lit90, 900), (lit99, 990), (lit999, 999)}"
    for p and a :: nat using lt [OF that] nth_mem [of "rank_index ?n p" ?v] by simp
  have bounds: "hd ?v \<le> v \<and> v \<le> last ?v" if "v \<in> set values" for v
  proof -
    from that have "v \<in> set ?v" by simp
    then obtain i where "i < length ?v" "?v ! i = v" by (metis in_set_conv_nth)
    then show ?thesis using sorted_nth_mono [OF s, of 0 i] sorted_nth_mono [OF s, of i "length ?v - 1"] ne
      by (auto simp: hd_conv_nth last_conv_nth)
  qed
  have ends: "hd ?v \<in> set values" "last ?v \<in> set values"
    using hd_in_set [OF ne] last_in_set [OF ne] by simp_all
  note lits = le [of lit50 500 lit90 900] le [of lit90 900 lit99 990] le [of lit99 990 lit999 999]
    mem [of lit50 500] mem [of lit90 900] mem [of lit99 990] mem [of lit999 999]
  have "fst (percentiles_of values) = \<lparr>pc_count = of_nat ?n, pc_min = hd ?v, pc_max = last ?v,
      pc_mean = rnd (rnd (of_int (sum_list ?v)) / rnd (of_nat ?n)),
      pc_p50 = ?r lit50, pc_p90 = ?r lit90, pc_p99 = ?r lit99, pc_p999 = ?r lit999\<rparr>"
    using assms(1) ne by (simp add: percentiles_of_def nearest_rank_def Let_def)
  then show ?thesis using lits bounds ends by (simp add: Let_def)
qed

text \<open>The summary of a non-empty buffer is made of retained samples, in order: minimum, median, 90th,
  99th and 99.9th percentile and maximum are values of the buffer and do not decrease.\<close>

theorem percentiles_ordered:
  assumes "values \<noteq> []" "length values \<le> 2 ^ 40"
  shows "let p = fst (percentiles_of values) in
    pc_min p \<le> pc_p50 p \<and> pc_p50 p \<le> pc_p90 p \<and> pc_p90 p \<le> pc_p99 p \<and> pc_p99 p \<le> pc_p999 p \<and>
    pc_p999 p \<le> pc_max p \<and> {pc_min p, pc_p50 p, pc_p90 p, pc_p99 p, pc_p999 p, pc_max p} \<subseteq> set values \<and>
    (\<forall>v \<in> set values. pc_min p \<le> v \<and> v \<le> pc_max p)"
  using percentile_values [OF assms] .

theorem percentiles_ordered_witness:
  "let p = fst (percentiles_of [30, 10, 20]) in pc_min p \<le> pc_p50 p \<and> pc_p999 p \<le> pc_max p"
  using percentiles_ordered [of "[30, 10, 20]"] by (simp add: Let_def)

section \<open>The buffer\<close>

lemma length_every_second: "length (every_second xs) = (length xs + 1) div 2"
  by (induction xs rule: every_second.induct) auto

text \<open>A run of samples through a fresh buffer.\<close>

definition add_all :: "i64 list \<Rightarrow> samples \<Rightarrow> samples" where
  "add_all xs s = fold samples_add xs s"

text \<open>The positions of the retained samples, and what the buffer promises about them: consecutive ones
  are at least a stride and less than two strides apart, and the count since the last one agrees.\<close>

definition spaced :: "nat \<Rightarrow> nat list \<Rightarrow> bool" where
  "spaced d is \<longleftrightarrow> (\<forall>j. Suc j < length is \<longrightarrow> is ! j + d \<le> is ! Suc j \<and> is ! Suc j < is ! j + 2 * d)"

lemma spaced_Cons: "spaced d (i # j # is) \<longleftrightarrow> i + d \<le> j \<and> j < i + 2 * d \<and> spaced d (j # is)"
  unfolding spaced_def by (auto simp: less_Suc_eq_0_disj nth_Cons split: nat.splits)

lemma spaced_short [simp]: "spaced d []" "spaced d [i]"
  by (simp_all add: spaced_def)

lemma every_second_Nil [simp]: "every_second xs = [] \<longleftrightarrow> xs = []"
  by (cases xs rule: every_second.cases) auto

lemma hd_every_second: "is \<noteq> [] \<Longrightarrow> hd (every_second is) = hd is"
  by (cases "is" rule: every_second.cases) auto

lemma every_second_spaced: "spaced d is \<Longrightarrow> spaced (2 * d) (every_second is)"
proof (induction "is" rule: every_second.induct)
  case (3 x y xs)
  then have xs: "spaced d xs" by (cases xs) (auto simp: spaced_Cons)
  show ?case
  proof (cases xs rule: every_second.cases)
    case 1
    then show ?thesis by simp
  next
    case (2 z)
    then show ?thesis using 3(2) by (auto simp: spaced_Cons)
  next
    case (3 z w ws)
    then show ?thesis using \<open>spaced d xs \<Longrightarrow> spaced (2 * d) (every_second xs)\<close> xs \<open>spaced d (x # y # xs)\<close>
      by (auto simp: spaced_Cons)
  qed
qed simp_all

definition buffer_inv :: "nat \<Rightarrow> i64 list \<Rightarrow> samples \<Rightarrow> nat list \<Rightarrow> bool" where
  "buffer_inv c xs s is \<longleftrightarrow>
     sm_capacity s = max 1 c \<and> sm_values s = map ((!) xs) is \<and> length is < max 2 c \<and>
     unat (sm_total s) = length xs \<and> 1 \<le> unat (sm_stride s) \<and> unat (sm_seen s) < unat (sm_stride s) \<and>
     spaced (unat (sm_stride s)) is \<and> (\<forall>i \<in> set is. i < length xs) \<and>
     (if is = [] then xs = [] \<and> unat (sm_stride s) = 1
      else hd is = 0 \<and> last is < length xs - unat (sm_seen s) \<and>
           length xs - unat (sm_seen s) \<le> last is + unat (sm_stride s) \<and> unat (sm_stride s) \<le> 2 * length xs)"

lemma spaced_append:
  "spaced d (is @ [k]) \<longleftrightarrow> spaced d is \<and> (is = [] \<or> last is + d \<le> k \<and> k < last is + 2 * d)"
proof (induction "is")
  case (Cons i js)
  then show ?case by (cases js) (auto simp: spaced_Cons)
qed simp

text \<open>Keeping every second position drops the last one or the one before it.\<close>

lemma last_every_second:
  "spaced d is \<Longrightarrow> is \<noteq> [] \<Longrightarrow> 1 \<le> d \<Longrightarrow>
    last (every_second is) \<le> last is \<and> last is < last (every_second is) + 2 * d"
proof (induction "is" rule: every_second.induct)
  case (3 x y xs)
  then show ?case by (cases xs) (auto simp: spaced_Cons hd_every_second every_second.simps split: if_splits)
qed auto

lemma every_second_map: "every_second (map f xs) = map f (every_second xs)"
  by (induction xs rule: every_second.induct) auto

lemma set_every_second: "set (every_second xs) \<subseteq> set xs"
  by (induction xs rule: every_second.induct) auto

lemma samples_add_inv:
  assumes inv: "buffer_inv c xs s is" and len: "length xs + 1 < 2 ^ 62"
  shows "\<exists>js. buffer_inv c (xs @ [x]) (samples_add x s) js"
proof -
  let ?d = "unat (sm_stride s)" and ?seen = "unat (sm_seen s)" and ?n = "length xs"
  note I = inv [unfolded buffer_inv_def]
  have le: "?seen \<le> ?n" using I by (cases "is = []") auto
  have d: "?d \<le> 2 * ?n + 1" using I by (auto split: if_splits)
  have u: "unat (sm_total s + 1) = ?n + 1" "unat (sm_seen s + 1) = ?seen + 1"
    using I len le by (simp_all add: unat_Suc_small)
  have inb: "\<forall>i \<in> set is. i < ?n" using I by blast
  let ?s1 = "s\<lparr>sm_total := sm_total s + 1, sm_seen := sm_seen s + 1\<rparr>"
  show ?thesis
  proof (cases "?seen + 1 < ?d")
    case True
    then have "samples_add x s = ?s1"
      using u(2) by (simp add: samples_add_def Let_def word_less_nat_alt)
    moreover have "is \<noteq> []" using True I by auto
    ultimately show ?thesis using I u True inb
      by (intro exI [of _ "is"]) (auto simp: buffer_inv_def nth_append)
  next
    case False
    let ?js = "is @ [?n]"
    let ?s2 = "s\<lparr>sm_total := sm_total s + 1, sm_seen := 0, sm_values := sm_values s @ [x]\<rparr>"
    have seen: "?seen + 1 = ?d" using False I by auto
    have step: "is = [] \<or> last is + ?d \<le> ?n \<and> ?n < last is + 2 * ?d"
      using I seen le by (auto split: if_splits)
    have sp: "spaced ?d ?js" using I step by (simp add: spaced_append)
    have dn: "?d \<le> ?n + 1" using I step by (auto split: if_splits)
    have hd: "hd ?js = 0" using I by (cases "is = []") (auto split: if_splits)
    have vals: "sm_values s @ [x] = map ((!) (xs @ [x])) ?js" using I inb by (auto simp: nth_append)
    have cap: "sm_capacity s = max 1 c" "length ?js \<le> max 2 c" "1 \<le> ?d" using I by auto
    have add: "samples_add x s = (if length ?js \<ge> max 1 c then decimate ?s2 else ?s2)"
      using False u(2) I by (simp add: samples_add_def Let_def word_less_nat_alt)
    show ?thesis
    proof (cases "max 1 c \<le> length ?js")
      case False
      then have "samples_add x s = ?s2" using add by simp
      then show ?thesis using sp hd vals cap u(1) dn inb False
        by (intro exI [of _ ?js]) (auto simp: buffer_inv_def)
    next
      case True
      let ?ks = "every_second ?js"
      have last: "last ?ks \<le> ?n" "?n < last ?ks + 2 * ?d"
        using last_every_second [OF sp _ cap(3)] by simp_all
      have str: "unat (sm_stride s * 2) = 2 * ?d"
        using d len by (simp add: unat_word_ariths mult.commute)
      have "length ?ks < max 2 c" using cap(2) True by (simp add: length_every_second)
      moreover have "hd ?ks = 0" using hd hd_every_second [of ?js] by simp
      moreover have "\<forall>i \<in> set ?ks. i < ?n + 1" using inb set_every_second [of ?js] by force
      moreover have "every_second (sm_values s @ [x]) = map ((!) (xs @ [x])) ?ks"
        unfolding vals every_second_map ..
      moreover have "samples_add x s = decimate ?s2" using add True by simp
      ultimately show ?thesis using every_second_spaced [OF sp] cap u(1) dn last str
        by (intro exI [of _ ?ks]) (simp add: buffer_inv_def decimate_def)
    qed
  qed
qed

lemma add_all_inv:
  assumes "length xs < 2 ^ 62"
  shows "\<exists>is. buffer_inv c xs (add_all xs (samples_new c)) is"
  using assms
proof (induction xs rule: rev_induct)
  case Nil
  then show ?case
    by (intro exI [of _ "[]"]) (auto simp: buffer_inv_def add_all_def samples_new_def max_def)
next
  case (snoc x xs)
  then obtain "is" where "buffer_inv c xs (add_all xs (samples_new c)) is" by auto
  from samples_add_inv [OF this, of x] snoc.prems show ?case by (simp add: add_all_def)
qed

text \<open>Decimation samples the whole run evenly. After any run of fewer than \<open>2^62\<close> samples the buffer
  holds values of the run, in order, starting with the first; it never exceeds its capacity (2 when
  a capacity of 1 is asked for); consecutive retained positions are at least \<open>stride\<close> and less than
  \<open>2 * stride\<close> apart, also across decimations; and every sample offered is counted.\<close>

theorem samples_spread_evenly:
  assumes "xs \<noteq> []" "length xs < 2 ^ 62"
  shows "let s = add_all xs (samples_new c) in
    \<exists>is. is \<noteq> [] \<and> hd is = 0 \<and> sm_values s = map ((!) xs) is \<and> (\<forall>i \<in> set is. i < length xs) \<and>
      length is < max 2 c \<and>
      (\<forall>j. Suc j < length is \<longrightarrow> is ! j + unat (sm_stride s) \<le> is ! Suc j \<and>
         is ! Suc j < is ! j + 2 * unat (sm_stride s)) \<and>
      unat (sm_total s) = length xs"
proof -
  obtain "is" where I: "buffer_inv c xs (add_all xs (samples_new c)) is" using add_all_inv assms(2) by blast
  then have "is \<noteq> []" using assms(1) by (auto simp: buffer_inv_def)
  then show ?thesis using I unfolding Let_def
    by (intro exI [of _ "is"]) (simp add: buffer_inv_def spaced_def)
qed

theorem samples_spread_evenly_witness:
  "let s = add_all [5, 6, 7, 8, 9] (samples_new 4) in
    \<exists>is. is \<noteq> [] \<and> hd is = 0 \<and> sm_values s = map ((!) [5, 6, 7, 8, 9]) is \<and> length is < 4 \<and> unat (sm_total s) = 5"
  using samples_spread_evenly [of "[5, 6, 7, 8, 9]" 4] unfolding Let_def by fastforce

end
