(* ===== verification/Egress.thy ===== *)
theory Egress
  imports Feed Frame_Stream Samples
begin

text \<open>
  One consumer's outbound path (\<^verbatim>\<open>src/egress.hpp\<close>, \<^verbatim>\<open>src/egress.cpp\<close>): a thread that takes frames from its
  feed, prepends a gap marker when the sequence numbers jumped, injects round-trip probes, encodes
  a batch and writes it to the one connected client. System calls, clock readings and the client
  are a script (\<open>run_env\<close> for one turn of the loop); the feed is the pair of operations the loop
  calls. Two components of the state are ghosts nothing reads: the bytes the current connection
  has accepted, and the batches completely sent on it.
\<close>

section \<open>State\<close>

definition kDefaultBatch :: nat where "kDefaultBatch = 256"
definition kMaxBatch :: nat where "kMaxBatch = 4096"

record tuning =
  tn_max_frames :: nat
  tn_linger_us :: u32
  tn_echo_ms :: u32

record egress =
  e_tuning :: tuning
  e_client :: bool
  e_pending :: "u8 list"
  e_pending_offset :: nat
  e_outgoing :: "frame list"
  e_next_seq :: u64
  e_have_seq :: bool
  e_reconnected :: bool
  e_echo_nonce :: u64
  e_echo_sent_ns :: u64
  e_echo_outstanding :: bool
  e_next_echo_ns :: u64
  e_reply_buf :: "u8 list"
  e_rtt :: samples
  e_frames_sent :: u64
  e_batches_sent :: u64
  e_bytes_sent :: u64
  e_would_block :: u64
  e_partial_writes :: u64
  e_connects :: u64
  e_disconnects :: u64
  e_echoes_sent :: u64
  e_echoes_returned :: u64
  e_echoes_lost :: u64
  e_lingered :: u64
  e_gaps_sent :: u64
  e_frames_lost :: u64
  e_connected :: bool
  e_wire :: "u8 list"
  e_done :: "frame list list"

definition egress_new :: "tuning \<Rightarrow> egress" where
  "egress_new t = \<lparr>e_tuning = t, e_client = False, e_pending = [], e_pending_offset = 0, e_outgoing = [],
     e_next_seq = 0, e_have_seq = False, e_reconnected = False, e_echo_nonce = 0, e_echo_sent_ns = 0,
     e_echo_outstanding = False, e_next_echo_ns = 0, e_reply_buf = [], e_rtt = samples_new (2 ^ 14),
     e_frames_sent = 0, e_batches_sent = 0, e_bytes_sent = 0, e_would_block = 0, e_partial_writes = 0,
     e_connects = 0, e_disconnects = 0, e_echoes_sent = 0, e_echoes_returned = 0, e_echoes_lost = 0,
     e_lingered = 0, e_gaps_sent = 0, e_frames_lost = 0, e_connected = False, e_wire = [], e_done = []\<rparr>"

section \<open>Round-trip probes\<close>

definition maybe_send_echo :: "u64 \<Rightarrow> egress \<Rightarrow> egress" where
  "maybe_send_echo now s =
     (if tn_echo_ms (e_tuning s) = 0 \<or> \<not> e_client s then s
      else if now < e_next_echo_ns s then s
      else
        let s1 = (if e_echo_outstanding s then s\<lparr>e_echoes_lost := e_echoes_lost s + 1\<rparr> else s);
            nonce = e_echo_nonce s1 + 1
        in s1\<lparr>e_echo_nonce := nonce, e_echo_sent_ns := now, e_echo_outstanding := True,
             e_next_echo_ns := now + ucast (tn_echo_ms (e_tuning s1)) * 1000000,
             e_outgoing := e_outgoing s1 @ [make_echo nonce now],
             e_echoes_sent := e_echoes_sent s1 + 1\<rparr>)"

text \<open>The receive loop of \<open>drain_replies\<close>: one list per successful \<open>recv\<close>.\<close>

definition recv_reply :: "u8 list \<Rightarrow> u8 list \<Rightarrow> u8 list" where
  "recv_reply chunk buf = (let b = buf @ chunk in if length b > 64 * 1024 then [] else b)"

text \<open>One record of a reply; \<open>now\<close> is the clock when it is handled. The difference of the two clock
  readings is taken on signed 64-bit numbers.\<close>

definition handle_reply :: "u64 \<Rightarrow> u8 list \<Rightarrow> egress \<Rightarrow> egress" where
  "handle_reply now p s =
     (case decode_frame p of
        Inl _ \<Rightarrow> s
      | Inr f \<Rightarrow>
          if \<not> is_echo f \<or> \<not> e_echo_outstanding s \<or> echo_nonce f \<noteq> e_echo_nonce s then s
          else s\<lparr>e_rtt := samples_add (sint now - sint (e_echo_sent_ns s)) (e_rtt s),
                 e_echo_outstanding := False, e_echoes_returned := e_echoes_returned s + 1\<rparr>)"

text \<open>The parse loop: \<open>buf\<close> is \<open>reply_buf_\<close> from \<open>off\<close> on; the result is what is left in it.\<close>

function parse_replies :: "u64 \<Rightarrow> u8 list \<Rightarrow> egress \<Rightarrow> u8 list \<times> egress" where
  "parse_replies now buf s =
     (if length buf < kHeaderSize then (buf, s)
      else case decode_header (get 0 kHeaderSize buf) of
        Inl _ \<Rightarrow> ([], s)
      | Inr h \<Rightarrow>
          if length buf < kHeaderSize + unat (bh_payload_len h) then (buf, s)
          else parse_replies now (drop (kHeaderSize + unat (bh_payload_len h)) buf)
                 (fold (\<lambda>i. handle_reply now (get (kHeaderSize + i * kRecordSize) kRecordSize buf))
                    [0..<unat (bh_count h)] s))"
  by pat_completeness auto
termination
  by (relation "measure (\<lambda>(now, buf, s). length buf)") (auto simp: kHeaderSize_def)

declare parse_replies.simps [simp del]

definition drain_replies :: "u8 list list \<Rightarrow> u64 \<Rightarrow> egress \<Rightarrow> egress" where
  "drain_replies chunks now s =
     (if \<not> e_client s then s
      else let buf = fold recv_reply chunks (e_reply_buf s); (rest, s1) = parse_replies now buf s
           in s1\<lparr>e_reply_buf := rest\<rparr>)"

section \<open>Taking frames\<close>

text \<open>\<open>coalesce\<close>: one clock reading for the deadline, then one per turn of the loop; a script that runs
  out of readings has reached the deadline. \<open>pop\<close> is the feed's \<open>pop_batch\<close>.\<close>

fun coalesce_loop :: "(nat \<Rightarrow> 'f \<Rightarrow> (frame list \<times> 'f) option) \<Rightarrow> nat \<Rightarrow> u64 \<Rightarrow> u64 list \<Rightarrow> bool \<Rightarrow>
    frame list \<Rightarrow> 'f \<Rightarrow> (frame list \<times> bool \<times> 'f) option" where
  "coalesce_loop pop limit deadline [] waited batch fd = Some (batch, waited, fd)"
| "coalesce_loop pop limit deadline (now # nows) waited batch fd =
     (if \<not> length batch < limit \<or> now \<ge> deadline then Some (batch, waited, fd)
      else Option.bind (pop (limit - length batch) fd) (\<lambda>(more, fd').
        if more = [] then Some (batch, waited, fd')
        else coalesce_loop pop limit deadline nows True (batch @ more) fd'))"

definition coalesce :: "(nat \<Rightarrow> 'f \<Rightarrow> (frame list \<times> 'f) option) \<Rightarrow> u64 \<Rightarrow> u64 list \<Rightarrow>
    frame list \<Rightarrow> egress \<Rightarrow> 'f \<Rightarrow> (frame list \<times> egress \<times> 'f) option" where
  "coalesce pop start nows batch s fd =
     (if tn_linger_us (e_tuning s) = 0 \<or> length batch \<ge> tn_max_frames (e_tuning s)
      then Some (batch, s, fd)
      else map_option (\<lambda>(b, waited, fd').
             (b, (if waited then s\<lparr>e_lingered := e_lingered s + 1\<rparr> else s), fd'))
           (coalesce_loop pop (tn_max_frames (e_tuning s))
              (start + ucast (tn_linger_us (e_tuning s)) * 1000) nows False batch fd))"

section \<open>The client\<close>

definition drop_client :: "egress \<Rightarrow> egress" where
  "drop_client s =
     (if e_client s
      then s\<lparr>e_client := False, e_pending := [], e_pending_offset := 0, e_reply_buf := [],
             e_echo_outstanding := False, e_reconnected := True, e_connected := False,
             e_disconnects := e_disconnects s + 1\<rparr>
      else s)"

text \<open>One turn of \<open>wait_for_client\<close>: \<open>poll\<close> was interrupted, failed, saw the stop event, saw a connection
  that \<open>accept\<close> returned, or ended with neither (a timeout, or an \<open>accept\<close> that failed).\<close>

datatype accept_event = AccIntr | AccFail | AccStop | AccClient | AccNone

datatype wait_result = HasClient | Stopped | StillWaiting

fun wait_for_client :: "accept_event list \<Rightarrow> egress \<Rightarrow> wait_result \<times> egress" where
  "wait_for_client [] s = ((if e_client s then HasClient else StillWaiting), s)"
| "wait_for_client (e # es) s =
     (if e_client s then (HasClient, s)
      else case e of
        AccIntr \<Rightarrow> wait_for_client es s
      | AccFail \<Rightarrow> (Stopped, s)
      | AccStop \<Rightarrow> (Stopped, s)
      | AccClient \<Rightarrow> wait_for_client es
          (s\<lparr>e_client := True, e_connected := True, e_connects := e_connects s + 1, e_wire := [], e_done := []\<rparr>)
      | AccNone \<Rightarrow> wait_for_client es s)"

text \<open>\<open>client_gone\<close>: \<open>hup\<close> is whether \<open>poll\<close> reported one of the four hang-up conditions.\<close>

definition client_gone :: "bool \<Rightarrow> egress \<Rightarrow> bool" where
  "client_gone hup s \<longleftrightarrow> (if \<not> e_client s then True else hup)"

section \<open>Sending\<close>

definition note_gap :: "u64 \<Rightarrow> frame list \<Rightarrow> egress \<Rightarrow> egress" where
  "note_gap now frames s =
     (if frames = [] then s
      else
        let s = s\<lparr>e_outgoing := []\<rparr>;
            s = (if e_have_seq s \<and> seq (hd frames) > e_next_seq s
                 then let missing = seq (hd frames) - e_next_seq s;
                          reason = (if e_reconnected s then kConsumerAbsent else kConsumerOverrun);
                          s = s\<lparr>e_outgoing := e_outgoing s @ [make_gap (e_next_seq s) missing reason now],
                                e_gaps_sent := e_gaps_sent s + 1\<rparr>
                      in (if is_fault reason then s\<lparr>e_frames_lost := e_frames_lost s + missing\<rparr> else s)
                 else s)
        in s\<lparr>e_reconnected := False, e_outgoing := e_outgoing s @ frames,
             e_next_seq := seq (last frames) + 1, e_have_seq := True\<rparr>)"

text \<open>The record loop of \<open>encode_batch\<close>, writing at offset \<open>off\<close>.\<close>

fun encode_records :: "nat \<Rightarrow> frame list \<Rightarrow> u8 list \<Rightarrow> u8 list" where
  "encode_records off [] buf = buf"
| "encode_records off (f # fs) buf =
     encode_records (off + kRecordSize) fs
       (put off (encode_frame f (get off kRecordSize buf)) buf)"

definition encode_batch :: "frame list \<Rightarrow> egress \<Rightarrow> egress" where
  "encode_batch frames s =
     (let n = kHeaderSize + length frames * kRecordSize;
          buf = take n (e_pending s) @ replicate (n - length (e_pending s)) 0;
          buf = put 0 (encode_header (of_nat (length frames)) (get 0 kHeaderSize buf)) buf
      in s\<lparr>e_pending := encode_records kHeaderSize frames buf, e_pending_offset := 0\<rparr>)"

text \<open>One turn of \<open>flush_pending\<close>: the socket has room for \<open>Suc n\<close> bytes; or it would block and \<open>poll\<close>
  returns (writable, a timeout or an interruption), fails, or sees the stop event; or the send is
  interrupted; or it fails otherwise. A script that runs out stands for a failing connection.\<close>

datatype poll_out = PollAgain | PollError | PollStop

datatype flush_event = Room nat | Blocked poll_out | FlushIntr | FlushFail

text \<open>The socket took \<open>n\<close> of the pending bytes.\<close>

definition send_some :: "nat \<Rightarrow> egress \<Rightarrow> egress" where
  "send_some n s =
     (let remaining = length (e_pending s) - e_pending_offset s;
          s1 = s\<lparr>e_pending_offset := e_pending_offset s + n, e_bytes_sent := e_bytes_sent s + of_nat n,
                 e_wire := e_wire s @ get (e_pending_offset s) n (e_pending s)\<rparr>
      in if n < remaining then s1\<lparr>e_partial_writes := e_partial_writes s1 + 1\<rparr> else s1)"

fun flush_pending :: "flush_event list \<Rightarrow> egress \<Rightarrow> bool \<times> egress" where
  "flush_pending [] s =
     (if e_pending_offset s < length (e_pending s) then (False, s)
      else (True, s\<lparr>e_pending := [], e_pending_offset := 0\<rparr>))"
| "flush_pending (e # es) s =
     (if \<not> e_pending_offset s < length (e_pending s)
      then (True, s\<lparr>e_pending := [], e_pending_offset := 0\<rparr>)
      else case e of
        Room k \<Rightarrow> flush_pending es (send_some (min (Suc k) (length (e_pending s) - e_pending_offset s)) s)
      | Blocked p \<Rightarrow>
          let s1 = s\<lparr>e_would_block := e_would_block s + 1\<rparr>
          in (case p of PollAgain \<Rightarrow> flush_pending es s1 | PollError \<Rightarrow> (False, s1) | PollStop \<Rightarrow> (False, s1))
      | FlushIntr \<Rightarrow> flush_pending es s
      | FlushFail \<Rightarrow> (False, s))"

section \<open>The loop\<close>

record run_env =
  ev_wait :: "accept_event list"
  ev_flush1 :: "flush_event list"
  ev_hup :: bool
  ev_recv :: "u8 list list"
  ev_recv_now :: u64
  ev_linger_start :: u64
  ev_linger_nows :: "u64 list"
  ev_gap_now :: u64
  ev_echo_now :: u64
  ev_flush2 :: "flush_event list"

text \<open>The second half of a turn: a non-empty batch of \<open>n\<close> frames goes out.\<close>

definition send_batch :: "run_env \<Rightarrow> frame list \<Rightarrow> egress \<Rightarrow> egress" where
  "send_batch env batch s =
     (let s = note_gap (ev_gap_now env) batch s;
          s = maybe_send_echo (ev_echo_now env) s;
          s = encode_batch (e_outgoing s) s
      in case flush_pending (ev_flush2 env) s of
           (False, s) \<Rightarrow> drop_client s
         | (True, s) \<Rightarrow> s\<lparr>e_frames_sent := e_frames_sent s + of_nat (length batch),
                          e_batches_sent := e_batches_sent s + 1, e_done := e_done s @ [e_outgoing s]\<rparr>)"

text \<open>Frames from the feed, and more of them while lingering; then a batch is sent, or there was none. The boolean
  says that the thread returns.\<close>

definition take_batch :: "(nat \<Rightarrow> 'f \<Rightarrow> (frame list \<times> 'f) option) \<Rightarrow> run_env \<Rightarrow> egress \<Rightarrow> 'f \<Rightarrow>
    (frame list \<times> egress \<times> 'f) option" where
  "take_batch pop env s fd =
     Option.bind (pop (tn_max_frames (e_tuning s)) fd) (\<lambda>(batch, fd1).
       if batch = [] then Some (batch, s, fd1)
       else coalesce pop (ev_linger_start env) (ev_linger_nows env) batch s fd1)"

definition serve_client :: "(nat \<Rightarrow> 'f \<Rightarrow> (frame list \<times> 'f) option) \<Rightarrow> ('f \<Rightarrow> bool) \<Rightarrow> run_env \<Rightarrow>
    egress \<Rightarrow> 'f \<Rightarrow> (bool \<times> egress \<times> 'f) option" where
  "serve_client pop is_closed env s fd =
     Option.bind (take_batch pop env s fd) (\<lambda>(batch, s, fd).
       if batch = [] then Some (is_closed fd, s, fd)
       else Some (False, send_batch env batch s, fd))"

text \<open>One turn of \<open>run\<close>.\<close>

definition run_turn :: "(nat \<Rightarrow> 'f \<Rightarrow> (frame list \<times> 'f) option) \<Rightarrow> ('f \<Rightarrow> bool) \<Rightarrow> run_env \<Rightarrow>
    egress \<Rightarrow> 'f \<Rightarrow> (bool \<times> egress \<times> 'f) option" where
  "run_turn pop is_closed env s fd =
     (case wait_for_client (ev_wait env) s of
        (Stopped, s1) \<Rightarrow> Some (True, s1, fd)
      | (StillWaiting, s1) \<Rightarrow> Some (False, s1, fd)
      | (HasClient, s1) \<Rightarrow>
          (case (if e_pending s1 = [] then (True, s1) else flush_pending (ev_flush1 env) s1) of
             (False, s2) \<Rightarrow> Some (False, drop_client s2, fd)
           | (True, s2) \<Rightarrow>
               if client_gone (ev_hup env) s2 then Some (False, drop_client s2, fd)
               else serve_client pop is_closed env (drain_replies (ev_recv env) (ev_recv_now env) s2) fd))"

fun egress_run :: "(nat \<Rightarrow> 'f \<Rightarrow> (frame list \<times> 'f) option) \<Rightarrow> ('f \<Rightarrow> bool) \<Rightarrow> run_env list \<Rightarrow>
    egress \<Rightarrow> 'f \<Rightarrow> (egress \<times> 'f) option" where
  "egress_run pop is_closed [] s fd = Some (s, fd)"
| "egress_run pop is_closed (env # envs) s fd =
     Option.bind (run_turn pop is_closed env s fd) (\<lambda>(stop, s', fd').
       if stop then Some (s', fd') else egress_run pop is_closed envs s' fd')"

record egress_stats =
  es_frames_sent :: u64
  es_batches_sent :: u64
  es_bytes_sent :: u64
  es_would_block :: u64
  es_partial_writes :: u64
  es_connects :: u64
  es_disconnects :: u64
  es_gaps_sent :: u64
  es_frames_lost :: u64
  es_lingered :: u64
  es_echoes_sent :: u64
  es_echoes_returned :: u64
  es_echoes_lost :: u64
  es_rtt_p50_ns :: i64
  es_rtt_p99_ns :: i64
  es_rtt_max_ns :: i64
  es_connected :: bool

definition egress_stats_of :: "egress \<Rightarrow> egress_stats" where
  "egress_stats_of s =
     (let p = samples_compute (e_rtt s)
      in \<lparr>es_frames_sent = e_frames_sent s, es_batches_sent = e_batches_sent s, es_bytes_sent = e_bytes_sent s,
          es_would_block = e_would_block s, es_partial_writes = e_partial_writes s, es_connects = e_connects s,
          es_disconnects = e_disconnects s, es_gaps_sent = e_gaps_sent s, es_frames_lost = e_frames_lost s,
          es_lingered = e_lingered s, es_echoes_sent = e_echoes_sent s, es_echoes_returned = e_echoes_returned s,
          es_echoes_lost = e_echoes_lost s, es_rtt_p50_ns = pc_p50 p, es_rtt_p99_ns = pc_p99 p,
          es_rtt_max_ns = pc_max p, es_connected = e_connected s\<rparr>)"

end
