(* ===== verification/Options.thy ===== *)
theory Options
  imports Descriptors Egress
begin

text \<open>
  The command lines of the programs. Every \<open>main\<close> has the same loop over its arguments; it is \<open>parse_args\<close> over a
  table that says, for an argument, whether it takes a value, is a flag, or asks for help. \<open>Inl n\<close> is the exit
  status with which the program ends before it has started. The cadence program, whose factor is read by
  \<^verbatim>\<open>strtod\<close>, has a theory of its own.
\<close>

section \<open>The loop\<close>

datatype 'o opt = Value "string \<Rightarrow> 'o \<Rightarrow> nat + 'o" | Flag "'o \<Rightarrow> 'o" | Help

fun parse_args :: "(string \<Rightarrow> 'o opt option) \<Rightarrow> string list \<Rightarrow> 'o \<Rightarrow> nat + 'o" where
  "parse_args table [] o1 = Inr o1"
| "parse_args table [arg] o1 =
     (case table arg of
        Some (Flag f) \<Rightarrow> parse_args table [] (f o1)
      | Some Help \<Rightarrow> Inl 0
      | _ \<Rightarrow> Inl 2)"
| "parse_args table (arg # val # rest) o1 =
     (case table arg of
        Some (Value upd) \<Rightarrow> (case upd val o1 of Inl e \<Rightarrow> Inl e | Inr o2 \<Rightarrow> parse_args table rest o2)
      | Some (Flag f) \<Rightarrow> parse_args table (val # rest) (f o1)
      | Some Help \<Rightarrow> Inl 0
      | None \<Rightarrow> Inl 2)"

text \<open>A value that cannot be refused.\<close>

definition val_with :: "(string \<Rightarrow> 'o \<Rightarrow> 'o) \<Rightarrow> 'o opt option" where
  "val_with f = Some (Value (\<lambda>v o1. Inr (f v o1)))"

definition to_u16 :: "string \<Rightarrow> u16" where "to_u16 v = ucast (strtoul 10 v)"
definition to_u32 :: "string \<Rightarrow> u32" where "to_u32 v = ucast (strtoul 10 v)"

section \<open>The gateway\<close>

type_synonym consumer_spec = "string \<times> u16"

definition parse_consumer :: "string \<Rightarrow> consumer_spec option" where
  "parse_consumer spec =
     (case rfind_char CHR '':'' spec of
        None \<Rightarrow> None
      | Some colon \<Rightarrow>
          if colon = 0 \<or> colon + 1 \<ge> length spec then None
          else let port = strtol 10 (drop (colon + 1) spec)
               in if port \<le> 0 \<or> port > 65535 then None else Some (take colon spec, of_int port))"

record gateway_options =
  go_sources :: "string list"
  go_consumers :: "consumer_spec list"
  go_topology :: string
  go_capacity :: u64
  go_tuning :: tuning
  go_rate :: u32
  go_seconds :: int
  go_tap :: bool
  go_mlock :: bool

definition gateway_defaults :: gateway_options where
  "gateway_defaults = \<lparr>go_sources = [], go_consumers = [], go_topology = ''ring'', go_capacity = 8192,
     go_tuning = \<lparr>tn_max_frames = kDefaultBatch, tn_linger_us = 0, tn_echo_ms = 0\<rparr>, go_rate = 1000, go_seconds = 0,
     go_tap = False, go_mlock = False\<rparr>"

definition gateway_table :: "string \<Rightarrow> gateway_options opt option" where
  "gateway_table arg =
     (if arg = ''--source'' then val_with (\<lambda>v o1. o1\<lparr>go_sources := go_sources o1 @ [v]\<rparr>)
      else if arg = ''--topology'' then val_with (\<lambda>v o1. o1\<lparr>go_topology := v\<rparr>)
      else if arg = ''--consumer''
      then Some (Value (\<lambda>v o1. case parse_consumer v of
                           None \<Rightarrow> Inl 2
                         | Some c \<Rightarrow> Inr (o1\<lparr>go_consumers := go_consumers o1 @ [c]\<rparr>)))
      else if arg = ''--capacity'' \<or> arg = ''--queue'' then val_with (\<lambda>v o1. o1\<lparr>go_capacity := strtoul 10 v\<rparr>)
      else if arg = ''--batch'' then val_with (\<lambda>v o1. o1\<lparr>go_tuning := (go_tuning o1)\<lparr>tn_max_frames := unat (strtoul 10 v)\<rparr>\<rparr>)
      else if arg = ''--echo-ms'' then val_with (\<lambda>v o1. o1\<lparr>go_tuning := (go_tuning o1)\<lparr>tn_echo_ms := to_u32 v\<rparr>\<rparr>)
      else if arg = ''--linger-us'' then val_with (\<lambda>v o1. o1\<lparr>go_tuning := (go_tuning o1)\<lparr>tn_linger_us := to_u32 v\<rparr>\<rparr>)
      else if arg = ''--rate'' then val_with (\<lambda>v o1. o1\<lparr>go_rate := to_u32 v\<rparr>)
      else if arg = ''--seconds'' then val_with (\<lambda>v o1. o1\<lparr>go_seconds := atoi v\<rparr>)
      else if arg = ''--mlock'' then Some (Flag (\<lambda>o1. o1\<lparr>go_mlock := True\<rparr>))
      else if arg = ''--tap'' then Some (Flag (\<lambda>o1. o1\<lparr>go_tap := True\<rparr>))
      else if arg = ''--help'' \<or> arg = ''-h'' then Some Help
      else None)"

definition gateway_options_of :: "string list \<Rightarrow> nat + gateway_options" where
  "gateway_options_of args =
     (case parse_args gateway_table args gateway_defaults of
        Inl e \<Rightarrow> Inl e
      | Inr o1 \<Rightarrow>
          if go_topology o1 \<noteq> ''queue'' \<and> go_topology o1 \<noteq> ''ring'' then Inl 2
          else if go_capacity o1 = 0 \<or> go_rate o1 = 0 then Inl 2
          else let o2 = (if go_sources o1 = [] then o1\<lparr>go_sources := [''synth'']\<rparr> else o1)
               in if go_consumers o2 = [] \<and> \<not> go_tap o2 then Inl 2 else Inr o2)"

text \<open>\<open>rt::lock_memory\<close>; \<open>None\<close> is success.\<close>

definition ENOMEM :: nat where "ENOMEM = 12"
definition EPERM :: nat where "EPERM = 1"

definition lock_memory :: "(nat \<Rightarrow> string) \<Rightarrow> os \<Rightarrow> string option \<times> os" where
  "lock_memory strerror w =
     (case sys_call w of
        (True, w) \<Rightarrow> (None, w)
      | (False, w) \<Rightarrow>
          (Some (''mlockall: '' @ strerror (os_errno w) @
             (if os_errno w = ENOMEM \<or> os_errno w = EPERM
              then '' (needs CAP_IPC_LOCK or a raised RLIMIT_MEMLOCK)'' else [])), w))"

section \<open>The recorder, the probe and the view\<close>

record record_options =
  ro_host :: string
  ro_out :: string
  ro_csv :: string
  ro_port :: u16
  ro_seconds :: int
  ro_reconnect :: bool
  ro_fsync_every :: u64

definition record_defaults :: record_options where
  "record_defaults = \<lparr>ro_host = ''127.0.0.1'', ro_out = [], ro_csv = [], ro_port = 9002, ro_seconds = 0,
     ro_reconnect = False, ro_fsync_every = 0\<rparr>"

definition record_table :: "string \<Rightarrow> record_options opt option" where
  "record_table arg =
     (if arg = ''--out'' then val_with (\<lambda>v o1. o1\<lparr>ro_out := v\<rparr>)
      else if arg = ''--host'' then val_with (\<lambda>v o1. o1\<lparr>ro_host := v\<rparr>)
      else if arg = ''--port'' then val_with (\<lambda>v o1. o1\<lparr>ro_port := to_u16 v\<rparr>)
      else if arg = ''--seconds'' then val_with (\<lambda>v o1. o1\<lparr>ro_seconds := atoi v\<rparr>)
      else if arg = ''--fsync-every'' then val_with (\<lambda>v o1. o1\<lparr>ro_fsync_every := strtoul 10 v\<rparr>)
      else if arg = ''--csv'' then val_with (\<lambda>v o1. o1\<lparr>ro_csv := v\<rparr>)
      else if arg = ''--reconnect'' then Some (Flag (\<lambda>o1. o1\<lparr>ro_reconnect := True\<rparr>))
      else if arg = ''--help'' \<or> arg = ''-h'' then Some Help
      else None)"

definition record_options_of :: "string list \<Rightarrow> nat + record_options" where
  "record_options_of args =
     (case parse_args record_table args record_defaults of
        Inl e \<Rightarrow> Inl e
      | Inr o1 \<Rightarrow> if ro_out o1 = [] then Inl 2 else Inr o1)"

record probe_options =
  po_host :: string
  po_csv :: string
  po_mlock :: bool
  po_port :: u16
  po_seconds :: int
  po_reconnect :: bool
  po_e2e :: bool
  po_warmup :: int
  po_stall_us :: int
  po_cross :: bool

definition probe_defaults :: probe_options where
  "probe_defaults = \<lparr>po_host = ''127.0.0.1'', po_csv = [], po_mlock = False, po_port = 9001, po_seconds = 0,
     po_reconnect = False, po_e2e = False, po_warmup = 0, po_stall_us = 0, po_cross = False\<rparr>"

definition probe_table :: "string \<Rightarrow> probe_options opt option" where
  "probe_table arg =
     (if arg = ''--host'' then val_with (\<lambda>v o1. o1\<lparr>po_host := v\<rparr>)
      else if arg = ''--port'' then val_with (\<lambda>v o1. o1\<lparr>po_port := to_u16 v\<rparr>)
      else if arg = ''--seconds'' then val_with (\<lambda>v o1. o1\<lparr>po_seconds := atoi v\<rparr>)
      else if arg = ''--warmup'' then val_with (\<lambda>v o1. o1\<lparr>po_warmup := atoi v\<rparr>)
      else if arg = ''--stall-us'' then val_with (\<lambda>v o1. o1\<lparr>po_stall_us := atoi v\<rparr>)
      else if arg = ''--mlock'' then Some (Flag (\<lambda>o1. o1\<lparr>po_mlock := True\<rparr>))
      else if arg = ''--csv'' then val_with (\<lambda>v o1. o1\<lparr>po_csv := v\<rparr>)
      else if arg = ''--reconnect'' then Some (Flag (\<lambda>o1. o1\<lparr>po_reconnect := True\<rparr>))
      else if arg = ''--cross'' then Some (Flag (\<lambda>o1. o1\<lparr>po_cross := True\<rparr>))
      else if arg = ''--e2e'' then Some (Flag (\<lambda>o1. o1\<lparr>po_e2e := True\<rparr>))
      else if arg = ''--help'' \<or> arg = ''-h'' then Some Help
      else None)"

definition probe_options_of :: "string list \<Rightarrow> nat + probe_options" where
  "probe_options_of args = parse_args probe_table args probe_defaults"

record view_options =
  vo_host :: string
  vo_port :: u16
  vo_http_port :: u16
  vo_seconds :: int

definition view_defaults :: view_options where
  "view_defaults = \<lparr>vo_host = ''127.0.0.1'', vo_port = 9003, vo_http_port = 8080, vo_seconds = 0\<rparr>"

definition view_table :: "string \<Rightarrow> view_options opt option" where
  "view_table arg =
     (if arg = ''--host'' then val_with (\<lambda>v o1. o1\<lparr>vo_host := v\<rparr>)
      else if arg = ''--port'' then val_with (\<lambda>v o1. o1\<lparr>vo_port := to_u16 v\<rparr>)
      else if arg = ''--http'' then val_with (\<lambda>v o1. o1\<lparr>vo_http_port := to_u16 v\<rparr>)
      else if arg = ''--seconds'' then val_with (\<lambda>v o1. o1\<lparr>vo_seconds := atoi v\<rparr>)
      else if arg = ''--help'' \<or> arg = ''-h'' then Some Help
      else None)"

definition view_options_of :: "string list \<Rightarrow> nat + view_options" where
  "view_options_of args = parse_args view_table args view_defaults"

section \<open>The generator and the stress test\<close>

record gen_options =
  gn_interface :: string
  gn_csv :: string
  gn_rate :: u64
  gn_seconds :: u64
  gn_base_id :: u32
  gn_id_count :: u32

definition gen_defaults :: gen_options where
  "gen_defaults = \<lparr>gn_interface = [], gn_csv = [], gn_rate = 1000, gn_seconds = 10, gn_base_id = 0x100, gn_id_count = 1\<rparr>"

definition gen_table :: "string \<Rightarrow> gen_options opt option" where
  "gen_table arg =
     (if arg = ''--interface'' then val_with (\<lambda>v o1. o1\<lparr>gn_interface := v\<rparr>)
      else if arg = ''--rate'' then val_with (\<lambda>v o1. o1\<lparr>gn_rate := strtoul 10 v\<rparr>)
      else if arg = ''--seconds'' then val_with (\<lambda>v o1. o1\<lparr>gn_seconds := strtoul 10 v\<rparr>)
      else if arg = ''--id'' then val_with (\<lambda>v o1. o1\<lparr>gn_base_id := ucast (strtoul 16 v)\<rparr>)
      else if arg = ''--ids'' then val_with (\<lambda>v o1. o1\<lparr>gn_id_count := to_u32 v\<rparr>)
      else if arg = ''--csv'' then val_with (\<lambda>v o1. o1\<lparr>gn_csv := v\<rparr>)
      else if arg = ''--help'' \<or> arg = ''-h'' then Some Help
      else None)"

text \<open>The period comes with the options: it is computed and checked here.\<close>

definition gen_options_of :: "string list \<Rightarrow> nat + gen_options \<times> u64" where
  "gen_options_of args =
     (case parse_args gen_table args gen_defaults of
        Inl e \<Rightarrow> Inl e
      | Inr o1 \<Rightarrow>
          if gn_interface o1 = [] \<or> gn_rate o1 = 0 \<or> gn_seconds o1 = 0 \<or> gn_id_count o1 = 0 then Inl 2
          else let period_ns = 1000000000 div gn_rate o1
               in if period_ns = 0 then Inl 2 else Inr (o1, period_ns))"

record stress_options =
  so_producers :: u32
  so_readers :: u32
  so_capacity :: u64
  so_seconds :: int

definition stress_defaults :: stress_options where
  "stress_defaults = \<lparr>so_producers = 4, so_readers = 2, so_capacity = 16, so_seconds = 5\<rparr>"

definition stress_table :: "string \<Rightarrow> stress_options opt option" where
  "stress_table arg =
     (if arg = ''--producers'' then val_with (\<lambda>v o1. o1\<lparr>so_producers := to_u32 v\<rparr>)
      else if arg = ''--readers'' then val_with (\<lambda>v o1. o1\<lparr>so_readers := to_u32 v\<rparr>)
      else if arg = ''--capacity'' then val_with (\<lambda>v o1. o1\<lparr>so_capacity := strtoul 10 v\<rparr>)
      else if arg = ''--seconds'' then val_with (\<lambda>v o1. o1\<lparr>so_seconds := atoi v\<rparr>)
      else if arg = ''--help'' \<or> arg = ''-h'' then Some Help
      else None)"

definition stress_options_of :: "string list \<Rightarrow> nat + stress_options" where
  "stress_options_of args =
     (case parse_args stress_table args stress_defaults of
        Inl e \<Rightarrow> Inl e
      | Inr o1 \<Rightarrow>
          if so_producers o1 = 0 \<or> so_readers o1 = 0 \<or> so_capacity o1 < 2 \<or> so_seconds o1 \<le> 0 then Inl 2 else Inr o1)"

section \<open>Consumer specifications\<close>

lemma find_after: "P x \<Longrightarrow> \<forall>y \<in> set xs. \<not> P y \<Longrightarrow> find P (xs @ x # ys) = Some x"
  by (induction xs) auto

lemma rfind_last:
  assumes "c \<notin> set t"
  shows "rfind_char c (s @ c # t) = Some (length s)"
proof -
  have "[0..<k + Suc m] = [0..<k] @ k # [Suc k..<k + Suc m]" for k m
    by (simp only: upt_add_eq_append [OF le0]) (simp add: upt_conv_Cons del: upt_Suc)
  then have split: "rev [0..<length (s @ c # t)] = rev [Suc (length s)..<length (s @ c # t)] @ length s # rev [0..<length s]"
    by (metis length_append length_Cons rev.simps(2) rev_append append_assoc append_Cons append_Nil)
  have "(s @ c # t) ! i \<noteq> c" if "Suc (length s) \<le> i" "i < length (s @ c # t)" for i
  proof -
    have "(s @ c # t) ! i = t ! (i - Suc (length s))" "i - Suc (length s) < length t"
      using that by (auto simp: nth_append nth_Cons' not_less)
    then show ?thesis using assms by (metis nth_mem)
  qed
  then show ?thesis unfolding rfind_char_def split
    by (intro find_after) (simp, metis atLeastLessThan_iff set_rev set_upt)
qed

lemma no_colon_digit: "CHR '':'' \<notin> set (to_dec n)"
proof
  assume "CHR '':'' \<in> set (to_dec n)"
  then obtain d where "d < 10" "CHR '':'' = digit d" using to_dec_digits by blast
  then have "(of_char (CHR '':'') :: nat) = 48 + d" using digit_code [of d] by metis
  then show False using \<open>d < 10\<close> by simp
qed

lemma parse_consumer_text:
  assumes "name \<noteq> []" "port \<noteq> 0"
  shows "parse_consumer (name @ '':'' @ to_dec (unat port)) = Some (name, port)"
proof -
  have "uint port < 2 ^ LENGTH(16)" by (rule unsigned_less)
  then have p: "uint port \<le> 65535" "0 < uint port" using assms(2) uint_0_iff [of port] uint_ge_0 [of port] by (simp, linarith)
  have "rfind_char CHR '':'' (name @ '':'' @ to_dec (unat port)) = Some (length name)"
    using rfind_last [OF no_colon_digit, of name] by simp
  moreover have "strtol 10 (to_dec (unat port)) = uint port" 
    using p strtol_to_dec [of "unat port"] by (simp flip: of_nat_less_iff [where ?'a = int])
  ultimately show ?thesis using assms(1) p by (simp add: parse_consumer_def Let_def)
qed

lemma parse_consumer_ok: "parse_consumer spec = Some (name, port) \<Longrightarrow> name \<noteq> [] \<and> port \<noteq> 0"
proof -
  assume a: "parse_consumer spec = Some (name, port)"
  then obtain colon p where c: "colon \<noteq> 0" "\<not> colon + 1 \<ge> length spec" "name = take colon spec" "port = of_int p" "0 < p" "p \<le> 65535"
    by (auto simp: parse_consumer_def Let_def split: option.splits if_splits)
  have "uint port = p" using c(4-6) by (simp add: unsigned_of_int take_bit_int_eq_self)
  then show ?thesis using c by auto
qed

section \<open>Command lines\<close>

text \<open>A command line that asks for the given options.\<close>

definition gateway_command_line :: "gateway_options \<Rightarrow> string list" where
  "gateway_command_line o1 =
     concat (map (\<lambda>s. [''--source'', s]) (go_sources o1)) @
     concat (map (\<lambda>(name, port). [''--consumer'', name @ '':'' @ to_dec (unat port)]) (go_consumers o1)) @
     [''--topology'', go_topology o1, ''--capacity'', to_dec (unat (go_capacity o1)),
      ''--batch'', to_dec (tn_max_frames (go_tuning o1)), ''--echo-ms'', to_dec (unat (tn_echo_ms (go_tuning o1))),
      ''--linger-us'', to_dec (unat (tn_linger_us (go_tuning o1))), ''--rate'', to_dec (unat (go_rate o1)),
      ''--seconds'', to_dec (nat (go_seconds o1))] @
     (if go_mlock o1 then [''--mlock''] else []) @ (if go_tap o1 then [''--tap''] else [])"

text \<open>What the gateway may be started with.\<close>

definition gateway_options_ok :: "gateway_options \<Rightarrow> bool" where
  "gateway_options_ok o1 \<longleftrightarrow> go_sources o1 \<noteq> [] \<and> (go_consumers o1 \<noteq> [] \<or> go_tap o1) \<and>
     list_all (\<lambda>c. fst c \<noteq> [] \<and> snd c \<noteq> 0) (go_consumers o1) \<and> go_topology o1 \<in> {''queue'', ''ring''} \<and>
     go_capacity o1 \<noteq> 0 \<and> go_rate o1 \<noteq> 0 \<and> tn_max_frames (go_tuning o1) < 2 ^ 64 \<and>
     - (2 ^ 31) \<le> go_seconds o1 \<and> go_seconds o1 < 2 ^ 31"

lemma to_u32_dec: "to_u32 (to_dec (unat (w :: u32))) = w"
proof -
  have "unat w < 2 ^ LENGTH(32)" by (rule unsigned_less)
  then have "unat w < 2 ^ 64" by simp
  moreover have "ucast (ucast w :: u64) = w" by (intro bit_word_eqI) (simp add: bit_simps)
  ultimately show ?thesis by (simp add: to_u32_def strtoul_to_dec)
qed

lemma strtoul_dec: "strtoul 10 (to_dec (unat (w :: u64))) = w"
  using strtoul_to_dec [of "unat w"] by simp

lemma atoi_dec: "0 \<le> i \<Longrightarrow> i < 2 ^ 31 \<Longrightarrow> atoi (to_dec (nat i)) = i"
  using strtol_to_dec [of "nat i"] by (simp add: atoi_def signed_of_int signed_take_bit_int_eq_self)

lemma parse_sources:
  "parse_args gateway_table (concat (map (\<lambda>s. [''--source'', s]) ss) @ rest) o1 =
   parse_args gateway_table rest (o1\<lparr>go_sources := go_sources o1 @ ss\<rparr>)"
  by (induction ss arbitrary: o1) (simp_all add: gateway_table_def val_with_def)

lemma parse_consumers:
  "list_all (\<lambda>c. fst c \<noteq> [] \<and> snd c \<noteq> 0) cs \<Longrightarrow>
   parse_args gateway_table (concat (map (\<lambda>(name, port). [''--consumer'', name @ '':'' @ to_dec (unat port)]) cs) @ rest) o1 =
   parse_args gateway_table rest (o1\<lparr>go_consumers := go_consumers o1 @ cs\<rparr>)"
proof (induction cs arbitrary: o1)
  case (Cons c cs)
  then have "parse_consumer (fst c @ '':'' @ to_dec (unat (snd c))) = Some (fst c, snd c)" by (intro parse_consumer_text) simp_all
  then show ?case using Cons by (simp add: gateway_table_def case_prod_unfold)
qed simp

lemma tuning_all:
  "(u :: tuning)\<lparr>tn_max_frames := tn_max_frames t, tn_echo_ms := tn_echo_ms t, tn_linger_us := tn_linger_us t\<rparr> = t"
  by simp

lemma parse_settings:
  assumes "tn_max_frames t < 2 ^ 64" "0 \<le> seconds" "seconds < 2 ^ 31"
  shows "parse_args gateway_table ([''--topology'', topology, ''--capacity'', to_dec (unat capacity),
      ''--batch'', to_dec (tn_max_frames t), ''--echo-ms'', to_dec (unat (tn_echo_ms t)),
      ''--linger-us'', to_dec (unat (tn_linger_us t)), ''--rate'', to_dec (unat rate),
      ''--seconds'', to_dec (nat seconds)] @ rest) o1 =
    parse_args gateway_table rest (o1\<lparr>go_topology := topology, go_capacity := capacity, go_tuning := t, go_rate := rate,
      go_seconds := seconds\<rparr>)"
  using assms by (simp add: gateway_table_def val_with_def strtoul_dec to_u32_dec atoi_dec strtoul_to_dec unat_of_nat_small tuning_all)

lemma parse_flags:
  "parse_args gateway_table ((if m then [''--mlock''] else []) @ (if t then [''--tap''] else [])) o1 =
   Inr (o1\<lparr>go_mlock := m \<or> go_mlock o1, go_tap := t \<or> go_tap o1\<rparr>)"
  by (simp add: gateway_table_def)

text \<open>Every accepted command line gives options that are fit to start with.\<close>

definition pre_ok :: "gateway_options \<Rightarrow> bool" where
  "pre_ok o1 \<longleftrightarrow> list_all (\<lambda>c. fst c \<noteq> [] \<and> snd c \<noteq> 0) (go_consumers o1) \<and> tn_max_frames (go_tuning o1) < 2 ^ 64 \<and>
     - (2 ^ 31) \<le> go_seconds o1 \<and> go_seconds o1 < 2 ^ 31"

lemma atoi_bounds: "- (2 ^ 31) \<le> atoi v" "atoi v < 2 ^ 31"
  using sint_greater_eq [of "word_of_int (strtol 10 v) :: 32 word"] sint_less [of "word_of_int (strtol 10 v) :: 32 word"]
  by (simp_all add: atoi_def)

definition keeps :: "gateway_options opt option \<Rightarrow> bool" where
  "keeps e \<longleftrightarrow> (case e of
     Some (Value f) \<Rightarrow> \<forall>v o1 o2. f v o1 = Inr o2 \<longrightarrow> pre_ok o1 \<longrightarrow> pre_ok o2
   | Some (Flag g) \<Rightarrow> \<forall>o1. pre_ok o1 \<longrightarrow> pre_ok (g o1)
   | _ \<Rightarrow> True)"

lemma keeps_if: "keeps a \<Longrightarrow> keeps b \<Longrightarrow> keeps (if c then a else b)"
  by simp

lemma keeps_table: "keeps (gateway_table arg)"
  unfolding gateway_table_def
  by (intro keeps_if)
    (auto simp: keeps_def val_with_def pre_ok_def atoi_bounds [simplified] split: option.splits dest: parse_consumer_ok)

lemma parse_args_pre: "parse_args gateway_table args o1 = Inr o2 \<Longrightarrow> pre_ok o1 \<Longrightarrow> pre_ok o2"
proof (induction "gateway_table" args o1 rule: parse_args.induct)
  case (2 arg o1)
  then show ?case using keeps_table [of arg] by (auto simp: keeps_def split: option.splits opt.splits)
next
  case (3 arg val rest o1)
  then show ?case using keeps_table [of arg] by (auto simp: keeps_def split: option.splits opt.splits sum.splits)
qed simp

text \<open>(C37) The gateway's command line. Options that are fit to start with can be written on a command line, in the
  order given here, and are read back exactly, whatever the names of consumers contain (a colon included);
  and every command line that is accepted gives options fit to start with: a topology that exists, a capacity
  and a rate that are not zero, at least one source, something to serve, and consumers with a name and a port
  that is not zero.\<close>

theorem gateway_command_line_round_trip:
  "(gateway_options_ok o1 \<and> 0 \<le> go_seconds o1 \<longrightarrow> gateway_options_of (gateway_command_line o1) = Inr o1) \<and>
   (gateway_options_of args = Inr o2 \<longrightarrow> gateway_options_ok o2)"
proof (intro conjI impI)
  assume ok: "gateway_options_ok o1 \<and> 0 \<le> go_seconds o1"
  let ?o = "gateway_defaults\<lparr>go_sources := go_sources o1, go_consumers := go_consumers o1, go_topology := go_topology o1,
      go_capacity := go_capacity o1, go_tuning := go_tuning o1, go_rate := go_rate o1, go_seconds := go_seconds o1,
      go_mlock := go_mlock o1, go_tap := go_tap o1\<rparr>"
  have "parse_args gateway_table (gateway_command_line o1) gateway_defaults = Inr ?o"
    unfolding gateway_command_line_def using ok
    by (subst parse_sources, subst parse_consumers)
      (simp_all del: append.append_Cons add: gateway_options_ok_def parse_settings parse_flags gateway_defaults_def)
  moreover have "?o = o1" by (simp add: gateway_defaults_def)
  ultimately show "gateway_options_of (gateway_command_line o1) = Inr o1"
    using ok by (auto simp: gateway_options_of_def gateway_options_ok_def Let_def)
next
  assume a: "gateway_options_of args = Inr o2"
  then obtain o3 where p: "parse_args gateway_table args gateway_defaults = Inr o3"
    by (auto simp: gateway_options_of_def split: sum.splits)
  have "pre_ok gateway_defaults" by (simp add: pre_ok_def gateway_defaults_def kDefaultBatch_def)
  then have "pre_ok o3" by (rule parse_args_pre [OF p])
  then show "gateway_options_ok o2" using a p
    by (auto simp: gateway_options_of_def Let_def pre_ok_def gateway_options_ok_def split: if_splits)
qed

theorem gateway_command_line_round_trip_witness:
  "gateway_options_of (gateway_command_line (gateway_defaults\<lparr>go_sources := [''can:vcan0''], go_consumers := [(''a:b'', 9001)]\<rparr>)) =
   Inr (gateway_defaults\<lparr>go_sources := [''can:vcan0''], go_consumers := [(''a:b'', 9001)]\<rparr>)"
  using gateway_command_line_round_trip [of "gateway_defaults\<lparr>go_sources := [''can:vcan0''], go_consumers := [(''a:b'', 9001)]\<rparr>"]
  by (simp add: gateway_options_ok_def gateway_defaults_def kDefaultBatch_def)

end
