(* ===== verification/Egress_Safety.thy ===== *)
theory Egress_Safety
  imports Egress
begin

text \<open>
  What an egress thread puts on the wire: batches are encoded as the format says and sent whole or
  not at all; every connection carries the encoding of a list of batches; within a connection the
  stream never goes back and markers name exactly the sequence numbers in front of a batch that
  the consumer did not get. The loop is verified against the interface of the feed, so the
  results hold for both topologies.
\<close>

section \<open>Encoding a batch\<close>

lemma encode_frame_any:
  assumes "length out = kRecordSize" "length out' = kRecordSize" "frame_ok f"
  shows "encode_frame f out = encode_frame f out'"
  using assms by (simp add: encode_frame_layout)

lemma encode_header_any:
  assumes "length out = kHeaderSize" "length out' = kHeaderSize"
  shows "encode_header c out = encode_header c out'"
  using assms by (simp add: encode_header_layout)

lemma encode_records_bytes:
  assumes "list_all frame_ok fs" "off + length fs * kRecordSize \<le> length buf"
  shows "encode_records off fs buf =
    take off buf @ records_bytes fs @ drop (off + length fs * kRecordSize) buf"
  using assms
proof (induction fs arbitrary: off buf)
  case (Cons f fs)
  let ?e = "encode_frame f (get off kRecordSize buf)" and ?z = "encode_frame f (replicate kRecordSize 0)"
  let ?buf = "put off ?e buf"
  have l: "length (get off kRecordSize buf) = kRecordSize" using Cons.prems(2) by simp
  have e: "?e = ?z" using l Cons.prems(1) by (intro encode_frame_any) simp_all
  have le: "length ?e = kRecordSize" using l Cons.prems(1) by simp
  then have lb: "length ?buf = length buf" using Cons.prems(2) by simp
  have "encode_records (off + kRecordSize) fs ?buf =
      take (off + kRecordSize) ?buf @ records_bytes fs @ drop (off + kRecordSize + length fs * kRecordSize) ?buf"
    using Cons.prems lb by (intro Cons.IH) simp_all
  moreover have "take (off + kRecordSize) ?buf = take off buf @ ?z"
    using take_put [of off ?e buf] le Cons.prems(2) e by simp
  moreover have "drop (off + kRecordSize + n) ?buf = drop (off + kRecordSize + n) buf" for n
    using le Cons.prems(2) by (simp add: put_def add.commute add.left_commute)
  ultimately show ?case by (simp add: records_bytes_def add.assoc)
qed (simp add: records_bytes_def)

lemma encode_batch_bytes:
  assumes "list_all frame_ok fs"
  shows "encode_batch fs s = s\<lparr>e_pending := batch_bytes fs, e_pending_offset := 0\<rparr>"
proof -
  define n where "n = kHeaderSize + length fs * kRecordSize"
  define buf where "buf = take n (e_pending s) @ replicate (n - length (e_pending s)) 0"
  have lb: "length buf = n" by (simp add: buf_def)
  let ?h = "encode_header (of_nat (length fs)) (get 0 kHeaderSize buf)"
  have lg: "length (get 0 kHeaderSize buf) = kHeaderSize" using lb by (simp add: n_def)
  have h: "?h = encode_header (of_nat (length fs)) (replicate kHeaderSize 0)"
    using lg by (intro encode_header_any) simp_all
  have lh: "length ?h = kHeaderSize" using lg by simp
  have lp: "length (put 0 ?h buf) = n" using lh lb by (simp add: n_def)
  have "encode_records kHeaderSize fs (put 0 ?h buf) = take kHeaderSize (put 0 ?h buf) @ records_bytes fs"
    using encode_records_bytes [OF assms, of kHeaderSize "put 0 ?h buf"] lp by (simp add: n_def)
  also have "take kHeaderSize (put 0 ?h buf) = ?h" using lh by (simp add: put_def)
  finally have enc: "encode_records kHeaderSize fs (put 0 ?h buf) = batch_bytes fs"
    unfolding batch_bytes_split h .
  have "encode_batch fs s = s\<lparr>e_pending := encode_records kHeaderSize fs (put 0 ?h buf), e_pending_offset := 0\<rparr>"
    unfolding encode_batch_def Let_def buf_def n_def ..
  then show ?thesis unfolding enc .
qed

section \<open>Flushing\<close>

text \<open>What flushing may change.\<close>

definition sans_flush :: "egress \<Rightarrow> egress" where
  "sans_flush s = s\<lparr>e_pending := [], e_pending_offset := 0, e_bytes_sent := 0, e_would_block := 0,
     e_partial_writes := 0, e_wire := []\<rparr>"

lemma sans_flush_fields:
  assumes "sans_flush s' = sans_flush s"
  shows "e_tuning s' = e_tuning s" "e_client s' = e_client s" "e_outgoing s' = e_outgoing s"
    "e_next_seq s' = e_next_seq s" "e_have_seq s' = e_have_seq s" "e_reconnected s' = e_reconnected s"
    "e_connected s' = e_connected s" "e_done s' = e_done s" "e_echo_nonce s' = e_echo_nonce s"
    "e_echo_outstanding s' = e_echo_outstanding s" "e_rtt s' = e_rtt s" "e_reply_buf s' = e_reply_buf s"
    "e_echoes_sent s' = e_echoes_sent s" "e_echoes_returned s' = e_echoes_returned s"
    "e_gaps_sent s' = e_gaps_sent s" "e_frames_lost s' = e_frames_lost s" "e_frames_sent s' = e_frames_sent s"
  using arg_cong [OF assms, of e_tuning] arg_cong [OF assms, of e_client] arg_cong [OF assms, of e_outgoing]
    arg_cong [OF assms, of e_next_seq] arg_cong [OF assms, of e_have_seq] arg_cong [OF assms, of e_reconnected]
    arg_cong [OF assms, of e_connected] arg_cong [OF assms, of e_done] arg_cong [OF assms, of e_echo_nonce]
    arg_cong [OF assms, of e_echo_outstanding] arg_cong [OF assms, of e_rtt] arg_cong [OF assms, of e_reply_buf]
    arg_cong [OF assms, of e_echoes_sent] arg_cong [OF assms, of e_echoes_returned]
    arg_cong [OF assms, of e_gaps_sent] arg_cong [OF assms, of e_frames_lost] arg_cong [OF assms, of e_frames_sent]
  by (simp_all add: sans_flush_def)

text \<open>From \<open>s\<close> to \<open>s'\<close>, \<open>n\<close> of the pending bytes went to the client.\<close>

definition flushed :: "nat \<Rightarrow> egress \<Rightarrow> egress \<Rightarrow> bool" where
  "flushed n s s' \<longleftrightarrow> e_wire s' = e_wire s @ get (e_pending_offset s) n (e_pending s) \<and>
     n \<le> length (e_pending s) - e_pending_offset s \<and> e_bytes_sent s' = e_bytes_sent s + of_nat n \<and>
     sans_flush s' = sans_flush s"

lemma send_some_fields:
  "e_pending (send_some n s) = e_pending s" "e_pending_offset (send_some n s) = e_pending_offset s + n"
  "e_wire (send_some n s) = e_wire s @ get (e_pending_offset s) n (e_pending s)"
  "e_bytes_sent (send_some n s) = e_bytes_sent s + of_nat n" "sans_flush (send_some n s) = sans_flush s"
  by (simp_all add: send_some_def sans_flush_def Let_def)

lemma flushed_send_some:
  assumes "flushed n (send_some m s) s'" "m \<le> length (e_pending s) - e_pending_offset s"
  shows "flushed (m + n) s s'"
proof -
  have "get (e_pending_offset s) (m + n) (e_pending s) =
      get (e_pending_offset s) m (e_pending s) @ get (e_pending_offset s + m) n (e_pending s)"
    by (simp add: get_def take_add add.commute)
  moreover have "m + n \<le> length (e_pending s) - e_pending_offset s"
    using assms by (auto simp: flushed_def send_some_fields)
  ultimately show ?thesis using assms by (simp add: flushed_def send_some_fields)
qed

lemma flushed_0: "sans_flush s' = sans_flush s \<Longrightarrow> e_wire s' = e_wire s \<Longrightarrow> e_bytes_sent s' = e_bytes_sent s \<Longrightarrow> flushed 0 s s'"
  by (simp add: flushed_def get_def)

lemma flush_effect:
  assumes "flush_pending es s = (ok, s')" "e_pending_offset s \<le> length (e_pending s)"
  shows "\<exists>n. flushed n s s' \<and> (ok \<longleftrightarrow> n = length (e_pending s) - e_pending_offset s) \<and>
    (ok \<longrightarrow> e_pending s' = [] \<and> e_pending_offset s' = 0)"
  using assms
proof (induction es arbitrary: s)
  case Nil
  then show ?case by (intro exI [of _ 0] conjI flushed_0) (auto simp: sans_flush_def split: if_splits)
next
  case (Cons e es)
  have still: ?case if "s' = s\<lparr>e_would_block := w\<rparr>" "\<not> ok" "e_pending_offset s < length (e_pending s)" for w
    using that by (intro exI [of _ 0] conjI flushed_0) (auto simp: sans_flush_def)
  have again: ?case if "flush_pending es (s\<lparr>e_would_block := w\<rparr>) = (ok, s')" for w
  proof -
    have "flushed n (s\<lparr>e_would_block := w\<rparr>) s' = flushed n s s'" for n by (simp add: flushed_def sans_flush_def)
    then show ?thesis using Cons.IH [OF that] Cons.prems(2) by simp
  qed
  show ?case
  proof (cases "e_pending_offset s < length (e_pending s)")
    case False
    then show ?thesis using Cons.prems by (intro exI [of _ 0] conjI flushed_0) (auto simp: sans_flush_def)
  next
    case True
    show ?thesis
    proof (cases e)
      case (Room k)
      define m where "m = min (Suc k) (length (e_pending s) - e_pending_offset s)"
      have run: "flush_pending es (send_some m s) = (ok, s')" using Cons.prems(1) True Room by (simp add: m_def)
      have m: "m \<le> length (e_pending s) - e_pending_offset s" by (simp add: m_def)
      then have "e_pending_offset (send_some m s) \<le> length (e_pending (send_some m s))"
        using True by (simp add: send_some_fields)
      from Cons.IH [OF run this] obtain n where n: "flushed n (send_some m s) s'"
          "ok \<longleftrightarrow> n = length (e_pending s) - (e_pending_offset s + m)" "ok \<longrightarrow> e_pending s' = [] \<and> e_pending_offset s' = 0"
        by (auto simp: send_some_fields)
      then have "n \<le> length (e_pending s) - (e_pending_offset s + m)" by (simp add: flushed_def send_some_fields)
      then have "ok \<longleftrightarrow> m + n = length (e_pending s) - e_pending_offset s" using n(2) m by linarith
      then show ?thesis using flushed_send_some [OF n(1) m] n(3) by blast
    next
      case (Blocked p)
      then show ?thesis using Cons.prems(1) True again still by (cases p) auto
    qed (use Cons.prems True again [of "e_would_block s"] still [of "e_would_block s"] in auto)
  qed
qed

section \<open>Markers\<close>

text \<open>What \<open>note_gap\<close> puts in front of a batch.\<close>

definition gap_for :: "u64 \<Rightarrow> frame list \<Rightarrow> egress \<Rightarrow> frame list" where
  "gap_for now frames s =
     (if e_have_seq s \<and> seq (hd frames) > e_next_seq s
      then [make_gap (e_next_seq s) (seq (hd frames) - e_next_seq s)
              (if e_reconnected s then kConsumerAbsent else kConsumerOverrun) now]
      else [])"

definition echo_for :: "u64 \<Rightarrow> egress \<Rightarrow> frame list" where
  "echo_for now s =
     (if tn_echo_ms (e_tuning s) = 0 \<or> \<not> e_client s \<or> now < e_next_echo_ns s then []
      else [make_echo (e_echo_nonce s + 1) now])"

lemma note_gap_fields:
  assumes "frames \<noteq> []"
  shows "e_outgoing (note_gap now frames s) = gap_for now frames s @ frames"
    "e_next_seq (note_gap now frames s) = seq (last frames) + 1" "e_have_seq (note_gap now frames s)"
    "\<not> e_reconnected (note_gap now frames s)"
    "e_gaps_sent (note_gap now frames s) = e_gaps_sent s + of_nat (length (gap_for now frames s))"
    "e_frames_lost (note_gap now frames s) = e_frames_lost s +
       (if gap_for now frames s \<noteq> [] \<and> \<not> e_reconnected s then seq (hd frames) - e_next_seq s else 0)"
  using assms by (simp_all add: note_gap_def gap_for_def Let_def is_fault_def)

text \<open>What neither sending nor probing touches.\<close>

lemma note_gap_frame [simp]:
  "e_tuning (note_gap now frames s) = e_tuning s" "e_client (note_gap now frames s) = e_client s"
  "e_pending (note_gap now frames s) = e_pending s" "e_wire (note_gap now frames s) = e_wire s"
  "e_pending_offset (note_gap now frames s) = e_pending_offset s"
  "e_done (note_gap now frames s) = e_done s" "e_connected (note_gap now frames s) = e_connected s"
  "e_echo_nonce (note_gap now frames s) = e_echo_nonce s" "e_echoes_sent (note_gap now frames s) = e_echoes_sent s"
  "e_echo_outstanding (note_gap now frames s) = e_echo_outstanding s" "e_rtt (note_gap now frames s) = e_rtt s"
  "e_echoes_returned (note_gap now frames s) = e_echoes_returned s"
  "e_next_echo_ns (note_gap now frames s) = e_next_echo_ns s"
  "e_frames_sent (note_gap now frames s) = e_frames_sent s" "e_bytes_sent (note_gap now frames s) = e_bytes_sent s"
  by (simp_all add: note_gap_def Let_def)

lemma echo_frame [simp]:
  "e_tuning (maybe_send_echo now s) = e_tuning s" "e_client (maybe_send_echo now s) = e_client s"
  "e_pending (maybe_send_echo now s) = e_pending s" "e_wire (maybe_send_echo now s) = e_wire s"
  "e_pending_offset (maybe_send_echo now s) = e_pending_offset s"
  "e_done (maybe_send_echo now s) = e_done s" "e_connected (maybe_send_echo now s) = e_connected s"
  "e_next_seq (maybe_send_echo now s) = e_next_seq s" "e_have_seq (maybe_send_echo now s) = e_have_seq s"
  "e_reconnected (maybe_send_echo now s) = e_reconnected s" "e_rtt (maybe_send_echo now s) = e_rtt s"
  "e_echoes_returned (maybe_send_echo now s) = e_echoes_returned s"
  "e_gaps_sent (maybe_send_echo now s) = e_gaps_sent s" "e_frames_lost (maybe_send_echo now s) = e_frames_lost s"
  "e_frames_sent (maybe_send_echo now s) = e_frames_sent s" "e_bytes_sent (maybe_send_echo now s) = e_bytes_sent s"
  by (simp_all add: maybe_send_echo_def Let_def)

lemma echo_outgoing: "e_outgoing (maybe_send_echo now s) = e_outgoing s @ echo_for now s"
  by (simp add: maybe_send_echo_def echo_for_def Let_def)

lemma numbered_kind: "numbered f \<Longrightarrow> \<not> is_echo f \<and> \<not> is_gap f \<and> wire_ok f \<and> frame_ok f \<and> covers f = 1"
  by (auto simp: numbered_def bus_frame_def is_control_iff wire_ok_def covers_def)

text \<open>A batch of bus frames never goes back.\<close>

lemma well_ordered_frames:
  assumes "list_all numbered fs" "ascends pos fs"
  shows "well_ordered pos fs \<and> stream_end pos fs = resume_at pos fs"
  using assms
proof (induction fs arbitrary: pos)
  case (Cons f fs)
  then have "well_ordered (Suc (unat (seq f))) fs \<and> stream_end (Suc (unat (seq f))) fs = resume_at (Suc (unat (seq f))) fs"
    by (simp add: ascends_Cons)
  moreover have "unat (seq f) < 2 ^ 62" using Cons.prems(1) by (simp add: numbered_def)
  ultimately show ?case using Cons.prems numbered_kind [of f]
    by (simp add: ascends_Cons resume_at_def)
qed (simp add: resume_at_def)

lemma well_ordered_echo: "well_ordered pos (echo_for now s) \<and> stream_end pos (echo_for now s) = pos"
  by (simp add: echo_for_def)

text \<open>The marker starts where the consumer stopped and ends where the batch starts.\<close>

lemma gap_for_stream:
  assumes "frames \<noteq> []" "e_have_seq s" "unat (e_next_seq s) \<le> unat (seq (hd frames))"
  shows "well_ordered (unat (e_next_seq s)) (gap_for now frames s) \<and>
    contiguous (unat (e_next_seq s)) (gap_for now frames s) \<and>
    stream_end (unat (e_next_seq s)) (gap_for now frames s) = unat (seq (hd frames))"
proof (cases "seq (hd frames) > e_next_seq s")
  case True
  then have d: "unat (seq (hd frames) - e_next_seq s) = unat (seq (hd frames)) - unat (e_next_seq s)"
    by (simp add: unat_sub_le)
  show ?thesis using True assms unat_u64_less [of "seq (hd frames)"]
    by (simp add: gap_for_def covers_def d)
next
  case False
  then have "unat (seq (hd frames)) = unat (e_next_seq s)" using assms(3) by (simp add: word_less_nat_alt)
  then show ?thesis using False by (simp add: gap_for_def)
qed

lemma resume_at_last: "fs \<noteq> [] \<Longrightarrow> resume_at lo fs = Suc (unat (seq (last fs)))"
  by (simp add: resume_at_def)

text \<open>The stream a turn adds to a connection, from where the consumer stopped or, for the first frames
  ever sent, from their own start.\<close>

lemma outgoing_stream:
  assumes ne: "frames \<noteq> []" and fr: "list_all numbered frames" "ascends (unat (e_next_seq s)) frames"
    and start: "pos = (if e_have_seq s then unat (e_next_seq s) else unat (seq (hd frames)))"
  shows "well_ordered pos (gap_for now frames s @ frames @ echo_for now' s') \<and>
    stream_end pos (gap_for now frames s @ frames @ echo_for now' s') = unat (seq (last frames)) + 1"
proof -
  let ?h = "unat (seq (hd frames))"
  have le: "unat (e_next_seq s) \<le> ?h" using ne fr(2) by (cases frames) (simp_all add: ascends_Cons)
  have g: "well_ordered pos (gap_for now frames s)" "stream_end pos (gap_for now frames s) = ?h"
    using gap_for_stream [OF ne _ le, of now] start by (auto simp: gap_for_def)
  have "ascends ?h frames" using ne fr(2) by (cases frames) (simp_all add: ascends_Cons)
  then have "well_ordered ?h frames" "stream_end ?h frames = unat (seq (last frames)) + 1"
    using well_ordered_frames [OF fr(1)] resume_at_last [OF ne] by auto
  then show ?thesis using g well_ordered_echo by (simp add: well_ordered_append stream_end_append)
qed

lemma next_seq_after:
  assumes "frames \<noteq> []" "list_all numbered frames"
  shows "unat (seq (last frames) + 1) = unat (seq (last frames)) + 1" "unat (seq (last frames)) < 2 ^ 62"
proof -
  show l: "unat (seq (last frames)) < 2 ^ 62"
    using assms last_in_set [OF assms(1)] by (auto simp: list_all_iff numbered_def)
  then show "unat (seq (last frames) + 1) = unat (seq (last frames)) + 1" by (simp add: unat_Suc_small)
qed

section \<open>Replies\<close>

text \<open>Handling replies only touches the probe and its statistics.\<close>

definition sans_probe :: "egress \<Rightarrow> egress" where
  "sans_probe s = s\<lparr>e_reply_buf := [], e_rtt := samples_new 0, e_echo_outstanding := False,
     e_echoes_returned := 0\<rparr>"

lemma handle_reply_probe: "sans_probe (handle_reply now p s) = sans_probe s"
  by (simp add: handle_reply_def sans_probe_def split: sum.splits)

lemma fold_reply_probe:
  "sans_probe (fold (\<lambda>i. handle_reply now (g i)) is s) = sans_probe s"
  by (induction "is" arbitrary: s) (simp_all add: handle_reply_probe)

lemma parse_replies_probe: "sans_probe (snd (parse_replies now buf s)) = sans_probe s"
proof (induction now buf s rule: parse_replies.induct)
  case (1 now buf s)
  show ?case
  proof (cases "length buf < kHeaderSize")
    case False
    then show ?thesis using 1 fold_reply_probe
      by (subst parse_replies.simps) (auto split: sum.splits)
  qed (subst parse_replies.simps, simp)
qed

lemma drain_replies_probe: "sans_probe (drain_replies chunks now s) = sans_probe s"
proof (cases "e_client s")
  case True
  obtain rest s1 where p: "parse_replies now (fold recv_reply chunks (e_reply_buf s)) s = (rest, s1)" by fastforce
  have "sans_probe s1 = sans_probe s" using parse_replies_probe [of now _ s] p by (metis snd_conv)
  moreover have "sans_probe (s1\<lparr>e_reply_buf := rest\<rparr>) = sans_probe s1" by (simp add: sans_probe_def)
  ultimately show ?thesis using True p by (simp add: drain_replies_def)
qed (simp add: drain_replies_def)

lemma sans_probe_fields:
  assumes "sans_probe s' = sans_probe s"
  shows "e_tuning s' = e_tuning s" "e_client s' = e_client s" "e_pending s' = e_pending s"
    "e_pending_offset s' = e_pending_offset s" "e_next_seq s' = e_next_seq s" "e_have_seq s' = e_have_seq s"
    "e_reconnected s' = e_reconnected s" "e_connected s' = e_connected s" "e_done s' = e_done s"
    "e_wire s' = e_wire s" "e_echo_nonce s' = e_echo_nonce s" "e_echoes_sent s' = e_echoes_sent s"
  using arg_cong [OF assms, of e_tuning] arg_cong [OF assms, of e_client] arg_cong [OF assms, of e_pending]
    arg_cong [OF assms, of e_pending_offset] arg_cong [OF assms, of e_next_seq] arg_cong [OF assms, of e_have_seq]
    arg_cong [OF assms, of e_reconnected] arg_cong [OF assms, of e_connected] arg_cong [OF assms, of e_done]
    arg_cong [OF assms, of e_wire] arg_cong [OF assms, of e_echo_nonce] arg_cong [OF assms, of e_echoes_sent]
  by (simp_all add: sans_probe_def)

section \<open>The loop invariant\<close>

text \<open>At the head of the loop nothing is half sent; what a connection has accepted is the encoding of the
  batches sent on it, whose records never go back and end where the next batch is expected.\<close>

definition connection_ok :: "egress \<Rightarrow> bool" where
  "connection_ok s \<longleftrightarrow> e_wire s = concat (map batch_bytes (e_done s)) \<and> list_all batch_ok_wire (e_done s) \<and>
     [] \<notin> set (e_done s) \<and>
     (e_done s \<noteq> [] \<longrightarrow> e_have_seq s \<and> \<not> is_echo (hd (concat (e_done s))) \<and>
        well_ordered (unat (seq (hd (concat (e_done s))))) (concat (e_done s)) \<and>
        stream_end (unat (seq (hd (concat (e_done s))))) (concat (e_done s)) = unat (e_next_seq s))"

definition head_inv :: "egress \<Rightarrow> bool" where
  "head_inv s \<longleftrightarrow> e_pending s = [] \<and> e_pending_offset s = 0 \<and> e_connected s = e_client s \<and>
     0 < tn_max_frames (e_tuning s) \<and> tn_max_frames (e_tuning s) \<le> kMaxBatch \<and>
     unat (e_next_seq s) \<le> 2 ^ 62 \<and> (e_client s \<longrightarrow> connection_ok s)"

lemma head_inv_new:
  "0 < tn_max_frames t \<Longrightarrow> tn_max_frames t \<le> kMaxBatch \<Longrightarrow> head_inv (egress_new t)"
  by (simp add: head_inv_def egress_new_def)

lemma head_inv_cong:
  assumes "head_inv s" "e_tuning s' = e_tuning s" "e_client s' = e_client s" "e_pending s' = e_pending s"
    "e_pending_offset s' = e_pending_offset s" "e_next_seq s' = e_next_seq s" "e_have_seq s' = e_have_seq s"
    "e_connected s' = e_connected s" "e_done s' = e_done s" "e_wire s' = e_wire s"
  shows "head_inv s'"
  using assms by (simp add: head_inv_def connection_ok_def)

lemma wait_for_client_inv:
  assumes "head_inv s" "wait_for_client es s = (r, s')"
  shows "head_inv s' \<and> e_next_seq s' = e_next_seq s \<and> (r = HasClient \<longleftrightarrow> e_client s')"
  using assms
proof (induction es arbitrary: s)
  case Nil
  then show ?case by (auto split: if_splits)
next
  case (Cons e es)
  show ?case
  proof (cases "e_client s")
    case True
    then show ?thesis using Cons.prems by auto
  next
    case False
    let ?s = "s\<lparr>e_client := True, e_connected := True, e_connects := e_connects s + 1, e_wire := [], e_done := []\<rparr>"
    have "head_inv ?s" using Cons.prems(1) by (simp add: head_inv_def connection_ok_def)
    then show ?thesis using Cons False by (cases e) auto
  qed
qed

lemma drop_client_inv:
  assumes "0 < tn_max_frames (e_tuning s)" "tn_max_frames (e_tuning s) \<le> kMaxBatch"
    "unat (e_next_seq s) \<le> 2 ^ 62" "e_client s"
  shows "head_inv (drop_client s)" "e_next_seq (drop_client s) = e_next_seq s"
  using assms by (simp_all add: head_inv_def drop_client_def)

lemma concat_ne: "xss \<noteq> [] \<Longrightarrow> [] \<notin> set xss \<Longrightarrow> concat xss \<noteq> []"
  by (cases xss) auto

text \<open>The records of a turn, and what sending them does: all their bytes were accepted and counted, or the client is
  dropped after some of them. Either way the position has moved past the batch.\<close>

definition turn_records :: "run_env \<Rightarrow> frame list \<Rightarrow> egress \<Rightarrow> frame list" where
  "turn_records env batch s = gap_for (ev_gap_now env) batch s @ batch @
     echo_for (ev_echo_now env) (note_gap (ev_gap_now env) batch s)"

lemma turn_records_wire_ok: "list_all numbered batch \<Longrightarrow> list_all wire_ok (turn_records env batch s)"
  by (auto simp: turn_records_def gap_for_def echo_for_def list_all_iff numbered_def bus_frame_def)

definition batch_sent :: "frame list \<Rightarrow> frame list \<Rightarrow> egress \<Rightarrow> egress \<Rightarrow> bool" where
  "batch_sent batch out s s' \<longleftrightarrow> e_client s' \<and> e_wire s' = e_wire s @ batch_bytes out \<and> e_done s' = e_done s @ [out] \<and>
     e_frames_sent s' = e_frames_sent s + of_nat (length batch) \<and>
     e_bytes_sent s' = e_bytes_sent s + of_nat (length (batch_bytes out))"

definition batch_failed :: "frame list \<Rightarrow> egress \<Rightarrow> egress \<Rightarrow> bool" where
  "batch_failed out s s' \<longleftrightarrow> \<not> e_client s' \<and> (\<exists>k < length (batch_bytes out). e_wire s' = e_wire s @ take k (batch_bytes out)) \<and>
     e_done s' = e_done s \<and> e_frames_sent s' = e_frames_sent s \<and> e_reconnected s'"

lemma send_batch_outcome:
  fixes env :: run_env
  assumes "e_client s" "batch \<noteq> []" "list_all numbered batch"
  defines "out \<equiv> turn_records env batch s" and "s' \<equiv> send_batch env batch s"
  shows "batch_sent batch out s s' \<or> batch_failed out s s'" (is ?sent)
    "e_have_seq s' \<and> e_next_seq s' = seq (last batch) + 1 \<and> e_gaps_sent s' = e_gaps_sent (note_gap (ev_gap_now env) batch s)" (is ?seq)
    "e_pending s' = [] \<and> e_pending_offset s' = 0 \<and> e_tuning s' = e_tuning s \<and> e_connected s' = (e_client s' \<and> e_connected s)" (is ?idle)
proof -
  define s2 where "s2 = maybe_send_echo (ev_echo_now env) (note_gap (ev_gap_now env) batch s)"
  have out: "e_outgoing s2 = out"
    by (simp add: s2_def out_def turn_records_def echo_outgoing note_gap_fields [OF assms(2)])
  have "list_all frame_ok out"
    using turn_records_wire_ok [OF assms(3)] by (auto simp: out_def list_all_iff wire_ok_def)
  then have enc: "encode_batch (e_outgoing s2) s2 = s2\<lparr>e_pending := batch_bytes out, e_pending_offset := 0\<rparr>"
    by (simp add: out encode_batch_bytes)
  define s3 where "s3 = s2\<lparr>e_pending := batch_bytes out, e_pending_offset := 0\<rparr>"
  obtain ok s4 where fl: "flush_pending (ev_flush2 env) s3 = (ok, s4)" by fastforce
  have keep: "e_client s3" "e_wire s3 = e_wire s" "e_done s3 = e_done s" "e_frames_sent s3 = e_frames_sent s"
      "e_bytes_sent s3 = e_bytes_sent s" "e_have_seq s3" "e_next_seq s3 = seq (last batch) + 1" "e_tuning s3 = e_tuning s"
      "e_connected s3 = e_connected s" "e_outgoing s3 = out" "e_gaps_sent s3 = e_gaps_sent (note_gap (ev_gap_now env) batch s)"
    using assms(1) out by (simp_all add: s3_def s2_def note_gap_fields [OF assms(2)])
  obtain k where w: "e_wire s4 = e_wire s3 @ take k (batch_bytes out)" "k \<le> length (batch_bytes out)"
      "e_bytes_sent s4 = e_bytes_sent s3 + of_nat k" "ok \<longleftrightarrow> k = length (batch_bytes out)"
      "ok \<longrightarrow> e_pending s4 = [] \<and> e_pending_offset s4 = 0" "sans_flush s4 = sans_flush s3"
    using flush_effect [OF fl] by (auto simp: flushed_def s3_def get_def)
  note same = sans_flush_fields [OF w(6)]
  have sb: "s' = (if ok then s4\<lparr>e_frames_sent := e_frames_sent s4 + of_nat (length batch),
      e_batches_sent := e_batches_sent s4 + 1, e_done := e_done s4 @ [e_outgoing s4]\<rparr> else drop_client s4)"
    using fl enc unfolding s'_def send_batch_def Let_def s2_def [symmetric] s3_def by (simp split: bool.splits)
  show ?seq ?idle using sb keep same w(5) by (simp_all add: drop_client_def)
  show ?sent
  proof (cases ok)
    case True
    then show ?thesis using sb w keep same by (simp add: batch_sent_def)
  next
    case False
    then have "k < length (batch_bytes out)" using w(2,4) by simp
    then show ?thesis using sb w(1) keep same False by (auto simp: batch_failed_def drop_client_def)
  qed
qed

text \<open>The records of a turn continue those of the connection.\<close>

lemma turn_records_start:
  fixes env :: run_env
  assumes "batch \<noteq> []" "list_all numbered batch" "ascends (unat (e_next_seq s)) batch"
  defines "out \<equiv> turn_records env batch s"
  shows "out \<noteq> [] \<and> \<not> is_echo (hd out) \<and> unat (seq (hd out)) = (if e_have_seq s then unat (e_next_seq s) else unat (seq (hd batch)))"
proof (cases "gap_for (ev_gap_now env) batch s = []")
  case True
  have "unat (e_next_seq s) \<le> unat (seq (hd batch))" using assms(1,3) by (cases batch) (simp_all add: ascends_Cons)
  moreover have "\<not> e_have_seq s \<or> \<not> seq (hd batch) > e_next_seq s" using True by (simp add: gap_for_def split: if_splits)
  moreover have "\<not> is_echo (hd batch)" using assms(1,2) numbered_kind [of "hd batch"] by (auto simp: list_all_iff)
  ultimately show ?thesis using True assms(1) by (auto simp: out_def turn_records_def word_less_nat_alt)
qed (auto simp: out_def turn_records_def gap_for_def split: if_splits)

lemma connection_extends:
  fixes env :: run_env
  assumes "connection_ok s" "batch \<noteq> []" "list_all numbered batch" "ascends (unat (e_next_seq s)) batch"
  defines "all \<equiv> concat (e_done s) @ turn_records env batch s"
  shows "\<not> is_echo (hd all) \<and> well_ordered (unat (seq (hd all))) all \<and>
    stream_end (unat (seq (hd all))) all = unat (seq (last batch)) + 1"
proof (cases "e_done s = []")
  case True
  then show ?thesis
    using outgoing_stream [OF assms(2-4), of _ "ev_gap_now env" "ev_echo_now env"] turn_records_start [OF assms(2-4), of env]
    by (simp add: all_def turn_records_def)
next
  case False
  then have c: "e_have_seq s" "\<not> is_echo (hd (concat (e_done s)))" "concat (e_done s) \<noteq> []"
      "well_ordered (unat (seq (hd (concat (e_done s))))) (concat (e_done s))"
      "stream_end (unat (seq (hd (concat (e_done s))))) (concat (e_done s)) = unat (e_next_seq s)"
    using assms(1) concat_ne [of "e_done s"] by (simp_all add: connection_ok_def)
  then show ?thesis
    using outgoing_stream [OF assms(2-4), of "unat (e_next_seq s)"]
    by (simp add: all_def turn_records_def well_ordered_append stream_end_append)
qed

lemma send_batch_inv:
  assumes inv: "head_inv s" and client: "e_client s" and ne: "batch \<noteq> []"
    and fr: "list_all numbered batch" "ascends (unat (e_next_seq s)) batch"
    and len: "length batch \<le> tn_max_frames (e_tuning s)"
  shows "head_inv (send_batch env batch s) \<and>
    unat (e_next_seq (send_batch env batch s)) = resume_at (unat (e_next_seq s)) batch"
proof -
  let ?s = "send_batch env batch s" and ?out = "turn_records env batch s"
  note outcome = send_batch_outcome [OF client ne fr(1), of env]
  have n: "unat (e_next_seq ?s) = unat (seq (last batch)) + 1" "unat (seq (last batch)) < 2 ^ 62"
    using next_seq_after [OF ne fr(1)] outcome(2) by simp_all
  have cok: "connection_ok s" using inv client by (simp add: head_inv_def)
  have "length ?out \<le> length batch + 2" by (simp add: turn_records_def gap_for_def echo_for_def)
  then have bok: "batch_ok_wire ?out"
    using turn_records_wire_ok [OF fr(1)] len inv by (simp add: batch_ok_wire_def head_inv_def kMaxBatch_def)
  have "connection_ok ?s" if "e_client ?s"
  proof -
    have "e_wire ?s = e_wire s @ batch_bytes ?out" "e_done ?s = e_done s @ [?out]"
      using outcome(1) that by (auto simp: batch_sent_def batch_failed_def)
    then show ?thesis
      using connection_extends [OF cok ne fr, of env] turn_records_start [OF ne fr, of env] cok bok outcome(2) n(1)
      by (auto simp: connection_ok_def)
  qed
  then show ?thesis
    using inv client outcome(2,3) n by (simp add: head_inv_def resume_at_last [OF ne])
qed

section \<open>The loop, against the interface of the feed\<close>

context consumer_feed
begin

lemma coalesce_loop_promise:
  assumes "feed_from (resume_at lo batch) fd" "list_all numbered batch" "ascends lo batch" "length batch \<le> limit"
  shows "\<exists>batch' waited' fd'. coalesce_loop pop limit deadline nows waited batch fd = Some (batch', waited', fd') \<and>
    feed_from (resume_at lo batch') fd' \<and> list_all numbered batch' \<and> ascends lo batch' \<and>
    length batch' \<le> limit \<and> (batch \<noteq> [] \<longrightarrow> batch' \<noteq> [])"
  using assms
proof (induction nows arbitrary: waited batch fd)
  case Nil
  then show ?case by simp
next
  case (Cons now nows)
  obtain more fd1 where p: "pop (limit - length batch) fd = Some (more, fd1)" "length more \<le> limit - length batch"
      "list_all numbered more" "ascends (resume_at lo batch) more" "feed_from (resume_at (resume_at lo batch) more) fd1"
    using pop_promise [OF Cons.prems(1)] by blast
  show ?case
  proof (cases "\<not> length batch < limit \<or> now \<ge> deadline")
    case True
    then show ?thesis using Cons.prems by simp
  next
    case False
    show ?thesis
    proof (cases "more = []")
      case True
      then show ?thesis using False p Cons.prems by (simp add: resume_at_def)
    next
      case more: False
      have "feed_from (resume_at lo (batch @ more)) fd1" "list_all numbered (batch @ more)"
          "ascends lo (batch @ more)" "length (batch @ more) \<le> limit"
        using p Cons.prems False by (simp_all add: resume_at_append ascends_append)
      from Cons.IH [OF this, of True] show ?thesis using False more p(1) by auto
    qed
  qed
qed

lemma coalesce_promise:
  assumes "feed_from (resume_at lo batch) fd" "list_all numbered batch" "ascends lo batch"
    "length batch \<le> tn_max_frames (e_tuning s)"
  obtains batch' n fd' where "coalesce pop start nows batch s fd = Some (batch', s\<lparr>e_lingered := n\<rparr>, fd')"
    "feed_from (resume_at lo batch') fd'" "list_all numbered batch'" "ascends lo batch'"
    "length batch' \<le> tn_max_frames (e_tuning s)" "batch \<noteq> [] \<longrightarrow> batch' \<noteq> []"
proof (cases "tn_linger_us (e_tuning s) = 0 \<or> length batch \<ge> tn_max_frames (e_tuning s)")
  case True
  then show thesis using that [of batch "e_lingered s" fd] assms by (auto simp: coalesce_def)
next
  case False
  obtain batch' w fd' where c:
    "coalesce_loop pop (tn_max_frames (e_tuning s)) (start + ucast (tn_linger_us (e_tuning s)) * 1000) nows False batch fd =
      Some (batch', w, fd')"
    "feed_from (resume_at lo batch') fd'" "list_all numbered batch'" "ascends lo batch'"
    "length batch' \<le> tn_max_frames (e_tuning s)" "batch \<noteq> [] \<longrightarrow> batch' \<noteq> []"
    using coalesce_loop_promise [OF assms] by blast
  show thesis
    using that [of batch' "if w then e_lingered s + 1 else e_lingered s" fd'] c False
    by (auto simp: coalesce_def)
qed

lemma take_batch_promise:
  assumes "feed_from lo fd"
  obtains batch n fd' where "take_batch pop env s fd = Some (batch, s\<lparr>e_lingered := n\<rparr>, fd')" "list_all numbered batch"
    "ascends lo batch" "length batch \<le> tn_max_frames (e_tuning s)" "feed_from (resume_at lo batch) fd'"
proof -
  obtain b fd1 where p: "pop (tn_max_frames (e_tuning s)) fd = Some (b, fd1)" "length b \<le> tn_max_frames (e_tuning s)"
      "list_all numbered b" "ascends lo b" "feed_from (resume_at lo b) fd1"
    using pop_promise [OF assms] by blast
  show thesis
  proof (cases "b = []")
    case True
    then show thesis using that [of b "e_lingered s" fd1] p by (simp add: take_batch_def)
  next
    case False
    obtain batch n fd2 where "coalesce pop (ev_linger_start env) (ev_linger_nows env) b s fd1 = Some (batch, s\<lparr>e_lingered := n\<rparr>, fd2)"
        "feed_from (resume_at lo batch) fd2" "list_all numbered batch" "ascends lo batch" "length batch \<le> tn_max_frames (e_tuning s)"
      by (rule coalesce_promise [OF p(5,3,4,2)])
    then show thesis using that [of batch n fd2] p(1) False by (simp add: take_batch_def)
  qed
qed

lemma serve_client_inv:
  assumes "head_inv s" "e_client s" "feed_from (unat (e_next_seq s)) fd"
  shows "\<exists>stop s' fd'. serve_client pop is_closed env s fd = Some (stop, s', fd') \<and> head_inv s' \<and>
    feed_from (unat (e_next_seq s')) fd'"
proof -
  obtain batch n fd' where t: "take_batch pop env s fd = Some (batch, s\<lparr>e_lingered := n\<rparr>, fd')" "list_all numbered batch"
      "ascends (unat (e_next_seq s)) batch" "length batch \<le> tn_max_frames (e_tuning s)"
      "feed_from (resume_at (unat (e_next_seq s)) batch) fd'"
    by (rule take_batch_promise [OF assms(3)])
  let ?s = "s\<lparr>e_lingered := n\<rparr>"
  have "head_inv ?s" using head_inv_cong [OF assms(1)] by simp
  then show ?thesis
    using send_batch_inv [of ?s batch env] t assms(2)
    by (cases "batch = []") (auto simp: serve_client_def resume_at_def)
qed

lemma run_turn_inv:
  assumes inv: "head_inv s" and fd: "feed_from (unat (e_next_seq s)) fd"
  shows "\<exists>stop s' fd'. run_turn pop is_closed env s fd = Some (stop, s', fd') \<and> head_inv s' \<and>
    feed_from (unat (e_next_seq s')) fd'"
proof -
  obtain r s1 where w: "wait_for_client (ev_wait env) s = (r, s1)" by fastforce
  have s1: "head_inv s1" "e_next_seq s1 = e_next_seq s" "r = HasClient \<longleftrightarrow> e_client s1"
    using wait_for_client_inv [OF inv w] by auto
  define s3 where "s3 = drain_replies (ev_recv env) (ev_recv_now env) s1"
  note same = sans_probe_fields [OF drain_replies_probe [of "ev_recv env" "ev_recv_now env" s1], folded s3_def]
  have s3: "head_inv s3" using head_inv_cong [OF s1(1)] same by simp
  show ?thesis
  proof (cases r)
    case HasClient
    then have client: "e_client s1" "e_pending s1 = []" using s1 by (simp_all add: head_inv_def)
    have "head_inv (drop_client s1)" "e_next_seq (drop_client s1) = e_next_seq s"
      using s1 client drop_client_inv [of s1] by (simp_all add: head_inv_def)
    then show ?thesis
      using w HasClient client s1(2) fd serve_client_inv [OF s3, of fd is_closed env] same
      by (auto simp: run_turn_def simp flip: s3_def)
  qed (use w s1 fd in \<open>auto simp: run_turn_def\<close>)
qed

lemma egress_run_inv:
  assumes "head_inv s" "feed_from (unat (e_next_seq s)) fd"
  shows "\<exists>s' fd'. egress_run pop is_closed envs s fd = Some (s', fd') \<and> head_inv s' \<and>
    feed_from (unat (e_next_seq s')) fd'"
  using assms
proof (induction envs arbitrary: s fd)
  case Nil
  then show ?case by simp
next
  case (Cons env envs)
  obtain stop s1 fd1 where "run_turn pop is_closed env s fd = Some (stop, s1, fd1)" "head_inv s1"
      "feed_from (unat (e_next_seq s1)) fd1"
    using run_turn_inv [OF Cons.prems] by blast
  then show ?case using Cons.IH by (cases stop) simp_all
qed

end

text \<open>(C14) What a connection carries. For either topology, any arrivals, any behaviour of the client and
  the kernel, over any number of turns: the thread's calls return, and the bytes the current
  connection has accepted are exactly the encoding of the batches sent on it. Their records start
  with a frame or a marker, never go back, and end where the next batch is expected.\<close>

theorem connection_carries_batches:
  assumes "0 < tn_max_frames t" "tn_max_frames t \<le> kMaxBatch"
  shows "(queue_from 0 q \<longrightarrow> (\<exists>s q'. egress_run queue_feed_pop qclosed envs (egress_new t) q = Some (s, q') \<and>
      (e_client s \<longrightarrow> connection_ok s))) \<and>
    (ring_from 0 r \<longrightarrow> (\<exists>s r'. egress_run ring_feed_pop rclosed envs (egress_new t) r = Some (s, r') \<and>
      (e_client s \<longrightarrow> connection_ok s)))"
proof -
  have h: "head_inv (egress_new t)" using head_inv_new [OF assms] .
  have z: "unat (e_next_seq (egress_new t)) = 0" by (simp add: egress_new_def)
  show ?thesis
    using qf.egress_run_inv [OF h, of q qclosed envs] rf.egress_run_inv [OF h, of r rclosed envs]
    unfolding z head_inv_def by blast
qed

definition quiet_env :: run_env where
  "quiet_env = \<lparr>ev_wait = [AccClient], ev_flush1 = [], ev_hup = False, ev_recv = [], ev_recv_now = 0,
     ev_linger_start = 0, ev_linger_nows = [], ev_gap_now = 0, ev_echo_now = 0, ev_flush2 = [Room 1000]\<rparr>"

theorem connection_carries_batches_witness:
  "\<exists>s q'. egress_run queue_feed_pop (\<lambda>_. False) [quiet_env]
      (egress_new \<lparr>tn_max_frames = 8, tn_linger_us = 0, tn_echo_ms = 0\<rparr>) ([[zero_frame]], bq_new zero_frame 2) =
      Some (s, q') \<and> (e_client s \<longrightarrow> connection_ok s)"
proof -
  have "numbered zero_frame"
    by (simp add: numbered_def bus_frame_def wire_ok_def is_control_def zero_frame_def frame_ok_def kMaxPayload_def)
  then have "queue_from 0 ([[zero_frame]], bq_new zero_frame 2)"
    using bq_inv_new [of zero_frame 2] bq_view_new [of zero_frame 2]
    by (simp add: queue_from_def ascends_Cons)
  moreover have "0 < tn_max_frames \<lparr>tn_max_frames = 8, tn_linger_us = 0, tn_echo_ms = 0\<rparr>"
    "tn_max_frames \<lparr>tn_max_frames = 8, tn_linger_us = 0, tn_echo_ms = 0\<rparr> \<le> kMaxBatch"
    by (simp_all add: kMaxBatch_def)
  ultimately show ?thesis using connection_carries_batches by blast
qed

section \<open>Loss reporting\<close>

text \<open>A marker says exactly what the consumer did not get in front of a batch. When the batch starts
  beyond the position the consumer was left at, one marker goes first: it starts at that position,
  covers everything up to the batch, and blames the consumer only if it was connected throughout;
  only then do the missing frames count as lost. Otherwise there is no marker.\<close>

theorem note_gap_reports_hole:
  assumes "frames \<noteq> []" "e_have_seq s" "unat (e_next_seq s) \<le> unat (seq (hd frames))"
  shows "let s' = note_gap now frames s; missing = unat (seq (hd frames)) - unat (e_next_seq s) in
    \<exists>marker. e_outgoing s' = marker @ frames \<and> contiguous (unat (e_next_seq s)) marker \<and>
      stream_end (unat (e_next_seq s)) marker = unat (seq (hd frames)) \<and>
      (missing = 0 \<longrightarrow> marker = [] \<and> e_gaps_sent s' = e_gaps_sent s \<and> e_frames_lost s' = e_frames_lost s) \<and>
      (0 < missing \<longrightarrow> (\<exists>m. marker = [m] \<and> is_gap m \<and>
         gap_reason m = (if e_reconnected s then kConsumerAbsent else kConsumerOverrun)) \<and>
         e_gaps_sent s' = e_gaps_sent s + 1 \<and>
         e_frames_lost s' = e_frames_lost s + (if e_reconnected s then 0 else of_nat missing)) \<and>
      e_next_seq s' = seq (last frames) + 1 \<and> \<not> e_reconnected s'"
proof -
  let ?g = "gap_for now frames s" and ?m = "unat (seq (hd frames)) - unat (e_next_seq s)"
  have g: "contiguous (unat (e_next_seq s)) ?g" "stream_end (unat (e_next_seq s)) ?g = unat (seq (hd frames))"
    using gap_for_stream [OF assms, of now] by auto
  have iff: "?g = [] \<longleftrightarrow> ?m = 0" using assms(2) by (simp add: gap_for_def word_less_nat_alt)
  have w: "of_nat ?m = seq (hd frames) - e_next_seq s" using assms(3) by (simp add: of_nat_diff)
  have "?g = [] \<or> (\<exists>m. ?g = [m] \<and> is_gap m \<and>
      gap_reason m = (if e_reconnected s then kConsumerAbsent else kConsumerOverrun))"
    by (simp add: gap_for_def gap_reason_def)
  then show ?thesis
  proof
    assume e: "?g = []"
    then show ?thesis using note_gap_fields [OF assms(1), of now s] g iff
      unfolding Let_def by (intro exI [of _ ?g]) simp
  next
    assume "\<exists>m. ?g = [m] \<and> is_gap m \<and>
      gap_reason m = (if e_reconnected s then kConsumerAbsent else kConsumerOverrun)"
    then obtain m where m: "?g = [m]" "is_gap m"
      "gap_reason m = (if e_reconnected s then kConsumerAbsent else kConsumerOverrun)" by blast
    then have "0 < ?m" using iff by simp
    then show ?thesis using note_gap_fields [OF assms(1), of now s] g m w
      unfolding Let_def by (intro exI [of _ ?g] conjI) simp_all
  qed
qed

theorem note_gap_reports_hole_witness:
  "\<exists>marker. e_outgoing (note_gap 9 [zero_frame\<lparr>seq := 7\<rparr>]
      ((egress_new \<lparr>tn_max_frames = 8, tn_linger_us = 0, tn_echo_ms = 0\<rparr>)\<lparr>e_have_seq := True, e_next_seq := 3\<rparr>)) =
      marker @ [zero_frame\<lparr>seq := 7\<rparr>] \<and> (\<exists>m. marker = [m] \<and> is_gap m \<and> gap_reason m = kConsumerOverrun)"
proof -
  let ?s = "(egress_new \<lparr>tn_max_frames = 8, tn_linger_us = 0, tn_echo_ms = 0\<rparr>)\<lparr>e_have_seq := True, e_next_seq := 3\<rparr>"
  have r: "e_have_seq ?s" "\<not> e_reconnected ?s" "unat (e_next_seq ?s) = 3" "unat (seq (zero_frame\<lparr>seq := 7\<rparr>)) = 7"
    by (simp_all add: egress_new_def)
  show ?thesis
    using note_gap_reports_hole [of "[zero_frame\<lparr>seq := 7\<rparr>]" ?s 9] r unfolding Let_def by auto
qed

section \<open>All or nothing\<close>



text \<open>A batch lost with its connection is never reported. When the write of a batch fails the client is
  dropped, but the position has already moved past the batch: if the next batch continues right
  after it, the reconnected consumer gets no marker and no loss is counted, although it never got
  the frames of the failed batch (not one of them was counted as sent).\<close>

theorem failed_batch_goes_unreported:
  assumes "e_client s" "batch \<noteq> []" "list_all numbered batch" "\<not> e_client (send_batch env batch s)"
    and "frames \<noteq> []" "seq (hd frames) = seq (last batch) + 1"
  shows "let s' = send_batch env batch s; s'' = note_gap now frames s' in
    e_frames_sent s' = e_frames_sent s \<and> e_outgoing s'' = frames \<and> e_gaps_sent s'' = e_gaps_sent s' \<and>
    e_frames_lost s'' = e_frames_lost s'"
proof -
  let ?s = "send_batch env batch s"
  have "e_have_seq ?s" "e_next_seq ?s = seq (hd frames)" "e_frames_sent ?s = e_frames_sent s"
    using send_batch_outcome(1,2) [OF assms(1-3), of env] assms(4,6) by (auto simp: batch_sent_def batch_failed_def)
  moreover from this have "gap_for now frames ?s = []" by (simp add: gap_for_def)
  ultimately show ?thesis using note_gap_fields [OF assms(5), of now ?s] by (simp add: Let_def)
qed

theorem failed_batch_goes_unreported_witness:
  "let s = (egress_new \<lparr>tn_max_frames = 8, tn_linger_us = 0, tn_echo_ms = 0\<rparr>)\<lparr>e_client := True\<rparr>;
       s' = send_batch (quiet_env\<lparr>ev_flush2 := [Room 20, FlushFail]\<rparr>) [zero_frame] s
   in e_frames_sent s' = e_frames_sent s \<and>
      e_outgoing (note_gap 5 [zero_frame\<lparr>seq := 1\<rparr>] s') = [zero_frame\<lparr>seq := 1\<rparr>]"
proof -
  let ?s = "(egress_new \<lparr>tn_max_frames = 8, tn_linger_us = 0, tn_echo_ms = 0\<rparr>)\<lparr>e_client := True\<rparr>"
  let ?env = "quiet_env\<lparr>ev_flush2 := [Room 20, FlushFail]\<rparr>"
  have n: "list_all numbered [zero_frame]"
    by (simp add: numbered_def bus_frame_def wire_ok_def is_control_def zero_frame_def frame_ok_def kMaxPayload_def)
  have c: "e_client ?s" by simp
  have "e_client (send_batch ?env [zero_frame] ?s) = False" by code_simp
  then have d: "\<not> e_client (send_batch ?env [zero_frame] ?s)" by simp
  have q: "seq (hd [zero_frame\<lparr>seq := 1\<rparr>]) = seq (last [zero_frame]) + 1" by (simp add: zero_frame_def)
  show ?thesis using failed_batch_goes_unreported [OF c _ n d _ q, of 5] unfolding Let_def by simp
qed

section \<open>A hole inside a batch\<close>

text \<open>A consumer with a queue of two frames and a linger budget. The first pop takes frames 0 and 1; while
  the thread lingers, frames 2 to 5 arrive and the queue drops 2 and 3; the second pop takes 4 and 5.\<close>

definition hole_feed :: queue_feed where
  "hole_feed = ([map (\<lambda>i. zero_frame\<lparr>seq := i\<rparr>) [0, 1], map (\<lambda>i. zero_frame\<lparr>seq := i\<rparr>) [2, 3, 4, 5]],
     bq_new zero_frame 2)"

text \<open>Loss inside a coalesced batch is silent. \<open>note_gap\<close> only looks at the first frame of a batch, so
  when the queue overflows between two pops that are coalesced into one batch, the batch has a hole
  the gateway knows about (the queue counted the drops) and does not report: the outgoing records
  hold no marker, no loss is counted, and the consumer's tracker sees a silent jump of the two
  dropped frames.\<close>

theorem coalesced_hole_is_silent:
  "map_option (\<lambda>(batch, s, (arr, q)). let s' = note_gap 0 batch s; seen = observe_all (e_outgoing s') gap_tracker0 in
      (map seq (e_outgoing s'), e_gaps_sent s', e_frames_lost s', q_dropped q,
       gs_silent_jumps (gt_s seen), gs_silent_lost (gt_s seen)))
    (Option.bind (queue_feed_pop 8 hole_feed) (\<lambda>(batch, fd).
       coalesce queue_feed_pop 0 [0, 0] batch
         (egress_new \<lparr>tn_max_frames = 8, tn_linger_us = 100, tn_echo_ms = 0\<rparr>) fd)) =
   Some ([0, 1, 4, 5], 0, 0, 2, 1, 2)"
  by code_simp

end
