(* ===== verification/Capture_File.thy ===== *)
theory Capture_File
  imports Prelude
begin

text \<open>
  The output file of the recorder, as far as the C library and the operating system promise it: bytes that the stream has accepted
  wait in its buffer, at a time of its own choice the library passes them on to the kernel, and what the kernel has
  survives a loss of power once \<^verbatim>\<open>fsync\<close> has returned successfully. The contract \<open>stable_log\<close> is what a program that
  appends and commits relies on; the account of a program that commits after every \<open>k\<close>-th append follows from it.
\<close>

section \<open>Streams\<close>

record capture_file =
  cf_buffer :: "u8 list"
  cf_kernel :: "u8 list"
  cf_synced :: nat

text \<open>Mode \<^verbatim>\<open>"wb"\<close>: the file is empty.\<close>

definition file_new :: capture_file where
  "file_new = \<lparr>cf_buffer = [], cf_kernel = [], cf_synced = 0\<rparr>"

text \<open>\<^verbatim>\<open>fwrite\<close> of bytes that are all accepted; \<open>spill\<close> is how many of the waiting bytes are passed on.\<close>

definition file_fwrite :: "nat \<Rightarrow> u8 list \<Rightarrow> capture_file \<Rightarrow> capture_file" where
  "file_fwrite spill bytes f =
     (let waiting = cf_buffer f @ bytes
      in f\<lparr>cf_buffer := drop spill waiting, cf_kernel := cf_kernel f @ take spill waiting\<rparr>)"

text \<open>\<^verbatim>\<open>fflush\<close>. After a failure some bytes have been passed on; whether the rest still waits is up to the library.\<close>

datatype flush_result = Flushed | FlushFailed nat bool

definition file_fflush :: "flush_result \<Rightarrow> capture_file \<Rightarrow> capture_file" where
  "file_fflush r f =
     (case r of
        Flushed \<Rightarrow> f\<lparr>cf_buffer := [], cf_kernel := cf_kernel f @ cf_buffer f\<rparr>
      | FlushFailed n keep \<Rightarrow> f\<lparr>cf_buffer := (if keep then drop n (cf_buffer f) else []),
          cf_kernel := cf_kernel f @ take n (cf_buffer f)\<rparr>)"

definition file_fsync :: "bool \<Rightarrow> capture_file \<Rightarrow> capture_file" where
  "file_fsync ok f = (if ok then f\<lparr>cf_synced := length (cf_kernel f)\<rparr> else f)"

text \<open>\<^verbatim>\<open>fclose\<close> flushes, and forgets what it could not pass on.\<close>

definition file_fclose :: "flush_result \<Rightarrow> capture_file \<Rightarrow> u8 list" where
  "file_fclose r f = cf_kernel (file_fflush r f)"

text \<open>Everything accepted so far, if nothing failed; and what a loss of power leaves at least.\<close>

definition file_whole :: "capture_file \<Rightarrow> u8 list" where
  "file_whole f = cf_kernel f @ cf_buffer f"

definition file_durable :: "capture_file \<Rightarrow> u8 list" where
  "file_durable f = take (cf_synced f) (cf_kernel f)"

section \<open>Logs\<close>

text \<open>\<open>k\<close> is the number of entries from one commit to the next, 0 for none.\<close>

definition commit_due :: "nat \<Rightarrow> nat \<Rightarrow> bool" where
  "commit_due k n \<longleftrightarrow> k \<noteq> 0 \<and> n mod k = 0"

definition logged :: "('f \<Rightarrow> 'b list) \<Rightarrow> ('f \<Rightarrow> 'b list) \<Rightarrow> nat \<Rightarrow> 'b list list \<Rightarrow> 'f \<Rightarrow> bool" where
  "logged whole durable k ds f \<longleftrightarrow> whole f = concat ds \<and> durable f = concat (take (length ds div k * k) ds)"

locale stable_log =
  fixes append :: "'b list \<Rightarrow> 'f \<Rightarrow> 'f" and commit :: "'f \<Rightarrow> 'f" and whole durable :: "'f \<Rightarrow> 'b list" and ok :: "'f \<Rightarrow> bool"
  assumes append_whole: "ok f \<Longrightarrow> ok (append d f) \<and> whole (append d f) = whole f @ d"
    and append_durable: "ok f \<Longrightarrow> durable (append d f) = durable f"
    and commit_whole: "ok f \<Longrightarrow> ok (commit f) \<and> whole (commit f) = whole f"
    and commit_durable: "ok f \<Longrightarrow> durable (commit f) = whole f"
begin

lemma append_logged:
  assumes "ok f" "logged whole durable k ds f"
  shows "let g = (if commit_due k (Suc (length ds)) then commit (append d f) else append d f) in
    ok g \<and> logged whole durable k (ds @ [d]) g"
proof (cases "commit_due k (Suc (length ds))")
  case True
  then have "Suc (length ds) div k * k = Suc (length ds)" by (auto simp: commit_due_def)
  then show ?thesis using True assms append_whole commit_whole commit_durable by (simp add: logged_def Let_def)
next
  case False
  then have "Suc (length ds) div k = length ds div k" by (cases "k = 0") (auto simp: commit_due_def div_Suc)
  then show ?thesis using False assms append_whole append_durable by (simp add: logged_def Let_def)
qed

end

text \<open>A file whose flushes and syncs succeed is such a log. What has been synced is a part of what the kernel has.\<close>

definition file_ok :: "capture_file \<Rightarrow> bool" where
  "file_ok f \<longleftrightarrow> cf_synced f \<le> length (cf_kernel f)"

lemma file_fwrite_whole: "file_whole (file_fwrite spill d f) = file_whole f @ d"
  by (simp add: file_whole_def file_fwrite_def Let_def del: take_append drop_append)

lemma file_fwrite_durable: "file_ok f \<Longrightarrow> file_ok (file_fwrite spill d f) \<and> file_durable (file_fwrite spill d f) = file_durable f"
  by (simp add: file_ok_def file_durable_def file_fwrite_def Let_def)

lemma file_commit:
  "file_ok (file_fsync True (file_fflush Flushed f))" "file_whole (file_fsync True (file_fflush Flushed f)) = file_whole f"
  "file_durable (file_fsync True (file_fflush Flushed f)) = file_whole f"
  by (simp_all add: file_ok_def file_fsync_def file_fflush_def file_whole_def file_durable_def)

interpretation file_log: stable_log "file_fwrite spill" "\<lambda>f. file_fsync True (file_fflush Flushed f)" file_whole file_durable file_ok
  by unfold_locales (simp_all add: file_fwrite_whole file_fwrite_durable file_commit)

lemma file_new_logged: "file_ok file_new" "logged file_whole file_durable k [] file_new"
  by (simp_all add: file_new_def file_ok_def logged_def file_whole_def file_durable_def)

lemma file_close_whole: "file_fclose Flushed (file_fflush Flushed f) = file_whole f" "file_fclose Flushed f = file_whole f"
  by (simp_all add: file_fclose_def file_fflush_def file_whole_def)

end
