(* ===== verification/Consumer.thy ===== *)
theory Consumer
  imports Egress_Safety Capture_File
begin

text \<open>
  What the four consumer programs share: a connection that is read batch by batch, probes that are
  returned, a gap tracker, and an outer loop that reconnects. \<open>consumer\<close> is the state they have in common;
  each program's state extends it. A turn of the inner loop sees the reads, the answers of the socket to the
  probes it returns and a few clock readings (\<open>turn_env\<close>). The contract \<open>tracking_consumer\<close> says what a turn
  does with the connection and the tracker; the account of a whole session follows from it, once for all of
  them.
\<close>

section \<open>The connection\<close>

record link =
  ln_stream :: frame_stream
  ln_in :: "u8 list"
  ln_sends :: "send_event list list"
  ln_replies :: "u8 list"

record consumer =
  co_link :: link
  co_gaps :: gap_tracker
  co_protocol_errs :: u64

definition no_link :: link where
  "no_link = \<lparr>ln_stream = stream_new, ln_in = [], ln_sends = [], ln_replies = []\<rparr>"

record turn_env =
  te_reads :: "read_event list"
  te_sends :: "send_event list list"
  te_now :: u64
  te_real :: u64
  te_later :: u64
  te_t0 :: u64
  te_t1 :: u64
  te_written :: nat
  te_spill :: nat
  te_flush :: flush_result
  te_fsync :: bool

text \<open>\<open>stream->read_batch(batch, 200)\<close>.\<close>

definition consumer_read :: "turn_env \<Rightarrow> 'a consumer_scheme \<Rightarrow> status \<times> frame list \<times> 'a consumer_scheme" where
  "consumer_read env s =
     (case stream_read_batch (te_reads env) (ln_in (co_link s)) (ln_stream (co_link s)) of
        (st, out, str, inc) \<Rightarrow>
          (st, out, s\<lparr>co_link := (co_link s)\<lparr>ln_stream := str, ln_in := inc, ln_sends := te_sends env\<rparr>\<rparr>))"

text \<open>\<open>stream->send_back(f)\<close>, with the next script of the socket; its result is ignored.\<close>

definition echo_back :: "frame \<Rightarrow> link \<Rightarrow> link" where
  "echo_back f l =
     (let (es, rest) = (case ln_sends l of [] \<Rightarrow> ([], []) | e # r \<Rightarrow> (e, r)) in
      case send_back es f (ln_stream l) of
        (ok, str, sent) \<Rightarrow> l\<lparr>ln_stream := str, ln_sends := rest, ln_replies := ln_replies l @ sent\<rparr>)"

section \<open>Loops\<close>

fun session :: "('e \<Rightarrow> 's \<Rightarrow> bool \<times> 's) \<Rightarrow> 'e list \<Rightarrow> 's \<Rightarrow> 's" where
  "session turn [] s = s"
| "session turn (e # es) s = (case turn e s of (stop, s') \<Rightarrow> if stop then s' else session turn es s')"

text \<open>The outer loop. An attempt to connect fails, or gives a connection, at some time, on which \<open>incoming\<close> will
  arrive and which lasts for some turns. \<open>on_connect\<close> is what the program does with a new connection, \<open>on_end\<close> what
  it does when the session has ended. The boolean says that the program gave up because it could not connect.\<close>

definition new_link :: "u8 list \<Rightarrow> 'a consumer_scheme \<Rightarrow> 'a consumer_scheme" where
  "new_link incoming s = s\<lparr>co_link := no_link\<lparr>ln_in := incoming\<rparr>\<rparr>"

fun run_consumer :: "bool \<Rightarrow> (u64 \<Rightarrow> 'a consumer_scheme \<Rightarrow> 'a consumer_scheme) \<Rightarrow>
    ('e \<Rightarrow> 'a consumer_scheme \<Rightarrow> bool \<times> 'a consumer_scheme) \<Rightarrow> ('a consumer_scheme \<Rightarrow> 'a consumer_scheme) \<Rightarrow>
    (u64 \<times> u8 list \<times> 'e list) option list \<Rightarrow> 'a consumer_scheme \<Rightarrow> bool \<times> 'a consumer_scheme" where
  "run_consumer reconnect on_connect turn on_end [] s = (False, s)"
| "run_consumer reconnect on_connect turn on_end (None # cs) s =
     (if \<not> reconnect then (True, s) else run_consumer reconnect on_connect turn on_end cs s)"
| "run_consumer reconnect on_connect turn on_end (Some (now, incoming, envs) # cs) s =
     (let s = on_end (session turn envs (on_connect now (new_link incoming s)))
      in if \<not> reconnect then (False, s) else run_consumer reconnect on_connect turn on_end cs s)"

section \<open>The contract\<close>

definition data_records :: "frame list \<Rightarrow> frame list" where
  "data_records fs = filter (\<lambda>f. \<not> is_echo f) fs"

definition sans_drops :: "frame_stream \<Rightarrow> frame_stream" where
  "sans_drops s = s\<lparr>st_echo_drops := 0\<rparr>"

lemma follows_sans_drops: "follows (sans_drops s) inc bs = follows s inc bs"
  by (cases "st_state s") (simp_all add: follows_def stream_wf_def consumed_def sans_drops_def)

lemma follows_cong: "sans_drops s = sans_drops s' \<Longrightarrow> follows s inc bs = follows s' inc bs"
  by (metis follows_sans_drops)

lemma echo_back_facts:
  "sans_drops (ln_stream (echo_back f l)) = sans_drops (ln_stream l)" "ln_in (echo_back f l) = ln_in l"
  by (auto simp: echo_back_def send_back_def sans_drops_def Let_def split: list.splits prod.splits)

lemma observe_all_Nil [simp]: "observe_all [] g = g"
  by (simp add: observe_all_def)

lemma observe_all_Cons [simp]: "observe_all (f # fs) g = observe_all fs (snd (observe f g))"
  by (simp add: observe_all_def)

lemma observe_all_append: "observe_all (fs @ gs) g = observe_all gs (observe_all fs g)"
  by (simp add: observe_all_def)

lemma data_records_append [simp]: "data_records (a @ b) = data_records a @ data_records b"
  by (simp add: data_records_def)

text \<open>From \<open>s\<close> to \<open>s'\<close> a consumer has tracked some first batches of \<open>bs\<close>, and can go on with the others.\<close>

definition tracked :: "frame list list \<Rightarrow> 'a consumer_scheme \<Rightarrow> 'a consumer_scheme \<Rightarrow> bool" where
  "tracked bs s s' \<longleftrightarrow> (\<exists>n \<le> length bs. follows (ln_stream (co_link s')) (ln_in (co_link s')) (drop n bs) \<and>
     co_gaps s' = observe_all (data_records (concat (take n bs))) (co_gaps s) \<and> co_protocol_errs s' = co_protocol_errs s)"

lemma tracked_trans:
  assumes "tracked bs s t" "\<And>cs. follows (ln_stream (co_link t)) (ln_in (co_link t)) cs \<Longrightarrow> tracked cs t u"
  shows "tracked bs s u"
proof -
  obtain n where n: "n \<le> length bs" "follows (ln_stream (co_link t)) (ln_in (co_link t)) (drop n bs)"
      "co_gaps t = observe_all (data_records (concat (take n bs))) (co_gaps s)" "co_protocol_errs t = co_protocol_errs s"
    using assms(1) by (auto simp: tracked_def)
  obtain m where m: "m \<le> length (drop n bs)" "follows (ln_stream (co_link u)) (ln_in (co_link u)) (drop m (drop n bs))"
      "co_gaps u = observe_all (data_records (concat (take m (drop n bs)))) (co_gaps t)" "co_protocol_errs u = co_protocol_errs t"
    using assms(2) [OF n(2)] by (auto simp: tracked_def)
  have d: "drop (n + m) bs = drop m (drop n bs)" by (simp add: add.commute)
  show ?thesis unfolding tracked_def using n m
    by (intro exI [of _ "n + m"]) (simp add: d take_add observe_all_append del: drop_drop)
qed

locale tracking_consumer =
  fixes turn :: "turn_env \<Rightarrow> 'a consumer_scheme \<Rightarrow> bool \<times> 'a consumer_scheme"
  assumes turn_contract: "turn env s = (stop, s') \<Longrightarrow>
      stream_read_batch (te_reads env) (ln_in (co_link s)) (ln_stream (co_link s)) = (st, out, str, inc) \<Longrightarrow>
      sans_drops (ln_stream (co_link s')) = sans_drops str \<and> ln_in (co_link s') = inc \<and>
      co_gaps s' = (if st = StOk then observe_all (data_records out) (co_gaps s) else co_gaps s) \<and>
      co_protocol_errs s' = (if st = StProtocolError then co_protocol_errs s + 1 else co_protocol_errs s) \<and>
      stop = (st = StClosed \<or> st = StProtocolError)"
begin

text \<open>A turn, and then a session, on a connection that carries the batches \<open>bs\<close>: some first \<open>n\<close> of them have been
  tracked, without a protocol error, and the other ones are what is still to be read.\<close>

lemma turn_tracks:
  assumes "follows (ln_stream (co_link s)) (ln_in (co_link s)) bs" and t: "turn env s = (stop, s')"
  shows "tracked bs s s'"
proof -
  obtain st out str inc where r: "stream_read_batch (te_reads env) (ln_in (co_link s)) (ln_stream (co_link s)) = (st, out, str, inc)"
    by (metis prod_cases4)
  note c = turn_contract [OF t r]
  have fol: "follows (ln_stream (co_link s')) (ln_in (co_link s')) xs = follows str inc xs" for xs
    using c follows_cong [of "ln_stream (co_link s')" str inc xs] by simp
  have g: "co_gaps s' = (if st = StOk then observe_all (data_records out) (co_gaps s) else co_gaps s)"
      "co_protocol_errs s' = (if st = StProtocolError then co_protocol_errs s + 1 else co_protocol_errs s)"
    using c by blast+
  from stream_read_follows [OF assms(1) r] show ?thesis
  proof
    assume "st = StOk \<and> (\<exists>b bs'. bs = b # bs' \<and> out = b \<and> follows str inc bs')"
    then obtain bs' where b: "st = StOk" "bs = out # bs'" "follows str inc bs'" by blast
    show ?thesis unfolding tracked_def by (intro exI [of _ 1]) (simp add: b g fol)
  next
    assume b: "st \<in> {StTimeout, StClosed} \<and> out = [] \<and> follows str inc bs"
    then have "st \<noteq> StOk" "st \<noteq> StProtocolError" by auto
    then show ?thesis unfolding tracked_def by (intro exI [of _ 0]) (simp add: b g fol data_records_def)
  qed
qed

lemma session_tracks:
  "follows (ln_stream (co_link s)) (ln_in (co_link s)) bs \<Longrightarrow> tracked bs s (session turn envs s)"
proof (induction envs arbitrary: s bs)
  case Nil
  then show ?case unfolding tracked_def by (intro exI [of _ 0]) (simp add: data_records_def)
next
  case (Cons env envs)
  obtain stop s1 where t: "turn env s = (stop, s1)" by fastforce
  note one = turn_tracks [OF Cons.prems t]
  show ?case using tracked_trans [OF one Cons.IH] t one by simp
qed

end

section \<open>The recorder\<close>

text \<open>\<^verbatim>\<open>src/record_main.cpp\<close>. \<open>rd_out\<close> is the file. Ghosts: \<open>rd_file\<close> is what its stream has accepted, \<open>rd_done\<close> the batches offered to
  it.\<close>

record recorder = consumer +
  rd_fsync_every :: u64
  rd_frames :: u64
  rd_batches :: u64
  rd_bytes :: u64
  rd_write_errors :: u64
  rd_write_ns :: samples
  rd_encoded :: "u8 list"
  rd_next_report :: u64
  rd_last_frames :: u64
  rd_out :: capture_file
  rd_file :: "u8 list"
  rd_done :: "frame list list"

definition recorder_new :: "u64 \<Rightarrow> u64 \<Rightarrow> recorder" where
  "recorder_new fsync_every start = \<lparr>co_link = no_link, co_gaps = gap_tracker0, co_protocol_errs = 0,
     rd_fsync_every = fsync_every, rd_frames = 0, rd_batches = 0, rd_bytes = 0, rd_write_errors = 0,
     rd_write_ns = samples_new (2 ^ 20), rd_encoded = [], rd_next_report = start + 1000000000, rd_last_frames = 0,
     rd_out = file_new, rd_file = [], rd_done = []\<rparr>"

definition rec_scan :: "frame \<Rightarrow> recorder \<Rightarrow> recorder" where
  "rec_scan f s =
     (if is_echo f then s\<lparr>co_link := echo_back f (co_link s)\<rparr>
      else s\<lparr>co_gaps := snd (observe f (co_gaps s))\<rparr>)"

definition rec_encode :: "frame list \<Rightarrow> u8 list \<Rightarrow> u8 list" where
  "rec_encode batch encoded =
     (let n = kHeaderSize + length batch * kRecordSize;
          buf = take n encoded @ replicate (n - length encoded) 0;
          buf = put 0 (encode_header (of_nat (length batch)) (get 0 kHeaderSize buf)) buf
      in encode_records kHeaderSize batch buf)"

definition rec_write :: "turn_env \<Rightarrow> frame list \<Rightarrow> recorder \<Rightarrow> recorder" where
  "rec_write env batch s =
     (let encoded = rec_encode batch (rd_encoded s);
          written = min (te_written env) (length encoded);
          batches = rd_batches s + 1;
          out = file_fwrite (te_spill env) (take written encoded) (rd_out s);
          out = (if rd_fsync_every s \<noteq> 0 \<and> batches mod rd_fsync_every s = 0
                 then file_fsync (te_fsync env) (file_fflush (te_flush env) out) else out);
          s = s\<lparr>rd_encoded := encoded, rd_file := rd_file s @ take written encoded, rd_done := rd_done s @ [batch],
                rd_out := out, rd_batches := batches,
                rd_write_ns := samples_add (sint (te_t1 env - te_t0 env)) (rd_write_ns s)\<rparr>
      in if written \<noteq> length encoded then s\<lparr>rd_write_errors := rd_write_errors s + 1\<rparr>
         else s\<lparr>rd_bytes := rd_bytes s + of_nat (length encoded), rd_frames := rd_frames s + of_nat (length batch)\<rparr>)"

definition rec_report :: "turn_env \<Rightarrow> recorder \<Rightarrow> recorder" where
  "rec_report env s =
     (if te_later env \<ge> rd_next_report s
      then s\<lparr>rd_next_report := te_later env + 1000000000, rd_last_frames := rd_frames s\<rparr> else s)"

definition rec_turn :: "turn_env \<Rightarrow> recorder \<Rightarrow> bool \<times> recorder" where
  "rec_turn env s =
     (case consumer_read env s of
        (st, batch, s) \<Rightarrow>
          if st = StClosed then (True, s)
          else if st = StProtocolError then (True, s\<lparr>co_protocol_errs := co_protocol_errs s + 1\<rparr>)
          else if st \<noteq> StOk \<or> batch = [] then (False, s)
          else (False, rec_report env (rec_write env batch (fold rec_scan batch s))))"

definition rec_connected :: "u64 \<Rightarrow> recorder \<Rightarrow> recorder" where
  "rec_connected now s = s\<lparr>co_gaps := tracker_reset (co_gaps s)\<rparr>"

definition rec_run :: "bool \<Rightarrow> (u64 \<times> u8 list \<times> turn_env list) option list \<Rightarrow> recorder \<Rightarrow> bool \<times> recorder" where
  "rec_run reconnect cs s = run_consumer reconnect rec_connected rec_turn (\<lambda>s. s) cs s"

definition rec_exit :: "recorder \<Rightarrow> nat" where
  "rec_exit s = (if co_protocol_errs s > 0 \<or> rd_write_errors s > 0 then 1 else 0)"

section \<open>The probe\<close>

text \<open>\<^verbatim>\<open>src/probe_main.cpp\<close>.\<close>

record probe = consumer +
  pb_cross :: bool
  pb_e2e :: bool
  pb_measure_from :: u64
  pb_frames :: u64
  pb_batches :: u64
  pb_reconnects :: u64
  pb_latency :: samples
  pb_first_frame :: samples
  pb_e2e_latency :: samples
  pb_live :: "i64 list"
  pb_connected_at :: u64
  pb_first_seen :: bool
  pb_next_report :: u64
  pb_last_frames :: u64
  pb_warmup_discarded :: u64
  pb_live_p50 :: i64

definition kLiveWindow :: nat where "kLiveWindow = 4096"

definition probe_new :: "bool \<Rightarrow> bool \<Rightarrow> int \<Rightarrow> u64 \<Rightarrow> u64 \<Rightarrow> probe" where
  "probe_new cross e2e warmup now start = \<lparr>co_link = no_link, co_gaps = gap_tracker0, co_protocol_errs = 0,
     pb_cross = cross, pb_e2e = e2e,
     pb_measure_from = start + of_int (if warmup > 0 then warmup else 0) * 1000000000,
     pb_frames = 0, pb_batches = 0, pb_reconnects = 0, pb_latency = samples_new (2 ^ 20),
     pb_first_frame = samples_new (2 ^ 12), pb_e2e_latency = samples_new (2 ^ 20), pb_live = [],
     pb_connected_at = 0, pb_first_seen = False, pb_next_report = now + 1000000000, pb_last_frames = 0,
     pb_warmup_discarded = 0, pb_live_p50 = 0\<rparr>"

definition payload_timestamp :: "frame \<Rightarrow> u64" where
  "payload_timestamp f = fold (\<lambda>i v. v OR push_bit (8 * i) (ucast (data f ! i))) [0..<8] 0"

text \<open>One record of a batch; \<open>now\<close> is the reading for the whole batch.\<close>

definition probe_record :: "u64 \<Rightarrow> frame \<Rightarrow> probe \<Rightarrow> probe" where
  "probe_record now f s =
     (if is_echo f then s\<lparr>co_link := echo_back f (co_link s)\<rparr>
      else case observe f (co_gaps s) of
        (is_data, g) \<Rightarrow>
          let s = s\<lparr>co_gaps := g\<rparr> in
          if \<not> is_data then s
          else let s = s\<lparr>pb_frames := pb_frames s + 1\<rparr> in
            if now < pb_measure_from s then s\<lparr>pb_warmup_discarded := pb_warmup_discarded s + 1\<rparr>
            else let stamp = (if pb_cross s then t_kernel_ns f else t_ingest_ns f);
                     delay = sint now - sint stamp;
                     s = s\<lparr>pb_latency := samples_add delay (pb_latency s)\<rparr>;
                     s = (if length (pb_live s) < kLiveWindow then s\<lparr>pb_live := pb_live s @ [delay]\<rparr> else s)
                 in if pb_e2e s
                    then s\<lparr>pb_e2e_latency := samples_add (sint now - sint (payload_timestamp f)) (pb_e2e_latency s)\<rparr>
                    else s)"

definition probe_batch :: "turn_env \<Rightarrow> frame list \<Rightarrow> probe \<Rightarrow> probe" where
  "probe_batch env batch s =
     (let now = (if pb_cross s then te_real env else te_now env);
          s = s\<lparr>pb_batches := pb_batches s + 1\<rparr>
      in fold (probe_record now) batch s)"

definition probe_first :: "turn_env \<Rightarrow> frame list \<Rightarrow> probe \<Rightarrow> probe" where
  "probe_first env batch s =
     (if batch \<noteq> [] \<and> \<not> pb_first_seen s
      then s\<lparr>pb_first_seen := True, pb_first_frame := samples_add (sint (te_t0 env - pb_connected_at s)) (pb_first_frame s)\<rparr>
      else s)"

text \<open>The once-a-second line: the median of the window, which is then cleared.\<close>

definition probe_report :: "turn_env \<Rightarrow> probe \<Rightarrow> probe" where
  "probe_report env s =
     (if te_later env \<ge> pb_next_report s
      then s\<lparr>pb_next_report := te_later env + 1000000000,
             pb_live_p50 := (if pb_live s = [] then 0 else sort (pb_live s) ! (length (pb_live s) div 2)),
             pb_live := [], pb_last_frames := pb_frames s\<rparr>
      else s)"

definition probe_turn :: "turn_env \<Rightarrow> probe \<Rightarrow> bool \<times> probe" where
  "probe_turn env s =
     (case consumer_read env s of
        (st, batch, s) \<Rightarrow>
          if st = StClosed then (True, s)
          else if st = StProtocolError then (True, s\<lparr>co_protocol_errs := co_protocol_errs s + 1\<rparr>)
          else let s = (if st = StOk then probe_batch env batch (probe_first env batch s) else s)
               in (False, probe_report env s))"

text \<open>A new connection: \<open>connected_at\<close> is the first clock reading of its session.\<close>

definition probe_connected :: "u64 \<Rightarrow> probe \<Rightarrow> probe" where
  "probe_connected now s = s\<lparr>pb_reconnects := pb_reconnects s + 1, co_gaps := tracker_reset (co_gaps s),
     pb_connected_at := now, pb_first_seen := False\<rparr>"

definition probe_run :: "bool \<Rightarrow> (u64 \<times> u8 list \<times> turn_env list) option list \<Rightarrow> probe \<Rightarrow> bool \<times> probe" where
  "probe_run reconnect cs s = run_consumer reconnect probe_connected probe_turn (\<lambda>s. s) cs s"

definition probe_exit :: "probe \<Rightarrow> nat" where
  "probe_exit s = (if co_protocol_errs s > 0 \<or> gs_silent_jumps (gt_s (co_gaps s)) > 0 then 1 else 0)"

section \<open>The recorder keeps the contract\<close>

lemma consumer_read_facts:
  assumes "consumer_read env s = (st, out, s1)"
    and "stream_read_batch (te_reads env) (ln_in (co_link s)) (ln_stream (co_link s)) = (st', out', str, inc)"
  shows "st = st'" "out = out'" "s1 = s\<lparr>co_link := (co_link s)\<lparr>ln_stream := str, ln_in := inc, ln_sends := te_sends env\<rparr>\<rparr>"
  using assms by (simp_all add: consumer_read_def)

lemma rec_scans:
  "\<exists>l. fold rec_scan batch s = s\<lparr>co_link := l, co_gaps := observe_all (data_records batch) (co_gaps s)\<rparr> \<and>
     sans_drops (ln_stream l) = sans_drops (ln_stream (co_link s)) \<and> ln_in l = ln_in (co_link s)"
proof (induction batch arbitrary: s)
  case Nil
  then show ?case by (intro exI [of _ "co_link s"]) (simp add: data_records_def)
next
  case (Cons f batch)
  obtain l where l: "fold rec_scan batch (rec_scan f s) =
      (rec_scan f s)\<lparr>co_link := l, co_gaps := observe_all (data_records batch) (co_gaps (rec_scan f s))\<rparr>"
      "sans_drops (ln_stream l) = sans_drops (ln_stream (co_link (rec_scan f s)))" "ln_in l = ln_in (co_link (rec_scan f s))"
    using Cons.IH by blast
  show ?case
  proof (cases "is_echo f")
    case True
    then have "rec_scan f s = s\<lparr>co_link := echo_back f (co_link s)\<rparr>" by (simp add: rec_scan_def)
    then show ?thesis using l True by (intro exI [of _ l]) (simp add: data_records_def echo_back_facts)
  next
    case False
    then have "rec_scan f s = s\<lparr>co_gaps := snd (observe f (co_gaps s))\<rparr>" by (simp add: rec_scan_def)
    then show ?thesis using l False by (intro exI [of _ l]) (simp add: data_records_def)
  qed
qed

lemma rec_write_keeps:
  "co_link (rec_write env batch s) = co_link s" "co_gaps (rec_write env batch s) = co_gaps s"
  "co_protocol_errs (rec_write env batch s) = co_protocol_errs s" "rd_done (rec_write env batch s) = rd_done s @ [batch]"
  by (simp_all add: rec_write_def Let_def)

lemma rec_report_keeps:
  "co_link (rec_report env s) = co_link s" "co_gaps (rec_report env s) = co_gaps s"
  "co_protocol_errs (rec_report env s) = co_protocol_errs s" "rd_file (rec_report env s) = rd_file s"
  "rd_done (rec_report env s) = rd_done s"
  by (simp_all add: rec_report_def)

text \<open>What a turn does, by the outcome of the read.\<close>

lemma rec_turn_cases:
  assumes "stream_read_batch (te_reads env) (ln_in (co_link s)) (ln_stream (co_link s)) = (st, out, str, inc)"
  obtains (batch) l where "st = StOk" "out \<noteq> []"
      "rec_turn env s = (False, rec_report env (rec_write env out (s\<lparr>co_link := l, co_gaps := observe_all (data_records out) (co_gaps s)\<rparr>)))"
      "sans_drops (ln_stream l) = sans_drops str" "ln_in l = inc"
  | (idle) l stop e where "\<not> (st = StOk \<and> out \<noteq> [])" "stop = (st = StClosed \<or> st = StProtocolError)"
      "rec_turn env s = (stop, s\<lparr>co_link := l, co_protocol_errs := e\<rparr>)"
      "e = (if st = StProtocolError then co_protocol_errs s + 1 else co_protocol_errs s)" "ln_stream l = str" "ln_in l = inc"
proof -
  let ?l = "(co_link s)\<lparr>ln_stream := str, ln_in := inc, ln_sends := te_sends env\<rparr>"
  have r: "consumer_read env s = (st, out, s\<lparr>co_link := ?l\<rparr>)" using assms by (simp add: consumer_read_def)
  show thesis
  proof (cases "st = StOk \<and> out \<noteq> []")
    case True
    obtain l where l: "fold rec_scan out (s\<lparr>co_link := ?l\<rparr>) =
        (s\<lparr>co_link := ?l\<rparr>)\<lparr>co_link := l, co_gaps := observe_all (data_records out) (co_gaps (s\<lparr>co_link := ?l\<rparr>))\<rparr>"
        "sans_drops (ln_stream l) = sans_drops (ln_stream (co_link (s\<lparr>co_link := ?l\<rparr>)))" "ln_in l = ln_in (co_link (s\<lparr>co_link := ?l\<rparr>))"
      using rec_scans by blast
    have "rec_turn env s = (False, rec_report env (rec_write env out (s\<lparr>co_link := l, co_gaps := observe_all (data_records out) (co_gaps s)\<rparr>)))"
      using True r l(1) by (simp add: rec_turn_def)
    then show ?thesis using batch [of l] True l(2,3) by simp
  next
    case False
    have "rec_turn env s = (st = StClosed \<or> st = StProtocolError, s\<lparr>co_link := ?l,
        co_protocol_errs := (if st = StProtocolError then co_protocol_errs s + 1 else co_protocol_errs s)\<rparr>)"
      using False r by (cases st) (simp_all add: rec_turn_def)
    then show ?thesis by (rule idle [OF False refl]) simp_all
  qed
qed

interpretation recorder: tracking_consumer rec_turn
proof
  fix env and s s' :: recorder and stop st out str inc
  assume t: "rec_turn env s = (stop, s')"
    and r: "stream_read_batch (te_reads env) (ln_in (co_link s)) (ln_stream (co_link s)) = (st, out, str, inc)"
  from r show "sans_drops (ln_stream (co_link s')) = sans_drops str \<and> ln_in (co_link s') = inc \<and>
      co_gaps s' = (if st = StOk then observe_all (data_records out) (co_gaps s) else co_gaps s) \<and>
      co_protocol_errs s' = (if st = StProtocolError then co_protocol_errs s + 1 else co_protocol_errs s) \<and>
      stop = (st = StClosed \<or> st = StProtocolError)"
  proof (cases rule: rec_turn_cases)
    case (batch l)
    then show ?thesis using t by (auto simp: rec_report_keeps rec_write_keeps)
  next
    case (idle l stop' e)
    then have "data_records out = [] \<or> st \<noteq> StOk" by (auto simp: data_records_def)
    then show ?thesis using idle t by auto
  qed
qed

section \<open>Captures replay\<close>

lemma rec_encode_bytes:
  assumes "list_all frame_ok batch"
  shows "rec_encode batch encoded = batch_bytes batch"
proof -
  let ?s = "(egress_new \<lparr>tn_max_frames = 1, tn_linger_us = 0, tn_echo_ms = 0\<rparr>)\<lparr>e_pending := encoded\<rparr>"
  have "rec_encode batch encoded = e_pending (encode_batch batch ?s)" by (simp add: encode_batch_def rec_encode_def Let_def)
  then show ?thesis using encode_batch_bytes [OF assms, of ?s] by simp
qed

text \<open>Batches that were written as a stream are read back, in any pieces.\<close>

lemma read_back:
  assumes "list_all batch_ok_wire bs"
  shows "case read_many ess (concat (map batch_bytes bs)) stream_new of
    (rs, outs, str, inc) \<Rightarrow> outs = take (length outs) bs \<and> StProtocolError \<notin> set rs"
  using read_many_follows [OF follows_new [OF assms], of ess] by (auto split: prod.splits)

text \<open>A write that is never cut short: room for the largest message.\<close>

definition full_write :: "turn_env \<Rightarrow> bool" where
  "full_write env \<longleftrightarrow> kHeaderSize + 65535 * kRecordSize \<le> te_written env"

lemma rec_write_full:
  assumes "batch_ok_wire batch" "full_write env"
  shows "rd_file (rec_write env batch s) = rd_file s @ batch_bytes batch" "rd_done (rec_write env batch s) = rd_done s @ [batch]"
    "rd_write_errors (rec_write env batch s) = rd_write_errors s"
proof -
  have ok: "list_all frame_ok batch" using assms(1) by (auto simp: batch_ok_wire_def wire_ok_def list_all_iff)
  have "length (batch_bytes batch) = kHeaderSize + length batch * kRecordSize" "length batch \<le> 65535"
    using assms(1) length_batch_bytes by (auto simp: batch_ok_wire_def)
  then have "length (batch_bytes batch) \<le> te_written env" using assms(2) by (simp add: full_write_def kRecordSize_def)
  then have "min (te_written env) (length (rec_encode batch (rd_encoded s))) = length (rec_encode batch (rd_encoded s))"
    by (simp add: rec_encode_bytes [OF ok])
  then show "rd_file (rec_write env batch s) = rd_file s @ batch_bytes batch" "rd_done (rec_write env batch s) = rd_done s @ [batch]"
    "rd_write_errors (rec_write env batch s) = rd_write_errors s"
    by (simp_all add: rec_write_def Let_def rec_encode_bytes [OF ok])
qed

text \<open>What every write keeps, and what the rest of the state has no part in, holds after a session that has offered some first batches
  of the connection to the file.\<close>

locale recording =
  fixes good :: "turn_env \<Rightarrow> bool" and P :: "recorder \<Rightarrow> bool"
  assumes on_write: "good env \<Longrightarrow> batch_ok_wire batch \<Longrightarrow> P s \<Longrightarrow> P (rec_write env batch s)"
    and on_report: "P s \<Longrightarrow> P (rec_report env s)"
    and on_other: "P s \<Longrightarrow> P (s\<lparr>co_link := l\<rparr>)" "P s \<Longrightarrow> P (s\<lparr>co_gaps := g\<rparr>)"
begin

lemma session_writes:
  assumes "follows (ln_stream (co_link s)) (ln_in (co_link s)) bs" "[] \<notin> set bs" "list_all good envs" "P s"
  shows "\<exists>n \<le> length bs. rd_done (session rec_turn envs s) = rd_done s @ take n bs \<and> P (session rec_turn envs s)"
  using assms
proof (induction envs arbitrary: s bs)
  case Nil
  then show ?case by (intro exI [of _ 0]) simp
next
  case (Cons env envs)
  obtain st out str inc where r: "stream_read_batch (te_reads env) (ln_in (co_link s)) (ln_stream (co_link s)) = (st, out, str, inc)"
    by (metis prod_cases4)
  note fol = stream_read_follows [OF Cons.prems(1) r]
  from r show ?case
  proof (cases rule: rec_turn_cases)
    case (batch l)
    let ?s0 = "s\<lparr>co_link := l, co_gaps := observe_all (data_records out) (co_gaps s)\<rparr>"
    let ?s1 = "rec_report env (rec_write env out ?s0)"
    obtain bs' where b: "bs = out # bs'" "follows str inc bs'" using fol batch(1) by auto
    have ok: "batch_ok_wire out" "good env" using Cons.prems(1,3) b(1) by (auto simp: follows_def)
    have "P ?s0" using on_other Cons.prems(4) by blast
    then have f: "P ?s1" "rd_done ?s1 = rd_done s @ [out]"
      using on_write [OF ok(2,1)] on_report by (simp_all add: rec_report_keeps rec_write_keeps)
    have "follows (ln_stream (co_link ?s1)) (ln_in (co_link ?s1)) bs'"
      using b(2) batch(4,5) follows_cong [of "ln_stream l" str] by (simp add: rec_report_keeps rec_write_keeps)
    then obtain n where n: "n \<le> length bs'" "rd_done (session rec_turn envs ?s1) = rd_done ?s1 @ take n bs'" "P (session rec_turn envs ?s1)"
      using Cons.IH [of ?s1 bs'] Cons.prems(2,3) b(1) f(1) by auto
    have "session rec_turn (env # envs) s = session rec_turn envs ?s1" using batch(3) by simp
    then show ?thesis using n f(2) b(1) by (intro exI [of _ "Suc n"]) simp
  next
    case (idle l stop e)
    let ?s1 = "s\<lparr>co_link := l\<rparr>"
    have b: "follows str inc bs" "e = co_protocol_errs s" using fol idle(1,4) Cons.prems(2) by auto
    then obtain n where n: "n \<le> length bs" "rd_done (session rec_turn envs ?s1) = rd_done ?s1 @ take n bs" "P (session rec_turn envs ?s1)"
      using Cons.IH [of ?s1 bs] Cons.prems(2-4) idle(5,6) on_other(1) by auto
    have ses: "session rec_turn (env # envs) s = (if stop then ?s1 else session rec_turn envs ?s1)" using idle(3) b(2) by simp
    show ?thesis
    proof (cases stop)
      case True
      then show ?thesis using ses Cons.prems(4) on_other(1) by (intro exI [of _ 0]) simp
    next
      case False
      then show ?thesis using ses n by (intro exI [of _ n]) simp
    qed
  qed
qed

end

text \<open>The file follows the connection.\<close>

interpretation capture: recording full_write "\<lambda>s. rd_file s = concat (map batch_bytes (rd_done s))"
  by unfold_locales (simp_all add: rec_write_full rec_report_keeps)

text \<open>A capture can be replayed. On a connection that carries the batches \<open>bs\<close>, with any reads and as long as
  no write to the file is cut short, the file holds exactly the first batches of the connection, markers
  included; and a consumer that reads the file as a stream, in any pieces, gets exactly those batches back,
  in order and without a protocol error.\<close>

theorem capture_replays:
  assumes "list_all batch_ok_wire bs" "[] \<notin> set bs" "list_all full_write envs"
  shows "let s = session rec_turn envs (rec_connected now (new_link (concat (map batch_bytes bs)) (recorder_new fsync start))) in
   \<exists>n \<le> length bs. rd_file s = concat (map batch_bytes (take n bs)) \<and>
    (case read_many ess (rd_file s) stream_new of
       (rs, outs, str, inc) \<Rightarrow> outs = take (length outs) (take n bs) \<and> StProtocolError \<notin> set rs)"
proof -
  let ?s0 = "rec_connected now (new_link (concat (map batch_bytes bs)) (recorder_new fsync start))"
  define s where "s = session rec_turn envs ?s0"
  have "follows (ln_stream (co_link ?s0)) (ln_in (co_link ?s0)) bs"
    using follows_new [OF assms(1)] by (simp add: rec_connected_def new_link_def no_link_def)
  moreover have "rd_done ?s0 = []" "rd_file ?s0 = []" by (simp_all add: rec_connected_def new_link_def recorder_new_def)
  ultimately obtain n where n: "n \<le> length bs" "rd_done s = take n bs" "rd_file s = concat (map batch_bytes (rd_done s))"
    using capture.session_writes [of ?s0 bs envs] assms(2,3) unfolding s_def by auto
  have "list_all batch_ok_wire (take n bs)" using assms(1) by (auto simp: list_all_iff dest: in_set_takeD)
  from read_back [OF this, of ess] show ?thesis using n unfolding s_def [symmetric] Let_def by (intro exI [of _ n]) simp
qed

text \<open>One batch with one marker.\<close>

definition capture_env :: turn_env where
  "capture_env = \<lparr>te_reads = [Deliver 999, Deliver 999], te_sends = [], te_now = 0, te_real = 0, te_later = 0,
     te_t0 = 0, te_t1 = 0, te_written = 3000000, te_spill = 0, te_flush = Flushed, te_fsync = True\<rparr>"

theorem capture_replays_witness:
  "\<exists>n \<le> 1. rd_file (session rec_turn [capture_env] (rec_connected 0 (new_link (concat (map batch_bytes [[make_gap 5 6 kConsumerOverrun 7]])) (recorder_new 0 0)))) =
      concat (map batch_bytes (take n [[make_gap 5 6 kConsumerOverrun 7]]))"
proof -
  have a: "list_all batch_ok_wire [[make_gap 5 6 kConsumerOverrun 7]]" by (simp add: batch_ok_wire_def)
  have b: "[] \<notin> set [[make_gap 5 6 kConsumerOverrun 7]]" by simp
  have c: "list_all full_write [capture_env]" by (simp add: full_write_def capture_env_def kHeaderSize_def kRecordSize_def)
  show ?thesis using capture_replays [OF a b c, of 0 0 0 "[]"] unfolding Let_def by auto
qed

section \<open>The probe's books\<close>

text \<open>Frames counted are frames tracked, and each is a latency sample or was discarded.\<close>

definition probe_inv :: "probe \<Rightarrow> bool" where
  "probe_inv s \<longleftrightarrow> pb_frames s = gs_frames (gt_s (co_gaps s)) \<and>
     sm_total (pb_latency s) + pb_warmup_discarded s = pb_frames s \<and>
     sm_total (pb_e2e_latency s) = (if pb_e2e s then sm_total (pb_latency s) else 0) \<and>
     length (pb_live s) \<le> kLiveWindow"

lemma samples_add_total: "sm_total (samples_add v s) = sm_total s + 1"
  by (simp add: samples_add_def decimate_def Let_def)

lemma observe_frames:
  "observe f g = (b, g') \<Longrightarrow> gs_frames (gt_s g') = gs_frames (gt_s g) + (if b then 1 else 0)"
  by (auto simp: observe_def observe_gap_def Let_def split: if_splits)

lemma probe_record_inv: "probe_inv s \<Longrightarrow> probe_inv (probe_record now f s)"
proof (cases "is_echo f")
  case True
  assume "probe_inv s"
  then show ?thesis using True by (simp add: probe_record_def probe_inv_def)
next
  case False
  assume inv: "probe_inv s"
  obtain b g where o: "observe f (co_gaps s) = (b, g)" by fastforce
  show ?thesis using inv False o observe_frames [OF o]
    by (simp add: probe_record_def probe_inv_def Let_def samples_add_total add_ac)
qed

lemma probe_batch_inv: "probe_inv s \<Longrightarrow> probe_inv (probe_batch env batch s)"
proof -
  assume "probe_inv s"
  then have "probe_inv (s\<lparr>pb_batches := pb_batches s + 1\<rparr>)" by (simp add: probe_inv_def)
  then have "probe_inv (fold (probe_record now) batch (s\<lparr>pb_batches := pb_batches s + 1\<rparr>))" for now
    by (induction batch arbitrary: s rule: rev_induct) (simp_all add: probe_record_inv)
  then show ?thesis by (simp add: probe_batch_def Let_def)
qed

lemma probe_turn_inv: "probe_inv s \<Longrightarrow> probe_turn env s = (stop, s') \<Longrightarrow> probe_inv s'"
proof -
  assume inv: "probe_inv s" and t: "probe_turn env s = (stop, s')"
  obtain st batch s1 where r: "consumer_read env s = (st, batch, s1)" by (metis prod_cases3)
  have i1: "probe_inv s1" using r inv by (auto simp: consumer_read_def probe_inv_def split: prod.splits)
  have rep: "probe_inv (probe_report env u)" if "probe_inv u" for u using that by (simp add: probe_report_def probe_inv_def)
  have "probe_inv (probe_first env batch s1)" using i1 by (simp add: probe_first_def probe_inv_def)
  then have "probe_inv (probe_batch env batch (probe_first env batch s1))" by (rule probe_batch_inv)
  moreover have "probe_inv (s1\<lparr>co_protocol_errs := co_protocol_errs s1 + 1\<rparr>)" using i1 by (simp add: probe_inv_def)
  ultimately show ?thesis using t r i1 rep by (auto simp: probe_turn_def Let_def split: if_splits)
qed

lemma session_inv:
  assumes "\<And>e s stop s'. I s \<Longrightarrow> turn e s = (stop, s') \<Longrightarrow> I s'"
  shows "I s \<Longrightarrow> I (session turn es s)"
proof (induction es arbitrary: s)
  case (Cons e es)
  obtain stop s1 where t: "turn e s = (stop, s1)" by fastforce
  then show ?case using Cons.IH [of s1] assms [OF Cons.prems t] by simp
qed simp

lemma run_consumer_inv:
  assumes turn: "\<And>e s stop s'. I s \<Longrightarrow> turn e s = (stop, s') \<Longrightarrow> I s'"
    and connect: "\<And>now inc s. I s \<Longrightarrow> I (on_connect now (new_link inc s))" and after: "\<And>s. I s \<Longrightarrow> I (on_end s)" and start: "I s"
  shows "I (snd (run_consumer reconnect on_connect turn on_end cs s))"
  using start
proof (induction cs arbitrary: s)
  case (Cons c cs)
  show ?case
  proof (cases c)
    case None
    then show ?thesis using Cons.IH [OF Cons.prems] Cons.prems by (cases reconnect) simp_all
  next
    case (Some x)
    obtain now inc envs where x: "x = (now, inc, envs)" by (metis prod_cases3)
    have "I (on_end (session turn envs (on_connect now (new_link inc s))))"
      by (intro after session_inv [of I turn, OF turn] connect Cons.prems)
    from this Cons.IH [OF this] show ?thesis using Some x by (cases reconnect) (simp_all add: Let_def)
  qed
qed simp

text \<open>The probe's figures are about frames and nothing else. Over any run, with any number of connections,
  markers, returned probes and protocol errors: the frames it counts are the frames its tracker counts; every
  one of them is either a latency sample or a discarded warm-up sample; end-to-end samples are taken for the
  same frames or not at all; and the live window stays within its bound.\<close>

theorem probe_samples_frames_only:
  "let s = snd (probe_run reconnect cs (probe_new cross e2e warmup now start)) in
     pb_frames s = gs_frames (gt_s (co_gaps s)) \<and>
     sm_total (pb_latency s) + pb_warmup_discarded s = pb_frames s \<and>
     sm_total (pb_e2e_latency s) = (if pb_e2e s then sm_total (pb_latency s) else 0) \<and>
     length (pb_live s) \<le> kLiveWindow"
proof -
  have "probe_inv (probe_new cross e2e warmup now start)"
    by (simp add: probe_inv_def probe_new_def gap_tracker0_def gap_stats0_def samples_new_def)
  moreover have "probe_inv (probe_connected t (new_link inc s))" if "probe_inv s" for t inc s
    using that by (simp add: probe_inv_def probe_connected_def new_link_def tracker_reset_def)
  ultimately have "probe_inv (snd (probe_run reconnect cs (probe_new cross e2e warmup now start)))"
    unfolding probe_run_def by (intro run_consumer_inv [of probe_inv probe_turn, OF probe_turn_inv]) simp_all
  then show ?thesis by (simp add: probe_inv_def Let_def)
qed

section \<open>Record handlers\<close>

text \<open>What the other programs do with one record, as far as the contract goes: a probe is returned, everything else
  goes to the tracker.\<close>

locale record_handler =
  fixes handle :: "frame \<Rightarrow> 'a consumer_scheme \<Rightarrow> 'a consumer_scheme"
  assumes handle_echo: "is_echo f \<Longrightarrow> co_link (handle f s) = echo_back f (co_link s) \<and> co_gaps (handle f s) = co_gaps s"
    and handle_data: "\<not> is_echo f \<Longrightarrow> co_link (handle f s) = co_link s \<and> co_gaps (handle f s) = snd (observe f (co_gaps s))"
    and handle_errs: "co_protocol_errs (handle f s) = co_protocol_errs s"
begin

lemma handles:
  "sans_drops (ln_stream (co_link (fold handle batch s))) = sans_drops (ln_stream (co_link s)) \<and>
   ln_in (co_link (fold handle batch s)) = ln_in (co_link s) \<and>
   co_gaps (fold handle batch s) = observe_all (data_records batch) (co_gaps s) \<and>
   co_protocol_errs (fold handle batch s) = co_protocol_errs s"
proof (induction batch arbitrary: s)
  case (Cons f batch)
  show ?case
  proof (cases "is_echo f")
    case True
    then show ?thesis using Cons.IH [of "handle f s"] handle_echo [OF True, of s] handle_errs [of f s]
      by (simp add: data_records_def echo_back_facts)
  next
    case False
    then show ?thesis using Cons.IH [of "handle f s"] handle_data [OF False, of s] handle_errs [of f s]
      by (simp add: data_records_def)
  qed
qed (simp add: data_records_def)

end

interpretation probe_rec: record_handler "probe_record now"
proof
  fix f s
  show "is_echo f \<Longrightarrow> co_link (probe_record now f s) = echo_back f (co_link s) \<and> co_gaps (probe_record now f s) = co_gaps s"
    by (simp add: probe_record_def)
  show "\<not> is_echo f \<Longrightarrow> co_link (probe_record now f s) = co_link s \<and> co_gaps (probe_record now f s) = snd (observe f (co_gaps s))"
    by (simp add: probe_record_def Let_def split: prod.splits)
  show "co_protocol_errs (probe_record now f s) = co_protocol_errs s"
    by (simp add: probe_record_def Let_def split: prod.splits)
qed

lemma consumer_read_Pair:
  "stream_read_batch (te_reads env) (ln_in (co_link s)) (ln_stream (co_link s)) = (st, out, str, inc) \<Longrightarrow>
   consumer_read env s = (st, out, s\<lparr>co_link := (co_link s)\<lparr>ln_stream := str, ln_in := inc, ln_sends := te_sends env\<rparr>\<rparr>)"
  by (simp add: consumer_read_def)

interpretation prober: tracking_consumer probe_turn
proof
  fix env and s s' :: probe and stop st out str inc
  assume t: "probe_turn env s = (stop, s')"
    and r: "stream_read_batch (te_reads env) (ln_in (co_link s)) (ln_stream (co_link s)) = (st, out, str, inc)"
  let ?s1 = "s\<lparr>co_link := (co_link s)\<lparr>ln_stream := str, ln_in := inc, ln_sends := te_sends env\<rparr>\<rparr>"
  have rep: "co_link (probe_report env u) = co_link u" "co_gaps (probe_report env u) = co_gaps u"
      "co_protocol_errs (probe_report env u) = co_protocol_errs u" for u by (simp_all add: probe_report_def)
  have fst: "co_link (probe_first env out u) = co_link u" "co_gaps (probe_first env out u) = co_gaps u"
      "co_protocol_errs (probe_first env out u) = co_protocol_errs u" for u by (simp_all add: probe_first_def)
  show "sans_drops (ln_stream (co_link s')) = sans_drops str \<and> ln_in (co_link s') = inc \<and>
      co_gaps s' = (if st = StOk then observe_all (data_records out) (co_gaps s) else co_gaps s) \<and>
      co_protocol_errs s' = (if st = StProtocolError then co_protocol_errs s + 1 else co_protocol_errs s) \<and>
      stop = (st = StClosed \<or> st = StProtocolError)"
  proof (cases "st = StOk")
    case True
    then have "s' = probe_report env (probe_batch env out (probe_first env out ?s1))" "\<not> stop"
      using t by (simp_all add: probe_turn_def consumer_read_Pair [OF r])
    then show ?thesis using True by (simp add: rep probe_batch_def Let_def probe_rec.handles fst)
  next
    case False
    then show ?thesis using t by (cases st) (auto simp: probe_turn_def consumer_read_Pair [OF r] rep)
  qed
qed

end
