(* ===== verification/Sources.thy ===== *)
theory Sources
  imports Feed Descriptors
begin

text \<open>
  Where frames come from (\<^verbatim>\<open>src/source.hpp\<close>, \<^verbatim>\<open>src/clock.cpp\<close>, \<^verbatim>\<open>src/synthetic_source.cpp\<close>,
  \<^verbatim>\<open>src/can_source.cpp\<close>): the timer-driven generator and the SocketCAN socket, behind the interface
  \<open>Source\<close>, which is the locale \<open>frame_source\<close>. What one \<open>drain\<close> sees of the kernel (the timer, the
  received messages, the clocks) is a \<open>drain_env\<close>. Opening a source is in \<open>Descriptors\<close>, combined with the
  argument checks here.
\<close>

section \<open>Clocks\<close>

record timespec =
  tv_sec :: u64
  tv_nsec :: u64

text \<open>\<open>now_ns\<close> and \<open>to_ns\<close> are the same conversion.\<close>

definition now_ns :: "timespec \<Rightarrow> u64" where
  "now_ns ts = tv_sec ts * 1000000000 + tv_nsec ts"

definition to_ns :: "timespec \<Rightarrow> u64" where
  "to_ns ts = tv_sec ts * 1000000000 + tv_nsec ts"

section \<open>What a drain sees\<close>

text \<open>The read of the timer: expirations, an error other than \<^verbatim>\<open>EAGAIN\<close>, or nothing.\<close>

datatype timer_read = Ticks u64 | TimerError | TimerNothing

text \<open>\<^verbatim>\<open>struct can_frame\<close>, its ancillary data and the length received. \<open>OtherCm\<close> stands for every control
  message of another level or type.\<close>

datatype cmsg = Timestamping timespec | RxqOvfl u32 | OtherCm

record can_msg =
  cm_len :: nat
  cm_control :: "cmsg list"
  cm_can_id :: u32
  cm_dlc :: u8
  cm_data :: "u8 list"

datatype recv_result = Received "can_msg list" | RecvAgain | RecvError

record drain_env =
  de_timer :: timer_read
  de_recv :: recv_result
  de_realtime :: u64
  de_monotonic :: u64

section \<open>The synthetic source\<close>

record synth_config =
  sc_src_id :: u8
  sc_period_ns :: u32
  sc_frames_per_tick :: u32
  sc_can_ids :: "u32 list"

definition synth_config0 :: synth_config where
  "synth_config0 = \<lparr>sc_src_id = 0, sc_period_ns = 1000000, sc_frames_per_tick = 1, sc_can_ids = [0x100, 0x200, 0x300]\<rparr>"

record synth =
  sy_cfg :: synth_config
  sy_name :: string
  sy_stats :: source_stats
  sy_counter :: u64
  sy_pending :: u64

definition source_stats0 :: source_stats where
  "source_stats0 = \<lparr>ss_frames = 0, ss_kernel_drops = 0, ss_read_errors = 0, ss_malformed = 0\<rparr>"

definition synth_new :: "synth_config \<Rightarrow> synth" where
  "synth_new cfg = \<lparr>sy_cfg = cfg, sy_name = ''synth'' @ to_dec (unat (sc_src_id cfg)), sy_stats = source_stats0,
     sy_counter = 0, sy_pending = 0\<rparr>"

text \<open>The result carries the interval handed to the timer, in seconds and nanoseconds.\<close>

definition synth_open :: "(nat \<Rightarrow> string) \<Rightarrow> synth_config \<Rightarrow> os \<Rightarrow> (string + (synth \<times> nat \<times> u32 \<times> u32)) \<times> os" where
  "synth_open strerror cfg w =
     (if sc_can_ids cfg = [] then (Inl ''synthetic source needs at least one CAN id'', w)
      else if sc_period_ns cfg = 0 \<or> sc_frames_per_tick cfg = 0
      then (Inl ''synthetic source needs a non-zero period and frames_per_tick'', w)
      else case open_timer strerror w of
        (Inl e, w) \<Rightarrow> (Inl e, w)
      | (Inr fd, w) \<Rightarrow>
          (Inr (synth_new cfg, fd, sc_period_ns cfg div 1000000000, sc_period_ns cfg mod 1000000000), w))"

definition synth_frame :: "synth_config \<Rightarrow> u64 \<Rightarrow> u64 \<Rightarrow> u64 \<Rightarrow> frame" where
  "synth_frame cfg t_kernel t_ingest counter =
     \<lparr>seq = 0, t_kernel_ns = t_kernel, t_ingest_ns = t_ingest,
      can_id = sc_can_ids cfg ! (unat counter mod length (sc_can_ids cfg)),
      src_id = sc_src_id cfg, len = 8, flags = 0, reserved = 0,
      data = map (\<lambda>b. ucast (drop_bit (8 * b) counter AND 0xFF)) [0..<kMaxPayload]\<rparr>"

text \<open>The fill loop; \<open>counter_\<close> runs along.\<close>

fun synth_fill :: "synth_config \<Rightarrow> u64 \<Rightarrow> u64 \<Rightarrow> nat \<Rightarrow> u64 \<Rightarrow> frame list \<times> u64" where
  "synth_fill cfg t_kernel t_ingest 0 counter = ([], counter)"
| "synth_fill cfg t_kernel t_ingest (Suc n) counter =
     (case synth_fill cfg t_kernel t_ingest n (counter + 1) of
        (fs, counter') \<Rightarrow> (synth_frame cfg t_kernel t_ingest counter # fs, counter'))"

definition synth_drain :: "drain_env \<Rightarrow> nat \<Rightarrow> synth \<Rightarrow> frame list \<times> synth" where
  "synth_drain env room s =
     (let s = (case de_timer env of
                 Ticks n \<Rightarrow> s\<lparr>sy_pending := sy_pending s + n * ucast (sc_frames_per_tick (sy_cfg s))\<rparr>
               | TimerError \<Rightarrow> s\<lparr>sy_stats := (sy_stats s)\<lparr>ss_read_errors := ss_read_errors (sy_stats s) + 1\<rparr>\<rparr>
               | TimerNothing \<Rightarrow> s);
          want = (if room < unat (sy_pending s) then room else unat (sy_pending s));
          (fs, counter) = synth_fill (sy_cfg s) (de_realtime env) (de_monotonic env) want (sy_counter s)
      in (fs, s\<lparr>sy_counter := counter, sy_pending := sy_pending s - of_nat want,
                sy_stats := (sy_stats s)\<lparr>ss_frames := ss_frames (sy_stats s) + of_nat want\<rparr>\<rparr>))"

section \<open>The CAN source\<close>

definition kBatch :: nat where "kBatch = 64"

text \<open>Constants of the kernel's CAN interface.\<close>

definition CAN_EFF_FLAG :: u32 where "CAN_EFF_FLAG = 0x80000000"
definition CAN_RTR_FLAG :: u32 where "CAN_RTR_FLAG = 0x40000000"
definition CAN_ERR_FLAG :: u32 where "CAN_ERR_FLAG = 0x20000000"
definition CAN_SFF_MASK :: u32 where "CAN_SFF_MASK = 0x7FF"
definition CAN_EFF_MASK :: u32 where "CAN_EFF_MASK = 0x1FFFFFFF"
definition can_frame_size :: nat where "can_frame_size = 16"

definition translate_flags :: "u32 \<Rightarrow> u8" where
  "translate_flags raw =
     (let f = 0;
          f = (if raw AND CAN_EFF_FLAG \<noteq> 0 then f OR kExtendedId else f);
          f = (if raw AND CAN_RTR_FLAG \<noteq> 0 then f OR kRemote else f)
      in (if raw AND CAN_ERR_FLAG \<noteq> 0 then f OR kError else f))"

record can =
  cn_src_id :: u8
  cn_ifname :: string
  cn_stats :: source_stats
  cn_last_ovfl :: u32
  cn_have_ovfl :: bool

definition can_new :: "u8 \<Rightarrow> string \<Rightarrow> can" where
  "can_new sid ifname = \<lparr>cn_src_id = sid, cn_ifname = ifname, cn_stats = source_stats0, cn_last_ovfl = 0,
     cn_have_ovfl = False\<rparr>"

definition can_open :: "(nat \<Rightarrow> string) \<Rightarrow> string \<Rightarrow> u8 \<Rightarrow> bool \<Rightarrow> os \<Rightarrow> (string + (can \<times> nat)) \<times> os" where
  "can_open strerror ifname sid receive_errors w =
     (case can_source_open strerror ifname receive_errors w of
        (Inl e, w) \<Rightarrow> (Inl e, w)
      | (Inr fd, w) \<Rightarrow> (Inr (can_new sid ifname, fd), w))"

text \<open>The loop over the ancillary data of one message, with \<open>t_kernel\<close>. The difference of two readings of
  the overflow counter is taken on 32 bits.\<close>

fun can_control :: "cmsg list \<Rightarrow> u64 \<Rightarrow> can \<Rightarrow> u64 \<times> can" where
  "can_control [] t s = (t, s)"
| "can_control (Timestamping ts # cms) t s = can_control cms (to_ns ts) s"
| "can_control (RxqOvfl ovfl # cms) t s =
     can_control cms t
       ((if cn_have_ovfl s
         then s\<lparr>cn_stats := (cn_stats s)\<lparr>ss_kernel_drops := ss_kernel_drops (cn_stats s) + ucast (ovfl - cn_last_ovfl s)\<rparr>\<rparr>
         else s)\<lparr>cn_last_ovfl := ovfl, cn_have_ovfl := True\<rparr>)"
| "can_control (OtherCm # cms) t s = can_control cms t s"

definition can_to_frame :: "u8 \<Rightarrow> u64 \<Rightarrow> u64 \<Rightarrow> can_msg \<Rightarrow> frame" where
  "can_to_frame sid t_kernel t_ingest m =
     (let fl = translate_flags (cm_can_id m);
          mask = (if fl AND kExtendedId \<noteq> 0 then CAN_EFF_MASK else CAN_SFF_MASK);
          n = (if unat (cm_dlc m) > kMaxPayload then of_nat kMaxPayload else cm_dlc m)
      in \<lparr>seq = 0, t_kernel_ns = t_kernel, t_ingest_ns = t_ingest, can_id = cm_can_id m AND mask,
          src_id = sid, len = n, flags = fl, reserved = 0,
          data = map (\<lambda>i. if i < unat n then cm_data m ! i else 0) [0..<kMaxPayload]\<rparr>)"

text \<open>The loop over the messages.\<close>

fun can_messages :: "u64 \<Rightarrow> can_msg list \<Rightarrow> can \<Rightarrow> frame list \<times> can" where
  "can_messages t_ingest [] s = ([], s)"
| "can_messages t_ingest (m # ms) s =
     (if cm_len m < can_frame_size
      then can_messages t_ingest ms (s\<lparr>cn_stats := (cn_stats s)\<lparr>ss_malformed := ss_malformed (cn_stats s) + 1\<rparr>\<rparr>)
      else
        let (t_kernel, s) = can_control (cm_control m) 0 s;
            (fs, s') = can_messages t_ingest ms s
        in (can_to_frame (cn_src_id s) t_kernel t_ingest m # fs, s'))"

text \<open>\<^verbatim>\<open>recvmmsg\<close> returns at most the number of messages it was given room for.\<close>

definition can_drain :: "drain_env \<Rightarrow> nat \<Rightarrow> can \<Rightarrow> frame list \<times> can" where
  "can_drain env room s =
     (let want = (if room < kBatch then room else kBatch) in
      if want = 0 then ([], s)
      else case de_recv env of
        RecvAgain \<Rightarrow> ([], s)
      | RecvError \<Rightarrow> ([], s\<lparr>cn_stats := (cn_stats s)\<lparr>ss_read_errors := ss_read_errors (cn_stats s) + 1\<rparr>\<rparr>)
      | Received ms \<Rightarrow>
          (case can_messages (de_monotonic env) (take want ms) s of
             (fs, s') \<Rightarrow>
               (fs, s'\<lparr>cn_stats := (cn_stats s')\<lparr>ss_frames := ss_frames (cn_stats s') + of_nat (length fs)\<rparr>\<rparr>)))"

section \<open>Virtual dispatch\<close>

datatype source = Synth synth | Can can

fun drain :: "drain_env \<Rightarrow> nat \<Rightarrow> source \<Rightarrow> frame list \<times> source" where
  "drain env room (Synth s) = map_prod id Synth (synth_drain env room s)"
| "drain env room (Can s) = map_prod id Can (can_drain env room s)"

fun source_id :: "source \<Rightarrow> u8" where
  "source_id (Synth s) = sc_src_id (sy_cfg s)"
| "source_id (Can s) = cn_src_id s"

fun source_name :: "source \<Rightarrow> string" where
  "source_name (Synth s) = sy_name s"
| "source_name (Can s) = cn_ifname s"

fun source_stats_of :: "source \<Rightarrow> source_stats" where
  "source_stats_of (Synth s) = sy_stats s"
| "source_stats_of (Can s) = cn_stats s"

section \<open>The interface\<close>

text \<open>What the ingest threads rely on: a drain returns no more frames than there is room for; they are bus
  frames of this source, not numbered yet; the source stays itself and its frame counter counts them.\<close>

locale frame_source =
  fixes drain_fn :: "drain_env \<Rightarrow> nat \<Rightarrow> 's \<Rightarrow> frame list \<times> 's"
    and ident :: "'s \<Rightarrow> u8"
    and stats :: "'s \<Rightarrow> source_stats"
  assumes drain_promise: "drain_fn env room s = (fs, s') \<Longrightarrow>
      length fs \<le> room \<and> list_all bus_frame fs \<and> list_all (\<lambda>f. seq f = 0 \<and> src_id f = ident s) fs \<and>
      ident s' = ident s \<and> ss_frames (stats s') = ss_frames (stats s) + of_nat (length fs)"

lemma synth_fill_facts:
  "synth_fill cfg tk ti n c = (fs, c') \<Longrightarrow>
     fs = map (\<lambda>i. synth_frame cfg tk ti (c + of_nat i)) [0..<n] \<and> c' = c + of_nat n"
proof (induction n arbitrary: c fs c')
  case (Suc n)
  obtain gs d where g: "synth_fill cfg tk ti n (c + 1) = (gs, d)" by fastforce
  have "[0..<Suc n] = 0 # map Suc [0..<n]" by (simp add: map_Suc_upt upt_conv_Cons)
  then show ?case using Suc.IH [OF g] Suc.prems g by (auto simp: add_ac comp_def simp del: upt_Suc)
qed simp

lemma synth_frame_bus: "bus_frame (synth_frame cfg tk ti c)"
  by (simp add: bus_frame_def wire_ok_def frame_ok_def synth_frame_def is_control_def kMaxPayload_def)

lemma can_to_frame_bus: "bus_frame (can_to_frame sid tk ti m)"
proof -
  have "translate_flags i AND (kGap OR kEcho) = 0" "translate_flags i AND kReservedMask = 0" for i
    by (simp_all add: translate_flags_def Let_def kGap_def kEcho_def kReservedMask_def kExtendedId_def kRemote_def kError_def)
  moreover have "unat (if unat d > kMaxPayload then of_nat kMaxPayload else d) \<le> kMaxPayload" for d :: u8
    by (simp add: kMaxPayload_def)
  ultimately show ?thesis
    by (simp add: bus_frame_def wire_ok_def frame_ok_def can_to_frame_def is_control_def Let_def kMaxPayload_def)
qed

lemma can_control_id: "can_control cms t s = (t', s') \<Longrightarrow> cn_src_id s' = cn_src_id s \<and> ss_frames (cn_stats s') = ss_frames (cn_stats s)"
  by (induction cms t s rule: can_control.induct) (simp_all split: if_splits)

lemma can_messages_facts:
  "can_messages ti ms s = (fs, s') \<Longrightarrow> length fs \<le> length ms \<and>
     list_all (\<lambda>f. bus_frame f \<and> seq f = 0 \<and> src_id f = cn_src_id s) fs \<and> cn_src_id s' = cn_src_id s \<and>
     ss_frames (cn_stats s') = ss_frames (cn_stats s)"
proof (induction ms arbitrary: s fs s')
  case (Cons m ms)
  show ?case
  proof (cases "cm_len m < can_frame_size")
    case True
    then show ?thesis using Cons.IH [of "s\<lparr>cn_stats := (cn_stats s)\<lparr>ss_malformed := ss_malformed (cn_stats s) + 1\<rparr>\<rparr>" fs s'] Cons.prems by simp
  next
    case False
    obtain t s1 where c: "can_control (cm_control m) 0 s = (t, s1)" by fastforce
    obtain gs s2 where g: "can_messages ti ms s1 = (gs, s2)" by fastforce
    have "fs = can_to_frame (cn_src_id s1) t ti m # gs" "s' = s2" using Cons.prems False c g by simp_all
    then show ?thesis using Cons.IH [OF g] can_control_id [OF c] can_to_frame_bus
      by (auto simp: can_to_frame_def Let_def)
  qed
qed simp

interpretation synth: frame_source synth_drain "\<lambda>s. sc_src_id (sy_cfg s)" sy_stats
proof
  fix env room and s s' :: synth and fs
  assume d: "synth_drain env room s = (fs, s')"
  define s1 where "s1 = (case de_timer env of
      Ticks n \<Rightarrow> s\<lparr>sy_pending := sy_pending s + n * ucast (sc_frames_per_tick (sy_cfg s))\<rparr>
    | TimerError \<Rightarrow> s\<lparr>sy_stats := (sy_stats s)\<lparr>ss_read_errors := ss_read_errors (sy_stats s) + 1\<rparr>\<rparr>
    | TimerNothing \<Rightarrow> s)"
  define want where "want = (if room < unat (sy_pending s1) then room else unat (sy_pending s1))"
  obtain gs c where g: "synth_fill (sy_cfg s1) (de_realtime env) (de_monotonic env) want (sy_counter s1) = (gs, c)" by fastforce
  have r: "fs = gs" "s' = s1\<lparr>sy_counter := c, sy_pending := sy_pending s1 - of_nat want,
      sy_stats := (sy_stats s1)\<lparr>ss_frames := ss_frames (sy_stats s1) + of_nat want\<rparr>\<rparr>"
    using d g unfolding synth_drain_def s1_def [symmetric] Let_def want_def [symmetric] by simp_all
  have same: "sy_cfg s1 = sy_cfg s" "ss_frames (sy_stats s1) = ss_frames (sy_stats s)"
    by (simp_all add: s1_def split: timer_read.splits)
  have "want \<le> room" by (simp add: want_def)
  then show "length fs \<le> room \<and> list_all bus_frame fs \<and> list_all (\<lambda>f. seq f = 0 \<and> src_id f = sc_src_id (sy_cfg s)) fs \<and>
      sc_src_id (sy_cfg s') = sc_src_id (sy_cfg s) \<and> ss_frames (sy_stats s') = ss_frames (sy_stats s) + of_nat (length fs)"
    using synth_fill_facts [OF g] r same
    by (simp add: list_all_iff synth_frame_bus) (simp add: synth_frame_def)
qed

interpretation can: frame_source can_drain cn_src_id cn_stats
proof
  fix env room and s s' :: can and fs
  assume d: "can_drain env room s = (fs, s')"
  show "length fs \<le> room \<and> list_all bus_frame fs \<and> list_all (\<lambda>f. seq f = 0 \<and> src_id f = cn_src_id s) fs \<and>
      cn_src_id s' = cn_src_id s \<and> ss_frames (cn_stats s') = ss_frames (cn_stats s) + of_nat (length fs)"
  proof (cases "(if room < kBatch then room else kBatch) = 0")
    case True
    then show ?thesis using d by (simp add: can_drain_def Let_def)
  next
    case False
    show ?thesis
    proof (cases "de_recv env")
      case (Received ms)
      obtain gs t where g: "can_messages (de_monotonic env) (take (if room < kBatch then room else kBatch) ms) s = (gs, t)" by fastforce
      then show ?thesis using can_messages_facts [OF g] d False Received
        by (auto simp: can_drain_def Let_def list_all_iff split: if_splits)
    qed (use d False in \<open>auto simp: can_drain_def Let_def\<close>)
  qed
qed

interpretation any_source: frame_source drain source_id source_stats_of
proof
  fix env room s fs s'
  assume d: "drain env room s = (fs, s')"
  show "length fs \<le> room \<and> list_all bus_frame fs \<and> list_all (\<lambda>f. seq f = 0 \<and> src_id f = source_id s) fs \<and>
      source_id s' = source_id s \<and> ss_frames (source_stats_of s') = ss_frames (source_stats_of s) + of_nat (length fs)"
  proof (cases s)
    case (Synth x)
    then obtain y where "synth_drain env room x = (fs, y)" "s' = Synth y" using d by (auto simp: map_prod_def split: prod.splits)
    then show ?thesis using synth.drain_promise [of env room x fs y] Synth by simp
  next
    case (Can x)
    then obtain y where "can_drain env room x = (fs, y)" "s' = Can y" using d by (auto simp: map_prod_def split: prod.splits)
    then show ?thesis using can.drain_promise [of env room x fs y] Can by simp
  qed
qed

section \<open>Runs\<close>

text \<open>Any number of drains, each with what the kernel has for it and the room the caller offers.\<close>

fun drain_run :: "(drain_env \<Rightarrow> nat \<Rightarrow> 's \<Rightarrow> frame list \<times> 's) \<Rightarrow> (drain_env \<times> nat) list \<Rightarrow> 's \<Rightarrow> frame list \<times> 's" where
  "drain_run drain_fn [] s = ([], s)"
| "drain_run drain_fn ((env, room) # es) s =
     (case drain_fn env room s of (fs, s1) \<Rightarrow> (case drain_run drain_fn es s1 of (gs, s2) \<Rightarrow> (fs @ gs, s2)))"

context frame_source
begin

lemma run_promise:
  "drain_run drain_fn es s = (fs, s') \<Longrightarrow> list_all bus_frame fs \<and> list_all (\<lambda>f. seq f = 0 \<and> src_id f = ident s) fs \<and>
     ident s' = ident s \<and> ss_frames (stats s') = ss_frames (stats s) + of_nat (length fs)"
proof (induction es arbitrary: s fs s')
  case (Cons e es)
  obtain env room where e: "e = (env, room)" by fastforce
  obtain gs s1 where d: "drain_fn env room s = (gs, s1)" by fastforce
  obtain hs s2 where r: "drain_run drain_fn es s1 = (hs, s2)" by fastforce
  show ?case using drain_promise [OF d] Cons.IH [OF r] Cons.prems d r e by (auto simp: add_ac)
qed simp

end

text \<open>The timer expirations a run of drains reads.\<close>

definition ticks_read :: "(drain_env \<times> nat) list \<Rightarrow> u64" where
  "ticks_read es = sum_list (map (\<lambda>(env, room). case de_timer env of Ticks n \<Rightarrow> n | _ \<Rightarrow> 0) es)"

definition synth_ok :: "synth_config \<Rightarrow> u64 \<Rightarrow> frame \<Rightarrow> bool" where
  "synth_ok cfg c f \<longleftrightarrow> load_le (data f) = c \<and> can_id f = sc_can_ids cfg ! (unat c mod length (sc_can_ids cfg))"

lemma synth_frame_ok: "synth_ok cfg c (synth_frame cfg tk ti c)"
proof -
  have "map (\<lambda>b. ucast (drop_bit (8 * b) c AND 0xFF)) [0..<kMaxPayload] = store_le 8 c"
    by (simp add: store_le_def kMaxPayload_def)
  then show ?thesis by (simp add: synth_ok_def synth_frame_def)
qed

lemma synth_drain_facts:
  assumes "synth_drain env room s = (fs, s')"
  shows "sy_cfg s' = sy_cfg s \<and> sy_counter s' = sy_counter s + of_nat (length fs) \<and>
    list_all2 (synth_ok (sy_cfg s)) (map (\<lambda>i. sy_counter s + of_nat i) [0..<length fs]) fs \<and>
    of_nat (length fs) + sy_pending s' =
      sy_pending s + (case de_timer env of Ticks n \<Rightarrow> n | _ \<Rightarrow> 0) * ucast (sc_frames_per_tick (sy_cfg s))"
proof -
  define s1 where "s1 = (case de_timer env of
      Ticks n \<Rightarrow> s\<lparr>sy_pending := sy_pending s + n * ucast (sc_frames_per_tick (sy_cfg s))\<rparr>
    | TimerError \<Rightarrow> s\<lparr>sy_stats := (sy_stats s)\<lparr>ss_read_errors := ss_read_errors (sy_stats s) + 1\<rparr>\<rparr>
    | TimerNothing \<Rightarrow> s)"
  define want where "want = (if room < unat (sy_pending s1) then room else unat (sy_pending s1))"
  obtain gs c where g: "synth_fill (sy_cfg s1) (de_realtime env) (de_monotonic env) want (sy_counter s1) = (gs, c)" by fastforce
  have r: "fs = gs" "s' = s1\<lparr>sy_counter := c, sy_pending := sy_pending s1 - of_nat want,
      sy_stats := (sy_stats s1)\<lparr>ss_frames := ss_frames (sy_stats s1) + of_nat want\<rparr>\<rparr>"
    using assms g unfolding synth_drain_def s1_def [symmetric] Let_def want_def [symmetric] by simp_all
  have same: "sy_cfg s1 = sy_cfg s" "sy_counter s1 = sy_counter s"
    "sy_pending s1 = sy_pending s + (case de_timer env of Ticks n \<Rightarrow> n | _ \<Rightarrow> 0) * ucast (sc_frames_per_tick (sy_cfg s))"
    by (simp_all add: s1_def split: timer_read.splits)
  have f: "gs = map (\<lambda>i. synth_frame (sy_cfg s) (de_realtime env) (de_monotonic env) (sy_counter s + of_nat i)) [0..<want]"
      "c = sy_counter s + of_nat want"
    using synth_fill_facts [OF g] same by simp_all
  then show ?thesis using r same
    by (simp add: list_all2_map1 list_all2_map2 list_all2_same synth_frame_ok)
qed

lemma map_upt_split: "map f [0..<a + b] = map f [0..<a] @ map (\<lambda>i. f (a + i)) [0..<b]"
  by (rule nth_equalityI) (auto simp: nth_append)

lemma synth_run_facts:
  "drain_run synth_drain es s = (fs, s') \<Longrightarrow>
    sy_cfg s' = sy_cfg s \<and> sy_counter s' = sy_counter s + of_nat (length fs) \<and>
    list_all2 (synth_ok (sy_cfg s)) (map (\<lambda>i. sy_counter s + of_nat i) [0..<length fs]) fs \<and>
    of_nat (length fs) + sy_pending s' = sy_pending s + ticks_read es * ucast (sc_frames_per_tick (sy_cfg s))"
proof (induction es arbitrary: s fs s')
  case (Cons e es)
  obtain env room where e: "e = (env, room)" by fastforce
  obtain gs s1 where d: "synth_drain env room s = (gs, s1)" by fastforce
  obtain hs s2 where r: "drain_run synth_drain es s1 = (hs, s2)" by fastforce
  have fs: "fs = gs @ hs" "s' = s2" using Cons.prems d r e by simp_all
  note D = synth_drain_facts [OF d] and R = Cons.IH [OF r]
  have "map (\<lambda>i. sy_counter s + of_nat i) [0..<length gs + length hs] =
      map (\<lambda>i. sy_counter s + of_nat i) [0..<length gs] @ map (\<lambda>i. sy_counter s1 + of_nat i) [0..<length hs]"
    using D by (simp add: map_upt_split add_ac)
  then have "list_all2 (synth_ok (sy_cfg s)) (map (\<lambda>i. sy_counter s + of_nat i) [0..<length fs]) fs"
    using D R fs by (simp add: list_all2_appendI)
  moreover have "of_nat (length fs) + sy_pending s' = sy_pending s + ticks_read (e # es) * ucast (sc_frames_per_tick (sy_cfg s))"
  proof -
    have "of_nat (length fs) + sy_pending s' = of_nat (length gs) + (of_nat (length hs) + sy_pending s2)"
      using fs by (simp add: add.assoc)
    also have "\<dots> = (of_nat (length gs) + sy_pending s1) + ticks_read es * ucast (sc_frames_per_tick (sy_cfg s))"
      using D R by (simp add: add.assoc)
    also have "\<dots> = sy_pending s + ticks_read (e # es) * ucast (sc_frames_per_tick (sy_cfg s))"
      using D by (simp add: ticks_read_def e distrib_right add.assoc split: timer_read.splits)
    finally show ?thesis .
  qed
  moreover have "sy_counter s' = sy_counter s + of_nat (length fs)" using D R fs by (simp add: add.assoc)
  ultimately show ?case using D R fs by simp
qed (simp add: ticks_read_def)

text \<open>The readings of the overflow counter in received messages, and the drops they account for.\<close>

definition ovfls :: "cmsg list \<Rightarrow> u32 list" where
  "ovfls cms = concat (map (\<lambda>c. case c of RxqOvfl x \<Rightarrow> [x] | _ \<Rightarrow> []) cms)"

definition readings :: "can_msg list \<Rightarrow> u32 list" where
  "readings ms = concat (map (\<lambda>m. if cm_len m < can_frame_size then [] else ovfls (cm_control m)) ms)"

definition received :: "(drain_env \<times> nat) list \<Rightarrow> can_msg list" where
  "received es = concat (map (\<lambda>(env, room). case de_recv env of Received ms \<Rightarrow> take (min room kBatch) ms | _ \<Rightarrow> []) es)"

fun drops_seen :: "u32 option \<Rightarrow> u32 list \<Rightarrow> u64" where
  "drops_seen p [] = 0"
| "drops_seen p (x # xs) = (case p of None \<Rightarrow> 0 | Some l \<Rightarrow> ucast (x - l)) + drops_seen (Some x) xs"

definition after :: "u32 option \<Rightarrow> u32 list \<Rightarrow> u32 option" where
  "after p xs = (if xs = [] then p else Some (last xs))"

definition prev_ovfl :: "can \<Rightarrow> u32 option" where
  "prev_ovfl s = (if cn_have_ovfl s then Some (cn_last_ovfl s) else None)"

lemma drops_seen_append: "drops_seen p (xs @ ys) = drops_seen p xs + drops_seen (after p xs) ys"
  by (induction xs arbitrary: p) (simp_all add: after_def)

lemma after_append: "after p (xs @ ys) = after (after p xs) ys"
  by (simp add: after_def)

definition drops_follow :: "can \<Rightarrow> u32 list \<Rightarrow> can \<Rightarrow> bool" where
  "drops_follow s xs s' \<longleftrightarrow> ss_kernel_drops (cn_stats s') = ss_kernel_drops (cn_stats s) + drops_seen (prev_ovfl s) xs \<and>
     prev_ovfl s' = after (prev_ovfl s) xs"

lemma drops_follow_trans: "drops_follow s xs s1 \<Longrightarrow> drops_follow s1 ys s2 \<Longrightarrow> drops_follow s (xs @ ys) s2"
  by (simp add: drops_follow_def drops_seen_append after_append)

lemma can_control_drops: "can_control cms t s = (t', s') \<Longrightarrow> drops_follow s (ovfls cms) s'"
proof (induction cms t s rule: can_control.induct)
  case (3 ovfl cms t s)
  let ?s = "(if cn_have_ovfl s
     then s\<lparr>cn_stats := (cn_stats s)\<lparr>ss_kernel_drops := ss_kernel_drops (cn_stats s) + ucast (ovfl - cn_last_ovfl s)\<rparr>\<rparr>
     else s)\<lparr>cn_last_ovfl := ovfl, cn_have_ovfl := True\<rparr>"
  have "drops_follow s [ovfl] ?s" by (simp add: drops_follow_def prev_ovfl_def after_def)
  moreover have "drops_follow ?s (ovfls cms) s'" using 3 by simp
  ultimately show ?case using drops_follow_trans by (fastforce simp: ovfls_def)
qed (simp_all add: drops_follow_def ovfls_def after_def)

lemma can_messages_drops: "can_messages ti ms s = (fs, s') \<Longrightarrow> drops_follow s (readings ms) s'"
proof (induction ms arbitrary: s fs s')
  case Nil
  then show ?case by (simp add: drops_follow_def readings_def after_def)
next
  case (Cons m ms)
  show ?case
  proof (cases "cm_len m < can_frame_size")
    case True
    let ?s = "s\<lparr>cn_stats := (cn_stats s)\<lparr>ss_malformed := ss_malformed (cn_stats s) + 1\<rparr>\<rparr>"
    have "drops_follow ?s (readings ms) s'" using Cons.IH [of ?s fs s'] Cons.prems True by simp
    then show ?thesis using True by (simp add: drops_follow_def prev_ovfl_def readings_def)
  next
    case False
    obtain t s1 where c: "can_control (cm_control m) 0 s = (t, s1)" by fastforce
    obtain gs s2 where g: "can_messages ti ms s1 = (gs, s2)" by fastforce
    have "s' = s2" using Cons.prems False c g by simp
    then show ?thesis using drops_follow_trans [OF can_control_drops [OF c] Cons.IH [OF g]] False by (simp add: readings_def)
  qed
qed

lemma can_run_drops: "drain_run can_drain es s = (fs, s') \<Longrightarrow> drops_follow s (readings (received es)) s'"
proof (induction es arbitrary: s fs s')
  case Nil
  then show ?case by (simp add: drops_follow_def readings_def received_def after_def)
next
  case (Cons e es)
  obtain env room where e: "e = (env, room)" by fastforce
  obtain gs s1 where d: "can_drain env room s = (gs, s1)" by fastforce
  obtain hs s2 where r: "drain_run can_drain es s1 = (hs, s2)" by fastforce
  have s2: "s' = s2" using Cons.prems d r e by simp
  define ms where "ms = (case de_recv env of Received ms \<Rightarrow> take (min room kBatch) ms | _ \<Rightarrow> [])"
  have one: "drops_follow s (readings ms) s1"
  proof (cases "de_recv env")
    case (Received xs)
    obtain ys t where m: "can_messages (de_monotonic env) (take (min room kBatch) xs) s = (ys, t)" by fastforce
    have b: "(if room < kBatch then room else kBatch) = min room kBatch" by simp
    show ?thesis
    proof (cases "min room kBatch = 0")
      case True
      then have "room = 0" by (simp add: kBatch_def)
      then show ?thesis using d Received by (simp add: ms_def can_drain_def Let_def kBatch_def drops_follow_def readings_def after_def)
    next
      case False
      then have "s1 = t\<lparr>cn_stats := (cn_stats t)\<lparr>ss_frames := ss_frames (cn_stats t) + of_nat (length ys)\<rparr>\<rparr>"
        using d Received m unfolding can_drain_def Let_def b by (simp only: if_False recv_result.case prod.case prod.inject) blast
      then show ?thesis using can_messages_drops [OF m] Received by (simp add: ms_def drops_follow_def prev_ovfl_def split: if_splits)
    qed
  qed (use d in \<open>auto simp: ms_def can_drain_def Let_def drops_follow_def readings_def after_def prev_ovfl_def split: if_splits\<close>)
  have "readings (received (e # es)) = readings ms @ readings (received es)"
    by (simp add: received_def readings_def ms_def e split: recv_result.splits)
  then show ?case using drops_follow_trans [OF one Cons.IH [OF r]] s2 by simp
qed

text \<open>A 32-bit counter read often enough is read exactly.\<close>

fun slow_growth :: "nat list \<Rightarrow> bool" where
  "slow_growth (a # b # vs) \<longleftrightarrow> a \<le> b \<and> b < a + 2 ^ 32 \<and> slow_growth (b # vs)"
| "slow_growth vs \<longleftrightarrow> True"

lemma slow_growth_le: "slow_growth (a # vs) \<Longrightarrow> a \<le> last (a # vs)"
proof (induction vs arbitrary: a)
  case (Cons b vs)
  then have "a \<le> b" "b \<le> last (b # vs)" by auto
  then show ?case by simp
qed simp

lemma drops_seen_true:
  "slow_growth (a # vs) \<Longrightarrow> drops_seen (Some (of_nat a)) (map of_nat vs) = of_nat (last (a # vs) - a)"
proof (induction vs arbitrary: a)
  case (Cons b vs)
  then have ab: "a \<le> b" "b - a < 2 ^ 32" "slow_growth (b # vs)" by auto
  have "ucast (of_nat b - of_nat a :: u32) = (of_nat (b - a) :: u64)"
    using ab(1,2) by (simp flip: of_nat_diff add: unsigned_of_nat take_bit_nat_eq_self)
  moreover have "b \<le> last (b # vs)" by (rule slow_growth_le [OF ab(3)])
  ultimately show ?case using Cons.IH [OF ab(3)] ab(1) by (simp flip: of_nat_add)
qed simp

section \<open>Properties\<close>

text \<open>(C36) Every frame a source delivers is one the gateway can carry: no more of them than the caller has
  room for, each within the wire format, unnumbered, tagged with its source, and never with a flag that
  would make it a gap marker or a probe, whatever is on the bus and whatever the kernel returns. The
  source's counter counts exactly them.\<close>

theorem sources_deliver_bus_frames:
  "case drain env room s of (fs, s') \<Rightarrow>
     length fs \<le> room \<and> list_all (\<lambda>f. wire_ok f \<and> \<not> is_gap f \<and> \<not> is_echo f \<and> seq f = 0 \<and> src_id f = source_id s) fs \<and>
     ss_frames (source_stats_of s') = ss_frames (source_stats_of s) + of_nat (length fs)"
proof (cases "drain env room s")
  case (Pair fs s')
  then show ?thesis using any_source.drain_promise [OF Pair]
    by (auto simp: list_all_iff bus_frame_def is_control_iff)
qed

text \<open>The synthetic source owes every tick it has seen. Over any drains with any room, timer readings,
  errors and delays, the frames delivered carry consecutive counter values and cycle through the
  configured ids, and delivered plus still owed is what was owed plus the ticks read times the frames per
  tick: a tick missed by the scheduler is late, never lost.\<close>

theorem synthetic_owes_every_tick:
  "case drain_run synth_drain es s of (fs, s') \<Rightarrow>
     map (\<lambda>f. load_le (data f)) fs = map (\<lambda>i. sy_counter s + of_nat i) [0..<length fs] \<and>
     map can_id fs = map (\<lambda>i. sc_can_ids (sy_cfg s) ! (unat (sy_counter s + of_nat i) mod length (sc_can_ids (sy_cfg s)))) [0..<length fs] \<and>
     of_nat (length fs) + sy_pending s' = sy_pending s + ticks_read es * ucast (sc_frames_per_tick (sy_cfg s))"
proof (cases "drain_run synth_drain es s")
  case (Pair fs s')
  have "list_all2 (synth_ok (sy_cfg s)) (map (\<lambda>i. sy_counter s + of_nat i) [0..<length fs]) fs"
    using synth_run_facts [OF Pair] by simp
  then have "synth_ok (sy_cfg s) (sy_counter s + of_nat i) (fs ! i)" if "i < length fs" for i
    using that list_all2_nthD by fastforce
  then show ?thesis using synth_run_facts [OF Pair] Pair by (auto simp: synth_ok_def intro!: nth_equalityI)
qed

text \<open>Kernel drops are counted exactly across the wrap of the kernel's 32-bit counter. If the true
  number of dropped frames grows by less than \<open>2^32\<close> between two readings, then over any drains the
  source adds exactly the drops between the first and the last reading.\<close>

theorem kernel_drops_exact:
  assumes "readings (received es) = map of_nat (v # vs)" "slow_growth (v # vs)" "\<not> cn_have_ovfl s"
  shows "ss_kernel_drops (cn_stats (snd (drain_run can_drain es s))) =
     ss_kernel_drops (cn_stats s) + of_nat (last (v # vs) - v)"
proof -
  obtain fs s' where r: "drain_run can_drain es s = (fs, s')" by fastforce
  have "drops_seen (prev_ovfl s) (readings (received es)) = of_nat (last (v # vs) - v)"
    using assms drops_seen_true [OF assms(2)] by (simp add: prev_ovfl_def)
  then show ?thesis using can_run_drops [OF r] r by (simp add: drops_follow_def)
qed

text \<open>Two messages, between which the kernel's counter wraps after three drops.\<close>

definition wrapping_messages :: "can_msg list" where
  "wrapping_messages =
     map (\<lambda>x. \<lparr>cm_len = 16, cm_control = [RxqOvfl x], cm_can_id = 5, cm_dlc = 0, cm_data = []\<rparr>) [of_nat (2 ^ 32 - 2), 1]"

theorem kernel_drops_exact_witness:
  "ss_kernel_drops (cn_stats (snd (drain_run can_drain
      [(\<lparr>de_timer = TimerNothing, de_recv = Received wrapping_messages, de_realtime = 0, de_monotonic = 0\<rparr>, 64)]
      (can_new 0 ''can0'')))) = 3"
proof -
  let ?es = "[(\<lparr>de_timer = TimerNothing, de_recv = Received wrapping_messages, de_realtime = 0, de_monotonic = 0\<rparr>, 64)]"
  have w: "(1 :: u32) = of_nat (2 ^ 32 + 1)" by simp
  have "readings (received ?es) = map of_nat [2 ^ 32 - 2, 2 ^ 32 + 1]"
    by (simp add: received_def readings_def ovfls_def wrapping_messages_def kBatch_def can_frame_size_def)
  then show ?thesis
    using kernel_drops_exact [of ?es "2 ^ 32 - 2" "[2 ^ 32 + 1]" "can_new 0 ''can0''"]
    by (simp add: can_new_def source_stats0_def)
qed

end
