(* ===== verification/Ingest.thy ===== *)
theory Ingest
  imports Sources
begin

text \<open>
  The ingest threads (\<^verbatim>\<open>src/fanout.cpp\<close>, \<^verbatim>\<open>src/ring_ingest.cpp\<close>). Topology A has one thread that polls every
  source, numbers the frames and pushes each batch into every queue; topology B has one thread per
  source, and publishing into the ring numbers the frames. A run is the sequence of outcomes of
  \<^verbatim>\<open>poll\<close>; with the ring, of the threads' turns in the order in which they publish. The log of the
  batches, with the index of the source each came from, is a ghost.
\<close>

section \<open>Logs\<close>

type_synonym batch_log = "(nat \<times> frame list) list"

definition log_frames :: "batch_log \<Rightarrow> frame list" where
  "log_frames log = concat (map snd log)"

definition of_source :: "nat \<Rightarrow> batch_log \<Rightarrow> frame list" where
  "of_source i log = log_frames (filter (\<lambda>(j, fs). j = i) log)"

definition unnumbered :: "frame \<Rightarrow> frame" where
  "unnumbered f = f\<lparr>seq := 0\<rparr>"

section \<open>Fan-out\<close>

definition kDrainBatch :: nat where "kDrainBatch = 64"

record fanout =
  fo_sources :: "source list"
  fo_sinks :: "frame bqueue list"
  fo_next_seq :: u64
  fo_frames :: u64
  fo_batches :: u64
  fo_poll_errors :: u64
  fo_log :: batch_log

definition fanout_new :: "source list \<Rightarrow> frame bqueue list \<Rightarrow> fanout" where
  "fanout_new sources sinks = \<lparr>fo_sources = sources, fo_sinks = sinks, fo_next_seq = 0, fo_frames = 0,
     fo_batches = 0, fo_poll_errors = 0, fo_log = []\<rparr>"

text \<open>\<open>create\<close>; \<open>None\<close> is a null pointer.\<close>

definition fanout_create :: "(nat \<Rightarrow> string) \<Rightarrow> source option list \<Rightarrow> frame bqueue option list \<Rightarrow> os \<Rightarrow>
    (string + (fanout \<times> nat)) \<times> os" where
  "fanout_create strerror sources sinks w =
     (if sources = [] then (Inl ''fan-out needs at least one source'', w)
      else if None \<in> set sources then (Inl ''fan-out was given a null source'', w)
      else if sinks = [] then (Inl ''fan-out needs at least one sink'', w)
      else if None \<in> set sinks then (Inl ''fan-out was given a null sink'', w)
      else case open_event strerror w of
        (Inl e, w) \<Rightarrow> (Inl e, w)
      | (Inr fd, w) \<Rightarrow> (Inr (fanout_new (map the sources) (map the sinks), fd), w))"

text \<open>Outcomes of \<^verbatim>\<open>poll\<close>: interrupted, another error, timeout, or descriptors ready. In the last case there
  is, per source, what its \<open>drain\<close> will see if \<^verbatim>\<open>POLLIN\<close> is set, and whether the stop event is set.\<close>

datatype ingest_poll = InIntr | InError | InTimeout | InReady "drain_env option list" bool

definition number_batch :: "u64 \<Rightarrow> frame list \<Rightarrow> frame list" where
  "number_batch base fs = map (\<lambda>k. (fs ! k)\<lparr>seq := base + of_nat k\<rparr>) [0..<length fs]"

text \<open>The body of the loop over the sources, for a readable source.\<close>

definition fan_source :: "nat \<Rightarrow> drain_env \<Rightarrow> fanout \<Rightarrow> fanout" where
  "fan_source i env s =
     (case drain env kDrainBatch (fo_sources s ! i) of
        (fs, src) \<Rightarrow>
          let s = s\<lparr>fo_sources := (fo_sources s)[i := src]\<rparr> in
          if fs = [] then s
          else let base = fo_next_seq s; batch = number_batch base fs
               in s\<lparr>fo_next_seq := base + of_nat (length fs),
                    fo_sinks := map (\<lambda>q. snd (push_batch batch q)) (fo_sinks s),
                    fo_frames := fo_frames s + of_nat (length fs), fo_batches := fo_batches s + 1,
                    fo_log := fo_log s @ [(i, batch)]\<rparr>)"

fun fan_sources :: "nat \<Rightarrow> drain_env option list \<Rightarrow> fanout \<Rightarrow> fanout" where
  "fan_sources i [] s = s"
| "fan_sources i (r # rs) s =
     (if i < length (fo_sources s)
      then fan_sources (Suc i) rs (case r of None \<Rightarrow> s | Some env \<Rightarrow> fan_source i env s)
      else s)"

text \<open>One turn of \<open>run\<close>; the boolean says that the thread returns.\<close>

fun fan_turn :: "ingest_poll \<Rightarrow> fanout \<Rightarrow> bool \<times> fanout" where
  "fan_turn InIntr s = (False, s)"
| "fan_turn InError s = (False, s\<lparr>fo_poll_errors := fo_poll_errors s + 1\<rparr>)"
| "fan_turn InTimeout s = (False, s)"
| "fan_turn (InReady ready stop) s = (stop, fan_sources 0 ready s)"

fun fan_run :: "ingest_poll list \<Rightarrow> fanout \<Rightarrow> fanout" where
  "fan_run [] s = s"
| "fan_run (p # ps) s = (case fan_turn p s of (stop, s') \<Rightarrow> if stop then s' else fan_run ps s')"

record ingest_stats =
  in_frames :: u64
  in_batches :: u64
  in_poll_errors :: u64

definition fanout_stats :: "fanout \<Rightarrow> ingest_stats" where
  "fanout_stats s = \<lparr>in_frames = fo_frames s, in_batches = fo_batches s, in_poll_errors = fo_poll_errors s\<rparr>"

section \<open>Ring ingest\<close>

record ring_ingest =
  ri_sources :: "source list"
  ri_ring :: ring
  ri_stopped :: "bool list"
  ri_frames :: u64
  ri_batches :: u64
  ri_poll_errors :: u64
  ri_log :: batch_log

definition ring_ingest_new :: "source list \<Rightarrow> ring \<Rightarrow> ring_ingest" where
  "ring_ingest_new sources r = \<lparr>ri_sources = sources, ri_ring = r, ri_stopped = replicate (length sources) False,
     ri_frames = 0, ri_batches = 0, ri_poll_errors = 0, ri_log = []\<rparr>"

definition ring_ingest_create :: "(nat \<Rightarrow> string) \<Rightarrow> source option list \<Rightarrow> ring \<Rightarrow> os \<Rightarrow> (string + (ring_ingest \<times> nat)) \<times> os" where
  "ring_ingest_create strerror sources r w =
     (if sources = [] then (Inl ''ring ingest needs at least one source'', w)
      else if None \<in> set sources then (Inl ''ring ingest was given a null source'', w)
      else case open_event strerror w of
        (Inl e, w) \<Rightarrow> (Inl e, w)
      | (Inr fd, w) \<Rightarrow> (Inr (ring_ingest_new (map the sources) r, fd), w))"

text \<open>\<open>source.drain\<close> and what follows it; \<open>None\<close> when publishing does not return.\<close>

definition ring_source :: "nat \<Rightarrow> drain_env \<Rightarrow> ring_ingest \<Rightarrow> ring_ingest option" where
  "ring_source i env s =
     (case drain env kDrainBatch (ri_sources s ! i) of
        (fs, src) \<Rightarrow>
          let s = s\<lparr>ri_sources := (ri_sources s)[i := src]\<rparr> in
          if fs = [] then Some s
          else map_option (\<lambda>(_, r). s\<lparr>ri_ring := r, ri_frames := ri_frames s + of_nat (length fs),
                   ri_batches := ri_batches s + 1, ri_log := ri_log s @ [(i, fs)]\<rparr>)
                 (publish_batch fs (ri_ring s)))"

text \<open>One turn of the thread of source \<open>i\<close>; the poll set has that source and the stop event.\<close>

definition ring_turn :: "nat \<Rightarrow> ingest_poll \<Rightarrow> ring_ingest \<Rightarrow> ring_ingest option" where
  "ring_turn i p s =
     (case p of
        InIntr \<Rightarrow> Some s
      | InError \<Rightarrow> Some (s\<lparr>ri_poll_errors := ri_poll_errors s + 1\<rparr>)
      | InTimeout \<Rightarrow> Some s
      | InReady ready stop \<Rightarrow>
          map_option (\<lambda>s. if stop then s\<lparr>ri_stopped := (ri_stopped s)[i := True]\<rparr> else s)
            (case ready of (Some env) # _ \<Rightarrow> ring_source i env s | _ \<Rightarrow> Some s))"

text \<open>The threads' turns, in any order; a thread that has returned takes none.\<close>

fun ring_run :: "(nat \<times> ingest_poll) list \<Rightarrow> ring_ingest \<Rightarrow> ring_ingest option" where
  "ring_run [] s = Some s"
| "ring_run ((i, p) # ps) s =
     (if i < length (ri_sources s) \<and> \<not> ri_stopped s ! i
      then Option.bind (ring_turn i p s) (ring_run ps) else ring_run ps s)"

definition ring_ingest_stats :: "ring_ingest \<Rightarrow> ingest_stats" where
  "ring_ingest_stats s = \<lparr>in_frames = ri_frames s, in_batches = ri_batches s, in_poll_errors = ri_poll_errors s\<rparr>"

section \<open>What each source is asked\<close>

text \<open>The drains a run makes of source \<open>i\<close>.\<close>

definition one_drain :: "nat \<Rightarrow> drain_env option list \<Rightarrow> (drain_env \<times> nat) list" where
  "one_drain i ready = (if i < length ready then case ready ! i of None \<Rightarrow> [] | Some env \<Rightarrow> [(env, kDrainBatch)] else [])"

fun fan_drains :: "nat \<Rightarrow> ingest_poll list \<Rightarrow> (drain_env \<times> nat) list" where
  "fan_drains i [] = []"
| "fan_drains i (InReady ready stop # ps) = one_drain i ready @ (if stop then [] else fan_drains i ps)"
| "fan_drains i (_ # ps) = fan_drains i ps"

fun ring_drains :: "nat \<Rightarrow> (nat \<times> ingest_poll) list \<Rightarrow> (drain_env \<times> nat) list" where
  "ring_drains i [] = []"
| "ring_drains i ((j, InReady ready stop) # ps) =
     (if j \<noteq> i then ring_drains i ps else one_drain 0 ready @ (if stop then [] else ring_drains i ps))"
| "ring_drains i (_ # ps) = ring_drains i ps"

section \<open>Log algebra\<close>

lemma log_frames_append [simp]: "log_frames (a @ b) = log_frames a @ log_frames b"
  by (simp add: log_frames_def)

lemma log_frames_Nil [simp]: "log_frames [] = []"
  by (simp add: log_frames_def)

lemma log_frames_one [simp]: "log_frames [(i, fs)] = fs"
  by (simp add: log_frames_def)

lemma of_source_append [simp]: "of_source i (a @ b) = of_source i a @ of_source i b"
  by (simp add: of_source_def)

lemma of_source_Nil [simp]: "of_source i [] = []"
  by (simp add: of_source_def)

lemma of_source_one [simp]: "of_source i [(j, fs)] = (if i = j then fs else [])"
  by (simp add: of_source_def)

lemma length_number_batch [simp]: "length (number_batch base fs) = length fs"
  by (simp add: number_batch_def)

lemma number_batch_Nil_iff [simp]: "number_batch base fs = [] \<longleftrightarrow> fs = []" "[] = number_batch base fs \<longleftrightarrow> fs = []"
  by (auto simp: number_batch_def)

lemma seq_number_batch: "map seq (number_batch base fs) = map (\<lambda>k. base + of_nat k) [0..<length fs]"
  by (simp add: number_batch_def)

lemma unnumbered_number_batch: "list_all (\<lambda>f. seq f = 0) fs \<Longrightarrow> map unnumbered (number_batch base fs) = fs"
  by (rule nth_equalityI) (simp_all add: number_batch_def unnumbered_def list_all_length)

lemma bus_seq [simp]: "bus_frame (f\<lparr>seq := x\<rparr>) = bus_frame f"
  by (simp add: bus_frame_def wire_ok_def frame_ok_def is_control_def)

lemma bus_number_batch: "list_all bus_frame (number_batch base fs) = list_all bus_frame fs"
  by (simp add: number_batch_def list_all_length)

lemma drain_run_append:
  "drain_run d (xs @ ys) s = (case drain_run d xs s of (a, s1) \<Rightarrow> (case drain_run d ys s1 of (b, s2) \<Rightarrow> (a @ b, s2)))"
  by (induction xs arbitrary: s) (auto split: prod.splits)

section \<open>Fan-out moves\<close>

text \<open>What part of a run does, when \<open>asks i\<close> are the drains it makes of source \<open>i\<close>.\<close>

definition fans :: "(nat \<Rightarrow> (drain_env \<times> nat) list) \<Rightarrow> fanout \<Rightarrow> fanout \<Rightarrow> bool" where
  "fans asks s s' \<longleftrightarrow> (\<exists>new. fo_log s' = fo_log s @ new \<and>
     fo_sinks s' = map (fold (\<lambda>b q. snd (push_batch b q)) (map snd new)) (fo_sinks s) \<and>
     map seq (log_frames new) = map (\<lambda>k. fo_next_seq s + of_nat k) [0..<length (log_frames new)] \<and>
     fo_next_seq s' = fo_next_seq s + of_nat (length (log_frames new)) \<and>
     fo_frames s' = fo_frames s + of_nat (length (log_frames new)) \<and> fo_batches s' = fo_batches s + of_nat (length new) \<and>
     list_all bus_frame (log_frames new) \<and> [] \<notin> snd ` set new \<and>
     length (fo_sources s') = length (fo_sources s) \<and>
     (\<forall>i < length (fo_sources s).
        drain_run drain (asks i) (fo_sources s ! i) = (map unnumbered (of_source i new), fo_sources s' ! i)))"

lemma fans_refl:
  assumes "\<And>i. asks i = []" "fo_log s' = fo_log s" "fo_sinks s' = fo_sinks s" "fo_next_seq s' = fo_next_seq s" "fo_frames s' = fo_frames s"
    "fo_batches s' = fo_batches s" "fo_sources s' = fo_sources s"
  shows "fans asks s s'"
  using assms by (auto simp: fans_def intro!: exI [of _ "[]"])

lemma fans_trans:
  assumes "fans a s s1" "fans b s1 s2"
  shows "fans (\<lambda>i. a i @ b i) s s2"
proof -
  obtain x where x: "fo_log s1 = fo_log s @ x"
     "fo_sinks s1 = map (fold (\<lambda>b q. snd (push_batch b q)) (map snd x)) (fo_sinks s)"
     "map seq (log_frames x) = map (\<lambda>k. fo_next_seq s + of_nat k) [0..<length (log_frames x)]"
     "fo_next_seq s1 = fo_next_seq s + of_nat (length (log_frames x))"
     "fo_frames s1 = fo_frames s + of_nat (length (log_frames x))" "fo_batches s1 = fo_batches s + of_nat (length x)"
     "list_all bus_frame (log_frames x)" "[] \<notin> snd ` set x" "length (fo_sources s1) = length (fo_sources s)"
     "\<And>i. i < length (fo_sources s) \<Longrightarrow>
        drain_run drain (a i) (fo_sources s ! i) = (map unnumbered (of_source i x), fo_sources s1 ! i)"
    using assms(1) unfolding fans_def by blast
  obtain y where y: "fo_log s2 = fo_log s1 @ y"
     "fo_sinks s2 = map (fold (\<lambda>b q. snd (push_batch b q)) (map snd y)) (fo_sinks s1)"
     "map seq (log_frames y) = map (\<lambda>k. fo_next_seq s1 + of_nat k) [0..<length (log_frames y)]"
     "fo_next_seq s2 = fo_next_seq s1 + of_nat (length (log_frames y))"
     "fo_frames s2 = fo_frames s1 + of_nat (length (log_frames y))" "fo_batches s2 = fo_batches s1 + of_nat (length y)"
     "list_all bus_frame (log_frames y)" "[] \<notin> snd ` set y" "length (fo_sources s2) = length (fo_sources s1)"
     "\<And>i. i < length (fo_sources s1) \<Longrightarrow>
        drain_run drain (b i) (fo_sources s1 ! i) = (map unnumbered (of_source i y), fo_sources s2 ! i)"
    using assms(2) unfolding fans_def by blast
  have seqs: "map seq (log_frames (x @ y)) = map (\<lambda>k. fo_next_seq s + of_nat k) [0..<length (log_frames (x @ y))]"
    using x(3,4) y(3) by (simp add: map_upt_split add.assoc)
  have runs: "drain_run drain (a i @ b i) (fo_sources s ! i) = (map unnumbered (of_source i (x @ y)), fo_sources s2 ! i)"
    if "i < length (fo_sources s)" for i
    using x(9,10) y(10) that by (simp add: drain_run_append)
  show ?thesis unfolding fans_def
    by (rule exI [of _ "x @ y"], intro conjI seqs allI impI runs)
      (use x(1,2,4-9) y(1,2,4-9) in \<open>auto simp: comp_def add.assoc\<close>)
qed

lemma fans_source:
  assumes "i < length (fo_sources s)"
  shows "fans (\<lambda>j. if j = i then [(env, kDrainBatch)] else []) s (fan_source i env s)"
proof -
  obtain fs src where d: "drain env kDrainBatch (fo_sources s ! i) = (fs, src)" by fastforce
  have p: "list_all bus_frame fs" "list_all (\<lambda>f. seq f = 0) fs"
    using any_source.drain_promise [OF d] by (auto simp: list_all_iff)
  show ?thesis
  proof (cases "fs = []")
    case True
    then show ?thesis using assms d by (auto simp: fans_def fan_source_def nth_list_update intro!: exI [of _ "[]"])
  next
    case False
    let ?b = "number_batch (fo_next_seq s) fs"
    have u: "map unnumbered ?b = fs" by (rule unnumbered_number_batch [OF p(2)])
    show ?thesis unfolding fans_def
      by (rule exI [of _ "[(i, ?b)]"])
        (use False assms d p u in \<open>simp add: fan_source_def Let_def seq_number_batch bus_number_batch nth_list_update\<close>)
  qed
qed

lemma fans_sources:
  "fans (\<lambda>j. if k \<le> j \<and> j < length (fo_sources s) then one_drain (j - k) rs else []) s (fan_sources k rs s)"
proof (induction rs arbitrary: k s)
  case Nil
  then show ?case by (simp add: one_drain_def fans_refl)
next
  case (Cons r rs)
  show ?case
  proof (cases "k < length (fo_sources s)")
    case False
    then show ?thesis by (auto intro!: fans_refl)
  next
    case True
    define s1 where "s1 = (case r of None \<Rightarrow> s | Some env \<Rightarrow> fan_source k env s)"
    have one: "fans (\<lambda>j. if j = k then one_drain 0 [r] else []) s s1"
    proof (cases r)
      case None
      then have "(\<lambda>j. if j = k then one_drain 0 [r] else []) = (\<lambda>_. [])" by (auto simp: one_drain_def)
      then show ?thesis using None by (simp add: s1_def fans_refl)
    next
      case (Some env)
      then have d: "one_drain 0 [r] = [(env, kDrainBatch)]" by (simp add: one_drain_def)
      show ?thesis using fans_source [OF True, of env] Some unfolding d by (simp add: s1_def)
    qed
    then have len: "length (fo_sources s1) = length (fo_sources s)" by (auto simp: fans_def)
    have split: "(if k \<le> j \<and> j < length (fo_sources s) then one_drain (j - k) (r # rs) else []) =
        (if j = k then one_drain 0 [r] else []) @
        (if Suc k \<le> j \<and> j < length (fo_sources s1) then one_drain (j - Suc k) rs else [])" for j
      using True len by (auto simp: one_drain_def nth_Cons' Suc_diff_Suc [symmetric] split: option.splits nat.splits)
    have "fan_sources k (r # rs) s = fan_sources (Suc k) rs s1" using True by (simp add: s1_def)
    then show ?thesis using fans_trans [OF one Cons.IH] unfolding split by simp
  qed
qed

lemma fans_turn:
  assumes "fan_turn p s = (stop, s')"
  shows "fans (\<lambda>i. if i < length (fo_sources s) then fan_drains i [p] else []) s s'"
proof (cases p)
  case (InReady ready x)
  then have "fan_drains i [p] = one_drain i ready" for i by simp
  then show ?thesis using fans_sources [of 0 s ready] assms InReady by (simp cong: if_cong)
qed (use assms in \<open>auto intro!: fans_refl\<close>)

lemma fans_run: "fans (\<lambda>i. if i < length (fo_sources s) then fan_drains i ps else []) s (fan_run ps s)"
proof (induction ps arbitrary: s)
  case Nil
  then show ?case by (simp add: fans_refl)
next
  case (Cons p ps)
  obtain stop s1 where t: "fan_turn p s = (stop, s1)" by fastforce
  note one = fans_turn [OF t]
  have len: "length (fo_sources s1) = length (fo_sources s)" using one by (auto simp: fans_def)
  show ?case
  proof (cases stop)
    case True
    then obtain ready where "p = InReady ready True" using t by (cases p) auto
    then have eq: "fan_drains i (p # ps) = fan_drains i [p]" for i by simp
    have "fan_run (p # ps) s = s1" using t True by simp
    then show ?thesis using one unfolding eq by simp
  next
    case False
    then have "fan_drains i (p # ps) = fan_drains i [p] @ fan_drains i ps" for i using t by (cases p) auto
    then have eq: "(if i < length (fo_sources s) then fan_drains i (p # ps) else []) =
       (if i < length (fo_sources s) then fan_drains i [p] else []) @ (if i < length (fo_sources s1) then fan_drains i ps else [])" for i
      using len by simp
    have "fan_run (p # ps) s = fan_run ps s1" using t False by simp
    then show ?thesis using fans_trans [OF one Cons.IH] unfolding eq by simp
  qed
qed

section \<open>Ring moves\<close>

text \<open>What part of a run does: \<open>new\<close> is what it adds to the log, \<open>log\<close> what the ring held before.\<close>

definition publishes :: "(nat \<Rightarrow> (drain_env \<times> nat) list) \<Rightarrow> frame list \<Rightarrow> batch_log \<Rightarrow> ring_ingest \<Rightarrow> ring_ingest \<Rightarrow> bool" where
  "publishes asks log new s s' \<longleftrightarrow> ri_log s' = ri_log s @ new \<and>
     ring_holds (ri_ring s') (log @ log_frames new) \<and>
     ri_frames s' = ri_frames s + of_nat (length (log_frames new)) \<and> ri_batches s' = ri_batches s + of_nat (length new) \<and>
     list_all bus_frame (log_frames new) \<and> length (ri_sources s') = length (ri_sources s) \<and>
     (\<forall>i < length (ri_sources s). drain_run drain (asks i) (ri_sources s ! i) = (of_source i new, ri_sources s' ! i))"

lemma publishes_refl:
  assumes "\<And>i. asks i = []" "ri_log s' = ri_log s" "ri_ring s' = ri_ring s" "ri_frames s' = ri_frames s"
    "ri_batches s' = ri_batches s" "ri_sources s' = ri_sources s" "ring_holds (ri_ring s) log"
  shows "publishes asks log [] s s'"
  using assms by (simp add: publishes_def)

lemma publishes_trans:
  assumes "publishes a log x s s1" "publishes b (log @ log_frames x) y s1 s2"
  shows "publishes (\<lambda>i. a i @ b i) log (x @ y) s s2"
proof -
  have "drain_run drain (a i @ b i) (ri_sources s ! i) = (of_source i (x @ y), ri_sources s2 ! i)"
    if "i < length (ri_sources s)" for i
    using assms that by (simp add: publishes_def drain_run_append)
  then show ?thesis using assms by (simp add: publishes_def add.assoc)
qed

lemma ring_source_publishes:
  assumes "i < length (ri_sources s)" "ring_holds (ri_ring s) log" "length log + kDrainBatch \<le> 2 ^ 62"
  shows "\<exists>s' new. ring_source i env s = Some s' \<and>
    publishes (\<lambda>j. if j = i then [(env, kDrainBatch)] else []) log new s s' \<and> ri_stopped s' = ri_stopped s \<and>
    length (log_frames new) \<le> kDrainBatch"
proof -
  obtain fs src where dr: "drain env kDrainBatch (ri_sources s ! i) = (fs, src)" by fastforce
  have p: "list_all bus_frame fs" "length fs \<le> kDrainBatch" using any_source.drain_promise [OF dr] by auto
  let ?s1 = "s\<lparr>ri_sources := (ri_sources s)[i := src]\<rparr>"
  show ?thesis
  proof (cases "fs = []")
    case True
    then have "ring_source i env s = Some ?s1" using dr by (simp add: ring_source_def)
    moreover have "publishes (\<lambda>j. if j = i then [(env, kDrainBatch)] else []) log [] s ?s1"
      using True dr assms(1,2) by (simp add: publishes_def nth_list_update)
    ultimately show ?thesis by (intro exI [of _ ?s1] exI [of _ "[]"]) simp
  next
    case False
    obtain r where r: "publish_batch fs (ri_ring s) = Some (of_nat (length log), r)" "ring_holds r (log @ fs)"
      using publish_batch_appends [OF assms(2) bus_frames_ok [OF p(1)]] assms(3) p(2) by force
    let ?s2 = "?s1\<lparr>ri_ring := r, ri_frames := ri_frames s + of_nat (length fs),
                   ri_batches := ri_batches s + 1, ri_log := ri_log s @ [(i, fs)]\<rparr>"
    have "ring_source i env s = Some ?s2" using dr False r(1) by (simp add: ring_source_def Let_def)
    moreover have "publishes (\<lambda>j. if j = i then [(env, kDrainBatch)] else []) log [(i, fs)] s ?s2"
      using dr assms(1) r(2) p(1) by (simp add: publishes_def nth_list_update)
    ultimately show ?thesis using p(2) by (intro exI [of _ ?s2] exI [of _ "[(i, fs)]"]) simp
  qed
qed

lemma ring_turn_publishes:
  assumes "i < length (ri_sources s)" "ring_holds (ri_ring s) log" "length log + kDrainBatch \<le> 2 ^ 62"
  shows "\<exists>s' new. ring_turn i p s = Some s' \<and>
    publishes (\<lambda>j. if j = i then ring_drains i [(i, p)] else []) log new s s' \<and>
    ri_stopped s' = (case p of InReady _ True \<Rightarrow> (ri_stopped s)[i := True] | _ \<Rightarrow> ri_stopped s) \<and>
    length (log_frames new) \<le> kDrainBatch"
proof (cases p)
  case (InReady ready stop)
  show ?thesis
  proof (cases "one_drain 0 ready")
    case Nil
    then have r: "(case ready of (Some env) # _ \<Rightarrow> ring_source i env s | _ \<Rightarrow> Some s) = Some s"
      by (auto simp: one_drain_def split: list.splits option.splits if_splits)
    have d: "ring_drains i [(i, p)] = []" using Nil InReady by simp
    show ?thesis unfolding d
      by (intro exI [of _ "if stop then s\<lparr>ri_stopped := (ri_stopped s)[i := True]\<rparr> else s"] exI [of _ "[]"])
        (use r InReady assms(2) in \<open>auto simp: ring_turn_def intro!: publishes_refl\<close>)
  next
    case (Cons e es)
    then obtain env rest where e: "ready = Some env # rest" "one_drain 0 ready = [(env, kDrainBatch)]"
      by (cases ready) (auto simp: one_drain_def split: option.splits if_splits)
    have d: "ring_drains i [(i, p)] = [(env, kDrainBatch)]" using e InReady by simp
    obtain s1 new where s1: "ring_source i env s = Some s1" "ri_stopped s1 = ri_stopped s" "length (log_frames new) \<le> kDrainBatch"
        "publishes (\<lambda>j. if j = i then [(env, kDrainBatch)] else []) log new s s1"
      using ring_source_publishes [OF assms] by blast
    let ?s2 = "if stop then s1\<lparr>ri_stopped := (ri_stopped s1)[i := True]\<rparr> else s1"
    have "publishes (\<lambda>j. if j = i then [(env, kDrainBatch)] else []) log new s ?s2" using s1(4) by (simp add: publishes_def)
    then show ?thesis unfolding d
      by (intro exI [of _ ?s2] exI [of _ new]) (use s1 e(1) InReady in \<open>auto simp: ring_turn_def\<close>)
  qed
next
  case InIntr
  then show ?thesis using assms(2) by (intro exI [of _ s] exI [of _ "[]"]) (auto simp: ring_turn_def intro!: publishes_refl)
next
  case InTimeout
  then show ?thesis using assms(2) by (intro exI [of _ s] exI [of _ "[]"]) (auto simp: ring_turn_def intro!: publishes_refl)
next
  case InError
  then show ?thesis using assms(2)
    by (intro exI [of _ "s\<lparr>ri_poll_errors := ri_poll_errors s + 1\<rparr>"] exI [of _ "[]"]) (auto simp: ring_turn_def intro!: publishes_refl)
qed

lemma ring_drains_other: "j \<noteq> i \<Longrightarrow> ring_drains i ((j, p) # ps) = ring_drains i ps"
  by (cases p) simp_all

lemma ring_run_publishes:
  assumes "ring_holds (ri_ring s) log" "length log + kDrainBatch * length ps \<le> 2 ^ 62"
    and "length (ri_stopped s) = length (ri_sources s)"
  shows "\<exists>s' new. ring_run ps s = Some s' \<and>
    publishes (\<lambda>i. if i < length (ri_sources s) \<and> \<not> ri_stopped s ! i then ring_drains i ps else []) log new s s'"
  using assms
proof (induction ps arbitrary: s log)
  case Nil
  then show ?case by (intro exI [of _ s] exI [of _ "[]"]) (simp add: publishes_refl)
next
  case (Cons q ps)
  obtain i p where q: "q = (i, p)" by fastforce
  show ?case
  proof (cases "i < length (ri_sources s) \<and> \<not> ri_stopped s ! i")
    case False
    then have eq: "(if j < length (ri_sources s) \<and> \<not> ri_stopped s ! j then ring_drains j (q # ps) else []) =
        (if j < length (ri_sources s) \<and> \<not> ri_stopped s ! j then ring_drains j ps else [])" for j
      using ring_drains_other [of i j p ps] by (auto simp: q)
    have "ring_run (q # ps) s = ring_run ps s" using False by (simp only: q ring_run.simps if_False)
    then show ?thesis using Cons.IH [OF Cons.prems(1) _ Cons.prems(3)] Cons.prems(2) unfolding eq by simp
  next
    case True
    obtain s1 x where t: "ring_turn i p s = Some s1"
        "publishes (\<lambda>j. if j = i then ring_drains i [(i, p)] else []) log x s s1"
        "ri_stopped s1 = (case p of InReady _ True \<Rightarrow> (ri_stopped s)[i := True] | _ \<Rightarrow> ri_stopped s)"
        "length (log_frames x) \<le> kDrainBatch"
      using ring_turn_publishes [of i s log p] True Cons.prems by auto
    have h: "ring_holds (ri_ring s1) (log @ log_frames x)" "length (ri_sources s1) = length (ri_sources s)"
      using t(2) by (simp_all add: publishes_def)
    have ls: "length (ri_stopped s1) = length (ri_sources s1)"
      using t(3) h(2) Cons.prems(3) by (auto split: ingest_poll.splits bool.splits)
    obtain s2 y where r: "ring_run ps s1 = Some s2"
        "publishes (\<lambda>j. if j < length (ri_sources s1) \<and> \<not> ri_stopped s1 ! j then ring_drains j ps else []) (log @ log_frames x) y s1 s2"
      using Cons.IH [OF h(1) _ ls] Cons.prems(2) t(4) by force
    have eq: "(if j < length (ri_sources s) \<and> \<not> ri_stopped s ! j then ring_drains j (q # ps) else []) =
        (if j = i then ring_drains i [(i, p)] else []) @
        (if j < length (ri_sources s1) \<and> \<not> ri_stopped s1 ! j then ring_drains j ps else [])" for j
    proof (cases "j = i")
      case True
      then show ?thesis using \<open>i < length (ri_sources s) \<and> \<not> ri_stopped s ! i\<close> h(2) t(3) Cons.prems(3)
        by (cases p) (auto simp: q split: bool.splits)
    next
      case False
      then have "ri_stopped s1 ! j = ri_stopped s ! j" using t(3) by (auto split: ingest_poll.splits bool.splits)
      then show ?thesis using False h(2) ring_drains_other [of i j p ps] by (simp add: q)
    qed
    have "ring_run (q # ps) s = Some s2" using True t(1) r(1) by (simp add: q)
    then show ?thesis using publishes_trans [OF t(2) r(2)] unfolding eq by blast
  qed
qed

section \<open>Properties\<close>

text \<open>(C16) The fan-out thread loses, invents and reorders nothing. Over any run: the frames pushed, in order,
  are numbered \<open>0, 1, 2, \<dots>\<close> without a hole; every queue has been offered every one of the batches in that
  order; and for each source, the frames of its batches in order are, apart from the number, exactly what
  its drains returned. The counters count them.\<close>

theorem fan_out_numbers_everything:
  "let s = fan_run polls (fanout_new sources sinks); frames = log_frames (fo_log s) in
     map seq frames = map of_nat [0..<length frames] \<and>
     fo_sinks s = map (fold (\<lambda>b q. snd (push_batch b q)) (map snd (fo_log s))) sinks \<and>
     map (\<lambda>i. map unnumbered (of_source i (fo_log s))) [0..<length sources] =
       map (\<lambda>i. fst (drain_run drain (fan_drains i polls) (sources ! i))) [0..<length sources] \<and>
     list_all bus_frame frames \<and> fo_frames s = of_nat (length frames) \<and> fo_batches s = of_nat (length (fo_log s))"
proof -
  let ?s0 = "fanout_new sources sinks"
  obtain new where n: "fo_log (fan_run polls ?s0) = fo_log ?s0 @ new"
     "fo_sinks (fan_run polls ?s0) = map (fold (\<lambda>b q. snd (push_batch b q)) (map snd new)) (fo_sinks ?s0)"
     "map seq (log_frames new) = map (\<lambda>k. fo_next_seq ?s0 + of_nat k) [0..<length (log_frames new)]"
     "fo_frames (fan_run polls ?s0) = fo_frames ?s0 + of_nat (length (log_frames new))"
     "fo_batches (fan_run polls ?s0) = fo_batches ?s0 + of_nat (length new)"
     "list_all bus_frame (log_frames new)"
     "\<And>i. i < length sources \<Longrightarrow> drain_run drain (fan_drains i polls) (sources ! i) =
        (map unnumbered (of_source i new), fo_sources (fan_run polls ?s0) ! i)"
    using fans_run [of ?s0 polls] by (auto simp: fans_def fanout_new_def)
  show ?thesis using n by (simp add: Let_def fanout_new_def)
qed

text \<open>(C17) The ring ingest threads together do the same. Whatever the order of the threads' turns, every
  publish returns; the ring holds exactly the published frames in the order of the log, so that the
  ticket of a frame is its position there; and the frames of each source appear in the order in which
  its drains returned them, each exactly once.\<close>

theorem ring_ingest_publishes_everything:
  assumes "ring_new capacity = Some r" "kDrainBatch * length turns \<le> 2 ^ 62"
  shows "\<exists>s. ring_run turns (ring_ingest_new sources r) = Some s \<and>
     ring_holds (ri_ring s) (log_frames (ri_log s)) \<and> list_all bus_frame (log_frames (ri_log s)) \<and>
     (\<forall>i < length sources. of_source i (ri_log s) = fst (drain_run drain (ring_drains i turns) (sources ! i))) \<and>
     ri_frames s = of_nat (length (log_frames (ri_log s))) \<and> ri_batches s = of_nat (length (ri_log s))"
proof -
  let ?s0 = "ring_ingest_new sources r"
  have "ring_holds (ri_ring ?s0) []" using ring_holds_new [OF assms(1)] by (simp add: ring_ingest_new_def)
  then obtain s new where r: "ring_run turns ?s0 = Some s"
      "publishes (\<lambda>i. if i < length (ri_sources ?s0) \<and> \<not> ri_stopped ?s0 ! i then ring_drains i turns else []) [] new ?s0 s"
    using ring_run_publishes [of ?s0 "[]" turns] assms(2) by (auto simp: ring_ingest_new_def)
  then show ?thesis by (auto simp: publishes_def ring_ingest_new_def)
qed

text \<open>Two synthetic sources, one turn each.\<close>

definition two_turns :: "(nat \<times> ingest_poll) list" where
  "two_turns = map (\<lambda>i. (i, InReady [Some \<lparr>de_timer = Ticks 2, de_recv = RecvAgain, de_realtime = 0, de_monotonic = 0\<rparr>] True)) [2, 0]"

theorem ring_ingest_publishes_everything_witness:
  "\<exists>r s. ring_new 2 = Some r \<and> ring_run two_turns (ring_ingest_new (replicate 3 (Synth (synth_new synth_config0))) r) = Some s \<and>
     ring_holds (ri_ring s) (log_frames (ri_log s))"
proof -
  obtain r where r: "ring_new 2 = Some r" using ring_new_2 by blast
  have l: "kDrainBatch * length two_turns \<le> 2 ^ 62" by (simp add: two_turns_def kDrainBatch_def)
  show ?thesis
    using ring_ingest_publishes_everything [OF r l, of "replicate 3 (Synth (synth_new synth_config0))"] r by blast
qed

end
