(* ===== verification/Delivery.thy ===== *)
theory Delivery
  imports Consumer Ingest
begin

text \<open>
  From the ingest thread to the consumer. An egress thread sends nothing but frames of its feed and its own
  control records (\<open>contained_feed\<close>), and a consumer that is connected to it accounts for everything
  (\<open>tracking_consumer\<close>). \<open>delivered\<close> puts the two together; the feeds are those that the two ingest
  components fill.
\<close>

section \<open>What an egress thread has sent\<close>

definition sent_from :: "(frame \<Rightarrow> bool) \<Rightarrow> egress \<Rightarrow> bool" where
  "sent_from good e \<longleftrightarrow> list_all (list_all (\<lambda>f. is_control f \<or> good f)) (e_done e)"

lemma flush_done: "flush_pending es s = (ok, s') \<Longrightarrow> e_done s' = e_done s \<and> e_outgoing s' = e_outgoing s"
proof (induction es arbitrary: s)
  case (Cons e es)
  show ?case
  proof (cases "e_pending_offset s < length (e_pending s)")
    case True
    show ?thesis
    proof (cases e)
      case (Blocked p)
      then show ?thesis using Cons True by (cases p) (auto dest: Cons.IH)
    qed (use Cons.prems True in \<open>auto simp: send_some_def Let_def dest: Cons.IH\<close>)
  qed (use Cons.prems in auto)
qed (auto split: if_splits)

lemma send_batch_sent:
  assumes "sent_from good s" "list_all good batch" "batch \<noteq> []"
  shows "sent_from good (send_batch env batch s)"
proof -
  let ?s1 = "note_gap (ev_gap_now env) batch s"
  let ?s2 = "maybe_send_echo (ev_echo_now env) ?s1"
  obtain ok s4 where fl: "flush_pending (ev_flush2 env) (encode_batch (e_outgoing ?s2) ?s2) = (ok, s4)" by fastforce
  have out: "e_outgoing s4 = gap_for (ev_gap_now env) batch s @ batch @ echo_for (ev_echo_now env) ?s1" "e_done s4 = e_done s"
    using flush_done [OF fl] by (simp_all add: encode_batch_def Let_def echo_outgoing note_gap_fields [OF assms(3)])
  have "is_control (make_gap a n r t)" "is_control (make_echo n t)" for a n r t
    by (simp_all add: is_control_def make_gap_def make_echo_def flag_defs)
  then have "list_all (\<lambda>f. is_control f \<or> good f) (e_outgoing s4)"
    using assms(2) by (auto simp: out(1) gap_for_def echo_for_def list_all_iff)
  then show ?thesis using assms(1) fl out(2)
    by (cases ok) (simp_all add: send_batch_def Let_def sent_from_def drop_client_def)
qed

lemma wait_for_client_sent: "sent_from good s \<Longrightarrow> wait_for_client es s = (r, s') \<Longrightarrow> sent_from good s'"
  by (induction es s rule: wait_for_client.induct)
    (auto simp: sent_from_def split: if_splits accept_event.splits)

context contained_feed
begin

lemma coalesce_loop_contained:
  "inside fd \<Longrightarrow> list_all good batch \<Longrightarrow> coalesce_loop pop limit deadline nows waited batch fd = Some (batch', w, fd') \<Longrightarrow>
   list_all good batch' \<and> inside fd' \<and> (batch \<noteq> [] \<longrightarrow> batch' \<noteq> [])"
proof (induction nows arbitrary: waited batch fd)
  case (Cons now nows)
  show ?case
  proof (cases "\<not> length batch < limit \<or> now \<ge> deadline")
    case True
    then show ?thesis using Cons.prems by auto
  next
    case False
    then obtain more fd1 where p: "pop (limit - length batch) fd = Some (more, fd1)"
      using Cons.prems(3) by (cases "pop (limit - length batch) fd") auto
    then have "list_all good more" "inside fd1" using pop_contained [OF Cons.prems(1)] by auto
    then show ?thesis using Cons.IH [of fd1 "batch @ more" True] Cons.prems False p by (auto split: if_splits)
  qed
qed simp

lemma coalesce_contained:
  assumes "inside fd" "list_all good batch" "coalesce pop start nows batch s fd = Some (batch', s', fd')"
  shows "list_all good batch' \<and> inside fd' \<and> (batch \<noteq> [] \<longrightarrow> batch' \<noteq> []) \<and> e_done s' = e_done s"
proof (cases "tn_linger_us (e_tuning s) = 0 \<or> length batch \<ge> tn_max_frames (e_tuning s)")
  case True
  then show ?thesis using assms by (auto simp: coalesce_def)
next
  case False
  then obtain w where "coalesce_loop pop (tn_max_frames (e_tuning s)) (start + ucast (tn_linger_us (e_tuning s)) * 1000) nows False batch fd =
      Some (batch', w, fd')" "s' = (if w then s\<lparr>e_lingered := e_lingered s + 1\<rparr> else s)"
    using assms(3) by (auto simp: coalesce_def)
  then show ?thesis using coalesce_loop_contained [OF assms(1,2)] by auto
qed

lemma serve_client_contained:
  assumes "inside fd" "sent_from good s" "serve_client pop is_closed env s fd = Some (stop, s', fd')"
  shows "inside fd' \<and> sent_from good s'"
proof -
  obtain batch s1 fd1 where t: "take_batch pop env s fd = Some (batch, s1, fd1)"
    using assms(3) by (cases "take_batch pop env s fd") (auto simp: serve_client_def)
  then obtain b fd0 where p: "pop (tn_max_frames (e_tuning s)) fd = Some (b, fd0)"
    by (cases "pop (tn_max_frames (e_tuning s)) fd") (auto simp: take_batch_def)
  have "list_all good batch \<and> inside fd1 \<and> e_done s1 = e_done s"
    using pop_contained [OF assms(1) p] t p coalesce_contained [of fd0 b] by (auto simp: take_batch_def split: if_splits)
  moreover from this have "sent_from good s1" using assms(2) by (simp add: sent_from_def)
  ultimately show ?thesis using assms(3) t send_batch_sent [of good s1 batch env]
    by (auto simp: serve_client_def split: if_splits)
qed

lemma run_turn_contained:
  assumes "inside fd" "sent_from good s" "run_turn pop is_closed env s fd = Some (stop, s', fd')"
  shows "inside fd' \<and> sent_from good s'"
proof -
  obtain r s1 where w: "wait_for_client (ev_wait env) s = (r, s1)" by fastforce
  have s1: "sent_from good s1" by (rule wait_for_client_sent [OF assms(2) w])
  obtain ok s2 where f: "(if e_pending s1 = [] then (True, s1) else flush_pending (ev_flush1 env) s1) = (ok, s2)" by fastforce
  then have "e_done s2 = e_done s1" using flush_done by (auto split: if_splits)
  then have s2: "sent_from good s2" using s1 by (simp add: sent_from_def)
  have "sent_from good (drop_client s2)" "sent_from good (drain_replies (ev_recv env) (ev_recv_now env) s2)"
    using s2 sans_probe_fields(9) [OF drain_replies_probe] by (simp_all add: sent_from_def drop_client_def)
  then show ?thesis
    using assms(1,3) w s1 f serve_client_contained [OF assms(1)]
    by (cases r) (auto simp: run_turn_def split: bool.splits if_splits)
qed

lemma egress_run_contained:
  "inside fd \<Longrightarrow> sent_from good s \<Longrightarrow> egress_run pop is_closed envs s fd = Some (s', fd') \<Longrightarrow>
    inside fd' \<and> sent_from good s'"
proof (induction envs arbitrary: s fd)
  case (Cons env envs)
  obtain stop s1 fd1 where t: "run_turn pop is_closed env s fd = Some (stop, s1, fd1)"
    using Cons.prems(3) by (cases "run_turn pop is_closed env s fd") auto
  then show ?case using run_turn_contained [OF Cons.prems(1,2) t] Cons.IH [of fd1 s1] Cons.prems(3) by (cases stop) auto
qed simp

end

section \<open>What a consumer makes of it\<close>

lemma well_ordered_data: "well_ordered pos (data_records fs) = well_ordered pos fs \<and> stream_end pos (data_records fs) = stream_end pos fs"
  by (induction fs arbitrary: pos) (simp_all add: data_records_def)

lemma stream_account_frames:
  "ac_frames (stream_account pos fs a) = ac_frames a + length (filter (\<lambda>f. \<not> is_echo f \<and> \<not> is_gap f) fs)"
  by (induction fs arbitrary: pos a) (simp_all add: tally_def)

text \<open>Some first batches of the connection have been read, without a protocol error, and the parser's buffer and the
  unread bytes hold all the others. The frames among those read satisfy \<open>good\<close> and have all been counted as frames;
  every sequence number from the first record to the position the consumer now expects has been counted
  once; and when there are no others, that position is the one the egress has reached.\<close>

definition delivered :: "(frame \<Rightarrow> bool) \<Rightarrow> egress \<Rightarrow> 'a consumer_scheme \<Rightarrow> bool" where
  "delivered good e s \<longleftrightarrow> (\<exists>n \<le> length (e_done e).
     let rs = data_records (concat (take n (e_done e))); g = co_gaps s; st = gt_s g in
     consumed (ln_stream (co_link s)) @ ln_in (co_link s) = concat (map batch_bytes (drop n (e_done e))) \<and>
     g = observe_all rs gap_tracker0 \<and> co_protocol_errs s = 0 \<and>
     list_all good (filter (\<lambda>f. \<not> is_gap f) rs) \<and>
     unat (gs_frames st) = length (filter (\<lambda>f. \<not> is_gap f) rs) \<and>
     (if rs = [] then st = gap_stats0
      else unat (seq (hd rs)) + unat (gs_frames st) + unat (gs_reported_lost st) + unat (gs_absent_frames st) +
        unat (gs_silent_lost st) = unat (gt_next g) \<and> (n = length (e_done e) \<longrightarrow> gt_next g = e_next_seq e)))"

lemma prefix_account:
  fixes n :: nat
  assumes ok: "connection_ok e" and sent: "sent_from good e"
  defines "rs \<equiv> data_records (concat (take n (e_done e)))"
  defines "g \<equiv> observe_all rs gap_tracker0"
  shows "list_all good (filter (\<lambda>f. \<not> is_gap f) rs) \<and> unat (gs_frames (gt_s g)) = length (filter (\<lambda>f. \<not> is_gap f) rs) \<and>
    (if rs = [] then gt_s g = gap_stats0
     else unat (seq (hd rs)) + unat (gs_frames (gt_s g)) + unat (gs_reported_lost (gt_s g)) + unat (gs_absent_frames (gt_s g)) +
       unat (gs_silent_lost (gt_s g)) = unat (gt_next g) \<and> (n = length (e_done e) \<longrightarrow> gt_next g = e_next_seq e))"
proof (cases "rs = []")
  case True
  then show ?thesis by (simp add: g_def gap_tracker0_def gap_stats0_def)
next
  case False
  let ?all = "concat (e_done e)" and ?p = "concat (take n (e_done e))"
  have good: "list_all good (filter (\<lambda>f. \<not> is_gap f) rs)"
    using sent in_set_takeD unfolding rs_def data_records_def sent_from_def list_all_iff
    by (fastforce simp: is_control_iff)
  have p: "?p \<noteq> []" using False unfolding rs_def data_records_def by (metis filter.simps(1))
  then have ne: "e_done e \<noteq> []" by auto
  have split: "?all = ?p @ concat (drop n (e_done e))" by (metis append_take_drop_id concat_append)
  have h: "hd ?all = hd ?p" using p split by (metis hd_append2)
  have w: "well_ordered (unat (seq (hd ?p))) ?p" "\<not> is_echo (hd ?p)"
    using ok ne split unfolding connection_ok_def h [symmetric] by (auto simp: well_ordered_append)
  obtain f fs where rs: "rs = f # fs" using False by (cases rs) auto
  have f: "f = hd ?p" "\<not> is_echo f"
    using rs p w(2) by (cases ?p; auto simp: rs_def data_records_def)+
  have wo: "well_ordered (unat (seq f)) (f # fs)" using w(1) well_ordered_data f(1) rs unfolding rs_def by metis
  note t = tracker_counts [OF f(2) wo, folded rs, folded g_def]
  have "\<forall>x \<in> set rs. \<not> is_echo x" by (simp add: rs_def data_records_def)
  then have "filter (\<lambda>f. \<not> is_echo f \<and> \<not> is_gap f) rs = filter (\<lambda>f. \<not> is_gap f) rs" by (intro filter_cong) auto
  then have "unat (gs_frames (gt_s g)) = length (filter (\<lambda>f. \<not> is_gap f) rs)"
    using t(1) stream_account_frames [of "unat (seq f)" rs account0] by (simp add: account0_def)
  moreover have "gt_next g = e_next_seq e" if "n = length (e_done e)"
  proof -
    have "stream_end (unat (seq (hd ?all))) ?all = unat (e_next_seq e)" using ok ne unfolding connection_ok_def by blast
    moreover have "?p = ?all" using that by simp
    ultimately have "stream_end (unat (seq f)) ?p = unat (e_next_seq e)" using f(1) by (simp only:)
    then have "stream_end (unat (seq f)) rs = unat (e_next_seq e)" by (simp add: rs_def well_ordered_data)
    then have "unat (gt_next g) = unat (e_next_seq e)" using t(6) by (rule trans [rotated])
    then show ?thesis by (rule unsigned_word_eqI)
  qed
  ultimately show ?thesis using good t rs by simp
qed

context tracking_consumer
begin

lemma session_delivered:
  assumes "connection_ok e" "sent_from good e" "ln_stream (co_link s) = stream_new" "ln_in (co_link s) = e_wire e"
    and "co_gaps s = gap_tracker0" "co_protocol_errs s = 0"
  shows "delivered good e (session turn envs s)"
proof -
  have "follows (ln_stream (co_link s)) (ln_in (co_link s)) (e_done e)"
    using assms(1,3,4) follows_new by (simp add: connection_ok_def)
  from session_tracks [OF this, of envs] obtain n where n: "n \<le> length (e_done e)"
      "consumed (ln_stream (co_link (session turn envs s))) @ ln_in (co_link (session turn envs s)) =
       concat (map batch_bytes (drop n (e_done e)))"
      "co_gaps (session turn envs s) = observe_all (data_records (concat (take n (e_done e)))) gap_tracker0"
      "co_protocol_errs (session turn envs s) = 0"
    using assms(5,6) by (auto simp: tracked_def follows_def)
  show ?thesis unfolding delivered_def Let_def n(3,4) using prefix_account [OF assms(1,2), of n] n(1,2) by blast
qed

end

section \<open>What the ingest threads feed\<close>

text \<open>A queue that gets the frames of the fan-out thread, cut into arrivals in any way, and a ring that gets the
  frames of the ring ingest threads.\<close>

lemma ascends_numbered:
  assumes "map seq fs = map of_nat [lo..<lo + length fs]" "lo + length fs \<le> 2 ^ 62"
  shows "ascends lo fs \<and> (\<forall>f \<in> set fs. unat (seq f) < 2 ^ 62)"
  using assms
proof (induction fs arbitrary: lo)
  case (Cons f fs)
  have "[lo..<lo + length (f # fs)] = lo # [Suc lo..<Suc lo + length fs]" by (simp add: upt_conv_Cons del: upt_Suc)
  then have f: "seq f = of_nat lo" "map seq fs = map of_nat [Suc lo..<Suc lo + length fs]" using Cons.prems(1) by simp_all
  moreover have "unat (seq f) = lo" using f(1) Cons.prems(2) by (simp add: unat_of_nat_small)
  ultimately show ?case using Cons.IH [of "Suc lo"] Cons.prems(2) by (simp add: ascends_Cons)
qed simp

text \<open>The frames of a fan-out thread, counted from 0.\<close>

definition counted :: "frame list \<Rightarrow> bool" where
  "counted frames \<longleftrightarrow> map seq frames = map of_nat [0..<length frames] \<and> list_all bus_frame frames"

definition fan_counted :: "fanout \<Rightarrow> bool" where
  "fan_counted s \<longleftrightarrow> counted (log_frames (fo_log s)) \<and> fo_next_seq s = of_nat (length (log_frames (fo_log s)))"

lemma fan_counted_new: "fan_counted (fanout_new sources sinks)"
  by (simp add: fan_counted_def counted_def fanout_new_def)

lemma fan_counted_run:
  assumes "fan_counted s"
  shows "fan_counted (fan_run ps s)"
proof -
  obtain new where n: "fo_log (fan_run ps s) = fo_log s @ new"
      "map seq (log_frames new) = map (\<lambda>k. fo_next_seq s + of_nat k) [0..<length (log_frames new)]"
      "fo_next_seq (fan_run ps s) = fo_next_seq s + of_nat (length (log_frames new))" "list_all bus_frame (log_frames new)"
    using fans_run [of s ps] by (auto simp: fans_def)
  let ?k = "length (log_frames (fo_log s))"
  have "map (of_nat :: nat \<Rightarrow> u64) [0..<?k + m] = map of_nat [0..<?k] @ map (\<lambda>k. of_nat ?k + of_nat k) [0..<m]" for m
    by (induction m) simp_all
  then show ?thesis using assms n by (simp add: fan_counted_def counted_def)
qed

lemma ring_turn_length:
  assumes "ring_turn i p s = Some s'"
  shows "length (log_frames (ri_log s')) \<le> length (log_frames (ri_log s)) + kDrainBatch"
proof -
  have "length (log_frames (ri_log s')) \<le> length (log_frames (ri_log s)) + kDrainBatch" if "ring_source i env s = Some s'" for env s'
  proof -
    obtain fs src where d: "drain env kDrainBatch (ri_sources s ! i) = (fs, src)" by fastforce
    then show ?thesis using any_source.drain_promise [OF d] that by (auto simp: ring_source_def Let_def split: if_splits)
  qed
  then show ?thesis using assms by (auto simp: ring_turn_def split: ingest_poll.splits list.splits option.splits if_splits)
qed

lemma ring_run_length:
  "ring_run ps s = Some s' \<Longrightarrow> length (log_frames (ri_log s')) \<le> length (log_frames (ri_log s)) + kDrainBatch * length ps"
proof (induction ps arbitrary: s)
  case (Cons x ps)
  obtain i p where x: "x = (i, p)" by fastforce
  show ?case
  proof (cases "i < length (ri_sources s) \<and> \<not> ri_stopped s ! i")
    case True
    then obtain s1 where s1: "ring_turn i p s = Some s1" "ring_run ps s1 = Some s'"
      using Cons.prems x by (cases "ring_turn i p s") auto
    show ?thesis using Cons.IH [OF s1(2)] ring_turn_length [OF s1(1)] by simp
  next
    case False
    then have "ring_run ps s = Some s'" using Cons.prems x by (auto split: if_splits)
    then show ?thesis using Cons.IH [of s] by simp
  qed
qed simp

lemma ring_log_bus:
  assumes "ring_new capacity = Some r" "kDrainBatch * length turns \<le> 2 ^ 62"
  shows "\<exists>s. ring_run turns (ring_ingest_new sources r) = Some s \<and> list_all bus_frame (log_frames (ri_log s)) \<and>
    length (log_frames (ri_log s)) \<le> 2 ^ 62"
proof -
  let ?s0 = "ring_ingest_new sources r"
  have "ring_holds (ri_ring ?s0) []" using ring_holds_new [OF assms(1)] by (simp add: ring_ingest_new_def)
  then obtain s where s: "ring_run turns ?s0 = Some s" "list_all bus_frame (log_frames (ri_log s))"
    using ring_run_publishes [of ?s0 "[]" turns] assms(2) by (auto simp: ring_ingest_new_def publishes_def)
  have "length (log_frames (ri_log s)) \<le> 2 ^ 62"
    using ring_run_length [OF s(1)] assms(2) by (simp add: ring_ingest_new_def)
  then show ?thesis using s by blast
qed

lemma fan_out_feeds:
  assumes "counted frames" "length frames \<le> 2 ^ 62" "concat arr = frames"
  shows "queue_span (length frames) 0 (arr, bq_new zero_frame capacity) \<and> queue_within (set frames) (arr, bq_new zero_frame capacity)"
proof -
  have n: "map seq frames = map of_nat [0..<length frames]" "list_all bus_frame frames"
    using assms(1) by (simp_all add: counted_def)
  then have "ascends 0 frames" "list_all numbered frames"
    using ascends_numbered [of frames 0] assms(2) by (auto simp: list_all_iff numbered_def)
  moreover have "Suc (unat (seq (last frames))) = length frames" if "frames \<noteq> []"
  proof -
    have "seq (last frames) = last (map of_nat [0..<length frames])" using that by (simp add: last_map flip: n(1))
    also have "\<dots> = of_nat (length frames - 1)" using that by (simp add: last_map)
    finally show ?thesis using that assms(2) by (simp add: unat_of_nat_small)
  qed
  moreover have "bq_open (bq_new zero_frame capacity)" by (simp add: bq_open_def bq_new_def)
  ultimately show ?thesis using assms(3)
    by (simp add: queue_span_def queue_from_def queue_within_def bq_inv_new bq_view_new Let_def)
qed

lemma ring_ingest_feeds:
  assumes "ring_new capacity = Some r" "list_all bus_frame L" "length L \<le> 2 ^ 62" "concat arr = L"
  shows "ring_feeds L 0 ((ring_feed_new r)\<lparr>rf_arrivals := arr\<rparr>)"
  using ring_feed_new_feeds [OF ring_holds_new [OF assms(1)], of arr] assms(2-4)
  by (auto simp: list_all_iff)

section \<open>One connection\<close>

text \<open>Where an egress thread has got to, on a feed that will hand out everything below \<open>hi\<close>.\<close>

lemma queue_egress:
  assumes "0 < tn_max_frames t" "tn_max_frames t \<le> kMaxBatch" "queue_span hi 0 q" "queue_within G q"
  shows "\<exists>e q'. egress_run queue_feed_pop closed_q envs (egress_new t) q = Some (e, q') \<and> head_inv e \<and>
     queue_span hi (unat (e_next_seq e)) q' \<and> queue_within G q' \<and> sent_from (\<lambda>f. f \<in> G) e"
proof -
  have z: "unat (e_next_seq (egress_new t)) = 0" "sent_from (\<lambda>f. f \<in> G) (egress_new t)" by (simp_all add: egress_new_def sent_from_def)
  show ?thesis using qs.egress_run_inv [OF head_inv_new [OF assms(1,2)], of hi q closed_q envs]
      qc.egress_run_contained [OF assms(4) z(2), of closed_q envs] assms(3) unfolding z(1) by blast
qed

lemma ring_egress:
  assumes "0 < tn_max_frames t" "tn_max_frames t \<le> kMaxBatch" "ring_feeds L 0 r"
  shows "\<exists>e r'. egress_run ring_feed_pop closed_r envs (egress_new t) r = Some (e, r') \<and> head_inv e \<and>
     ring_feeds L (unat (e_next_seq e)) r' \<and> sent_from (of_log L) e"
proof -
  have z: "unat (e_next_seq (egress_new t)) = 0" "sent_from (of_log L) (egress_new t)" by (simp_all add: egress_new_def sent_from_def)
  have "\<exists>lo. ring_feeds L lo r" using assms(3) by blast
  then show ?thesis using rs.egress_run_inv [OF head_inv_new [OF assms(1,2)], of L r closed_r envs]
      rc.egress_run_contained [of L r "egress_new t" closed_r envs] z assms(3) unfolding z(1) by blast
qed

end
