(* ===== verification/Gateway.thy ===== *)
theory Gateway
  imports Options Delivery
begin

text \<open>
  The gateway program (\<^verbatim>\<open>src/main.cpp\<close>) from its options to a running system: it opens the sources, makes the
  ring or the queues, opens a listening egress per consumer and the ingest component, and, when any of this fails,
  leaves \<open>main\<close>, whose local objects then close what they hold. The main thread's own loop is in theory
  \<open>Gateway_Loop\<close>. \<open>None\<close> is a ring constructor that does not return.
\<close>

section \<open>Opening several things\<close>

definition close_all :: "nat list \<Rightarrow> os \<Rightarrow> os" where
  "close_all fds w = fold sys_close fds w"

text \<open>Opens one thing per element; what is already open is closed when a later one fails.\<close>

fun open_all :: "('a \<Rightarrow> os \<Rightarrow> (string + 'r) \<times> os) \<Rightarrow> ('r \<Rightarrow> nat list) \<Rightarrow> 'a list \<Rightarrow> os \<Rightarrow> (string + 'r list) \<times> os" where
  "open_all f held [] w = (Inr [], w)"
| "open_all f held (x # xs) w =
     (case f x w of
        (Inl e, w) \<Rightarrow> (Inl e, w)
      | (Inr r, w) \<Rightarrow>
          (case open_all f held xs w of
             (Inl e, w) \<Rightarrow> (Inl e, close_all (held r) w)
           | (Inr rs, w) \<Rightarrow> (Inr (r # rs), w)))"

section \<open>Parts\<close>

definition synth_period :: "u32 \<Rightarrow> u32" where
  "synth_period rate =
     (let period = (if rate = 0 then 1000000 else 1000000000 div rate) in if period = 0 then 1 else period)"

definition open_source :: "(nat \<Rightarrow> string) \<Rightarrow> u32 \<Rightarrow> nat \<times> string \<Rightarrow> os \<Rightarrow> (string + source \<times> nat) \<times> os" where
  "open_source strerror rate = (\<lambda>(i, spec) w.
     if starts_with ''can:'' spec then
       (case can_open strerror (drop 4 spec) (of_nat i) True w of
          (Inl e, w) \<Rightarrow> (Inl e, w)
        | (Inr (c, fd), w) \<Rightarrow> (Inr (Can c, fd), w))
     else if spec = ''synth'' then
       (case synth_open strerror (synth_config0\<lparr>sc_src_id := of_nat i, sc_period_ns := synth_period rate\<rparr>) w of
          (Inl e, w) \<Rightarrow> (Inl e, w)
        | (Inr (s, fd, _, _), w) \<Rightarrow> (Inr (Synth s, fd), w))
     else (Inl (''unknown source: '' @ spec), w))"

record listening =
  li_name :: string
  li_port :: u16
  li_egress :: egress
  li_listen_fd :: nat
  li_stop_fd :: nat

definition egress_create :: "(nat \<Rightarrow> string) \<Rightarrow> u16 \<Rightarrow> tuning \<Rightarrow> consumer_spec \<Rightarrow> os \<Rightarrow> (string + listening) \<times> os" where
  "egress_create strerror bound t = (\<lambda>(name, port) w.
     if tn_max_frames t = 0 \<or> tn_max_frames t > kMaxBatch
     then (Inl (''batch size must be between 1 and '' @ to_dec kMaxBatch), w)
     else case listen_and_event strerror bound port w of
       (Inl e, w) \<Rightarrow> (Inl e, w)
     | (Inr (listen_fd, stop_fd, p), w) \<Rightarrow>
         (Inr \<lparr>li_name = name, li_port = p, li_egress = egress_new t, li_listen_fd = listen_fd, li_stop_fd = stop_fd\<rparr>, w))"

datatype feed = QueueFeed "frame bqueue" | RingFeed ring_feed

fun make_feed :: "u64 \<Rightarrow> ring option \<Rightarrow> feed" where
  "make_feed capacity (Some r) = RingFeed (ring_feed_new r)"
| "make_feed capacity None = QueueFeed (bq_new zero_frame (unat capacity))"

fun feed_queue :: "feed \<Rightarrow> frame bqueue option" where
  "feed_queue (QueueFeed q) = Some q"
| "feed_queue (RingFeed _) = None"

definition make_ingest :: "(nat \<Rightarrow> string) \<Rightarrow> source list \<Rightarrow> ring option \<Rightarrow> feed list \<Rightarrow> os \<Rightarrow>
    (string + (fanout + ring_ingest) \<times> nat) \<times> os" where
  "make_ingest strerror sources ring feeds w =
     (case ring of
        Some r \<Rightarrow>
          (case ring_ingest_create strerror (map Some sources) r w of
             (Inl e, w) \<Rightarrow> (Inl e, w)
           | (Inr (ri, fd), w) \<Rightarrow> (Inr (Inr ri, fd), w))
      | None \<Rightarrow>
          (case fanout_create strerror (map Some sources) (map feed_queue feeds) w of
             (Inl e, w) \<Rightarrow> (Inl e, w)
           | (Inr (fo, fd), w) \<Rightarrow> (Inr (Inl fo, fd), w)))"

section \<open>The whole\<close>

record gateway =
  gw_sources :: "(source \<times> nat) list"
  gw_ring :: "ring option"
  gw_feeds :: "feed list"
  gw_tap_feed :: "feed option"
  gw_egresses :: "listening list"
  gw_ingest :: "fanout + ring_ingest"
  gw_ingest_fd :: nat

definition source_fds :: "(source \<times> nat) list \<Rightarrow> nat list" where
  "source_fds ss = concat (rev (map (\<lambda>(s, fd). [fd]) ss))"

definition egress_fds :: "listening list \<Rightarrow> nat list" where
  "egress_fds ls = concat (rev (map (\<lambda>l. [li_stop_fd l, li_listen_fd l]) ls))"

definition gateway_fds :: "gateway \<Rightarrow> nat list" where
  "gateway_fds g = gw_ingest_fd g # egress_fds (gw_egresses g) @ source_fds (gw_sources g)"

text \<open>From the sources on: feeds, listening egresses, ingest.\<close>

definition gateway_serve :: "(nat \<Rightarrow> string) \<Rightarrow> u16 \<Rightarrow> gateway_options \<Rightarrow> ring option \<Rightarrow> (source \<times> nat) list \<Rightarrow> os \<Rightarrow> (string + gateway) \<times> os" where
  "gateway_serve strerror bound o1 ring sources w =
     (let feeds = map (\<lambda>_. make_feed (go_capacity o1) ring) (go_consumers o1);
          tap_feed = (if go_tap o1 then Some (make_feed (go_capacity o1) ring) else None) in
      case open_all (egress_create strerror bound (go_tuning o1)) (\<lambda>l. [li_stop_fd l, li_listen_fd l]) (go_consumers o1) w of
        (Inl e, w) \<Rightarrow> (Inl e, close_all (source_fds sources) w)
      | (Inr egresses, w) \<Rightarrow>
          (case make_ingest strerror (map fst sources) ring
                  (feeds @ (case tap_feed of None \<Rightarrow> [] | Some f \<Rightarrow> [f])) w of
             (Inl e, w) \<Rightarrow> (Inl e, close_all (egress_fds egresses @ source_fds sources) w)
           | (Inr (ingest, fd), w) \<Rightarrow>
               (Inr \<lparr>gw_sources = sources, gw_ring = ring, gw_feeds = feeds, gw_tap_feed = tap_feed,
                  gw_egresses = egresses, gw_ingest = ingest, gw_ingest_fd = fd\<rparr>, w)))"

definition gateway_start :: "(nat \<Rightarrow> string) \<Rightarrow> u16 \<Rightarrow> gateway_options \<Rightarrow> os \<Rightarrow> ((string + gateway) \<times> os) option" where
  "gateway_start strerror bound o1 w =
     (case (if go_mlock o1 then lock_memory strerror w else (None, w)) of
        (Some e, w) \<Rightarrow> Some (Inl e, w)
      | (None, w) \<Rightarrow>
          (case open_all (open_source strerror (go_rate o1)) (\<lambda>(s, fd). [fd]) (enumerate 0 (go_sources o1)) w of
             (Inl e, w) \<Rightarrow> Some (Inl e, w)
           | (Inr sources, w) \<Rightarrow>
               map_option (\<lambda>ring. gateway_serve strerror bound o1 ring sources w)
                 (if go_topology o1 = ''ring'' then map_option Some (ring_new (go_capacity o1)) else Some None)))"

text \<open>The end of \<open>main\<close>: every object closes its descriptors.\<close>

definition gateway_end :: "gateway \<Rightarrow> os \<Rightarrow> os" where
  "gateway_end g w = close_all (gateway_fds g) w"

section \<open>Nothing is left open\<close>

lemma opened_close_all: "opened w (new @ old) w' \<Longrightarrow> opened w old (close_all new w')"
  by (induction new arbitrary: w') (simp_all add: close_all_def opened_closed)

lemma opened_ok: "opened w new w' \<Longrightarrow> os_ok w'"
  by (simp add: opened_def)

lemma clean_cases:
  assumes "clean held w res" "res = (r, w')"
  obtains (fail) e where "r = Inl e" "opened w [] w'" | (okay) x where "r = Inr x" "opened w (held x) w'"
  using assms by (cases r) (auto simp: clean_def)

lemma open_all_clean:
  assumes f: "\<And>x w. os_ok w \<Longrightarrow> clean held w (f x w)"
  shows "os_ok w \<Longrightarrow> clean (\<lambda>rs. concat (rev (map held rs))) w (open_all f held xs w)"
proof (induction xs arbitrary: w)
  case Nil
  then show ?case by (auto intro!: clean_Inr opened_refl)
next
  case (Cons x xs)
  obtain r w1 where one: "f x w = (r, w1)" by fastforce
  from f [OF Cons.prems, of x] one show ?case
  proof (cases rule: clean_cases)
    case (fail e)
    then show ?thesis using one by (simp add: clean_Inl)
  next
    case (okay y)
    obtain rs w2 where two: "open_all f held xs w1 = (rs, w2)" by fastforce
    from Cons.IH [OF opened_ok [OF okay(2)]] two show ?thesis
    proof (cases rule: clean_cases)
      case (fail e)
      have "opened w ([] @ held y) w2" by (rule opened_trans [OF okay(2) fail(2)])
      then show ?thesis using opened_close_all [of w "held y" "[]" w2] one two okay(1) fail(1) by (simp add: clean_Inl)
    next
      case more: (okay ys)
      have "opened w (concat (rev (map held ys)) @ held y) w2" by (rule opened_trans [OF okay(2) more(2)])
      then show ?thesis using one two okay(1) more(1) by (simp add: clean_def)
    qed
  qed
qed

lemma clean_map:
  assumes "clean held w (r, w')" "\<And>x. held' (g x) = held x"
  shows "clean held' w (case r of Inl e \<Rightarrow> Inl e | Inr x \<Rightarrow> Inr (g x), w')"
  using assms by (cases r) (simp_all add: clean_def)

interpretation source_opener: opener "open_source strerror rate x" "\<lambda>(s, fd). [fd]"
proof (rule openerI)
  fix w assume ok: "os_ok w"
  obtain i spec where x: "x = (i, spec)" by fastforce
  have can: "clean (\<lambda>fd. [fd]) w (can_source_open strerror name True w)" for name by (rule openerD [OF can_opener.opener_axioms ok])
  have timer: "clean (\<lambda>fd. [fd]) w (open_timer strerror w)" by (rule openerD [OF timer.opener_axioms ok])
  have none: "clean (\<lambda>(s, fd). [fd]) w (Inl e, w)" for e using ok by (intro clean_Inl opened_refl) simp_all
  show "clean (\<lambda>(s, fd). [fd]) w (open_source strerror rate x w)"
    using can [of "drop 4 spec"] timer none unfolding x open_source_def can_open_def synth_open_def
    by (auto simp: clean_def split: prod.splits sum.splits)
qed

interpretation egress_opener: opener "egress_create strerror bound t c" "\<lambda>l. [li_stop_fd l, li_listen_fd l]"
proof (rule openerI)
  fix w assume ok: "os_ok w"
  obtain name port where c: "c = (name, port)" by fastforce
  have "clean (\<lambda>(l, s, p). [s, l]) w (listen_and_event strerror bound port w)" by (rule openerD [OF served.opener_axioms ok])
  moreover have "clean (\<lambda>l. [li_stop_fd l, li_listen_fd l]) w (Inl e, w)" for e using ok by (intro clean_Inl opened_refl) simp_all
  ultimately show "clean (\<lambda>l. [li_stop_fd l, li_listen_fd l]) w (egress_create strerror bound t c w)"
    unfolding c egress_create_def by (auto simp: clean_def split: prod.splits sum.splits)
qed

interpretation ingest_opener: opener "make_ingest strerror sources ring feeds" "\<lambda>(i, fd). [fd]"
proof (rule openerI)
  fix w assume ok: "os_ok w"
  obtain r w' where e: "open_event strerror w = (r, w')" by fastforce
  have c: "clean (\<lambda>fd. [fd]) w (r, w')" using openerD [OF event.opener_axioms ok] e by metis
  have none: "clean (\<lambda>(i, fd). [fd]) w (Inl e, w)" for e using ok by (intro clean_Inl opened_refl) simp_all
  show "clean (\<lambda>(i, fd). [fd]) w (make_ingest strerror sources ring feeds w)"
  proof (cases ring)
    case None
    then show ?thesis using none c e by (cases r) (simp_all add: make_ingest_def fanout_create_def clean_def)
  next
    case (Some a)
    then show ?thesis using none c e by (cases r) (simp_all add: make_ingest_def ring_ingest_create_def clean_def)
  qed
qed

lemma lock_memory_frame: "lock_memory strerror w = (r, w') \<Longrightarrow> os_fds w' = os_fds w \<and> os_next w' = os_next w"
  by (auto simp: lock_memory_def split: prod.splits bool.splits dest!: sys_call_frame)

text \<open>What the pieces of a successful start are.\<close>

lemma open_all_results:
  "open_all f held xs w = (Inr rs, w') \<Longrightarrow> (\<And>x w r w'. f x w = (Inr r, w') \<Longrightarrow> P x r) \<Longrightarrow> list_all2 P xs rs"
proof (induction xs arbitrary: w rs)
  case (Cons x xs)
  obtain r w1 where one: "f x w = (r, w1)" by fastforce
  obtain rs1 w2 where two: "open_all f held xs w1 = (rs1, w2)" by fastforce
  show ?case using Cons one two by (cases r; cases rs1) auto
qed simp

lemma open_source_result:
  assumes "open_source strerror rate (i, spec) w = (Inr (s, fd), w')"
  shows "source_id s = of_nat i \<and> source_stats_of s = source_stats0"
  using assms
  by (auto simp: open_source_def can_open_def can_new_def synth_open_def synth_new_def split: if_splits prod.splits sum.splits)

lemma egress_create_result:
  assumes "egress_create strerror bound t (name, port) w = (Inr l, w')"
  shows "li_name l = name \<and> li_egress l = egress_new t \<and> 0 < tn_max_frames t \<and> tn_max_frames t \<le> kMaxBatch"
  using assms by (auto simp: egress_create_def split: if_splits prod.splits sum.splits)

text \<open>The parts fit the options and each other.\<close>

definition gateway_wired :: "gateway_options \<Rightarrow> gateway \<Rightarrow> bool" where
  "gateway_wired o1 g \<longleftrightarrow>
     list_all2 (\<lambda>i s. source_id (fst s) = of_nat i \<and> source_stats_of (fst s) = source_stats0) [0..<length (go_sources o1)] (gw_sources g) \<and>
     list_all2 (\<lambda>c l. li_name l = fst c \<and> li_egress l = egress_new (go_tuning o1) \<and>
        0 < tn_max_frames (go_tuning o1) \<and> tn_max_frames (go_tuning o1) \<le> kMaxBatch) (go_consumers o1) (gw_egresses g) \<and>
     length (gw_feeds g) = length (go_consumers o1) \<and> (gw_tap_feed g \<noteq> None \<longleftrightarrow> go_tap o1) \<and>
     (if go_topology o1 = ''ring''
      then \<exists>r. ring_new (go_capacity o1) = Some r \<and> gw_ring g = Some r \<and>
        list_all (\<lambda>f. f = RingFeed (ring_feed_new r)) (gw_feeds g) \<and>
        gw_ingest g = Inr (ring_ingest_new (map fst (gw_sources g)) r)
      else gw_ring g = None \<and>
        list_all (\<lambda>f. f = QueueFeed (bq_new zero_frame (unat (go_capacity o1)))) (gw_feeds g) \<and>
        gw_ingest g = Inl (fanout_new (map fst (gw_sources g))
          (replicate (length (go_consumers o1) + (if go_tap o1 then 1 else 0)) (bq_new zero_frame (unat (go_capacity o1))))))"

lemma gateway_start_sources:
  assumes "open_all (open_source strerror rate) held (enumerate 0 specs) w = (Inr ss, w')"
  shows "list_all2 (\<lambda>i s. source_id (fst s) = of_nat i \<and> source_stats_of (fst s) = source_stats0) [0..<length specs] ss"
proof -
  let ?Q = "\<lambda>i s. source_id (fst s) = (of_nat i :: u8) \<and> source_stats_of (fst s) = source_stats0"
  have "list_all2 (\<lambda>x s. ?Q (fst x) s) (enumerate 0 specs) ss"
    using open_source_result by (intro open_all_results [OF assms]) (metis surj_pair fst_conv)
  then have "list_all2 ?Q (map fst (enumerate 0 specs)) ss" by (simp only: list_all2_map1)
  then show ?thesis by (simp only: map_fst_enumerate add_0)
qed

lemma gateway_start_egresses:
  assumes "open_all (egress_create strerror bound t) held cs w = (Inr ls, w')"
  shows "list_all2 (\<lambda>c l. li_name l = fst c \<and> li_egress l = egress_new t \<and> 0 < tn_max_frames t \<and> tn_max_frames t \<le> kMaxBatch) cs ls"
  using egress_create_result by (intro open_all_results [OF assms]) (metis surj_pair fst_conv)

lemma make_ingest_result:
  assumes "make_ingest strerror sources ring feeds w = (Inr (ingest, fd), w')"
  shows "ingest = (case ring of Some r \<Rightarrow> Inr (ring_ingest_new sources r) | None \<Rightarrow> Inl (fanout_new sources (map (the \<circ> feed_queue) feeds)))"
  using assms by (auto simp: make_ingest_def ring_ingest_create_def fanout_create_def comp_def
      split: option.splits if_splits prod.splits sum.splits)

lemma gateway_wired_parts:
  assumes "list_all2 (\<lambda>i s. source_id (fst s) = of_nat i \<and> source_stats_of (fst s) = source_stats0) [0..<length (go_sources o1)] ss"
    and "list_all2 (\<lambda>c l. li_name l = fst c \<and> li_egress l = egress_new (go_tuning o1) \<and>
        0 < tn_max_frames (go_tuning o1) \<and> tn_max_frames (go_tuning o1) \<le> kMaxBatch) (go_consumers o1) ls"
    and ring: "(if go_topology o1 = ''ring'' then map_option Some (ring_new (go_capacity o1)) else Some None) = Some ring"
  defines "feeds \<equiv> map (\<lambda>_. make_feed (go_capacity o1) ring) (go_consumers o1)"
    and "tap \<equiv> if go_tap o1 then Some (make_feed (go_capacity o1) ring) else None"
  assumes "ingest = (case ring of Some r \<Rightarrow> Inr (ring_ingest_new (map fst ss) r)
     | None \<Rightarrow> Inl (fanout_new (map fst ss) (map (the \<circ> feed_queue) (feeds @ (case tap of None \<Rightarrow> [] | Some f \<Rightarrow> [f])))))"
  shows "gateway_wired o1 \<lparr>gw_sources = ss, gw_ring = ring, gw_feeds = feeds, gw_tap_feed = tap, gw_egresses = ls,
      gw_ingest = ingest, gw_ingest_fd = fd\<rparr>"
proof (cases ring)
  case None
  then have "go_topology o1 \<noteq> ''ring''" using ring by auto
  then show ?thesis using assms None
    by (simp add: gateway_wired_def list_all_iff map_replicate_const replicate_append_same)
next
  case (Some r)
  then have "go_topology o1 = ''ring''" "ring_new (go_capacity o1) = Some r" using ring by (auto split: if_splits)
  then show ?thesis using assms Some by (simp add: gateway_wired_def list_all_iff)
qed

lemma gateway_serve_clean:
  assumes o2: "opened w (source_fds ss) w2"
    and src: "list_all2 (\<lambda>i s. source_id (fst s) = of_nat i \<and> source_stats_of (fst s) = source_stats0) [0..<length (go_sources o1)] ss"
    and ring: "(if go_topology o1 = ''ring'' then map_option Some (ring_new (go_capacity o1)) else Some None) = Some ring"
    and run: "gateway_serve strerror bound o1 ring ss w2 = res"
  shows "clean gateway_fds w res \<and> (\<forall>g. fst res = Inr g \<longrightarrow> gateway_wired o1 g)"
proof -
  let ?feeds = "map (\<lambda>_. make_feed (go_capacity o1) ring) (go_consumers o1)"
  let ?tap = "if go_tap o1 then Some (make_feed (go_capacity o1) ring) else None"
  let ?all = "?feeds @ (case ?tap of None \<Rightarrow> [] | Some f \<Rightarrow> [f])"
  obtain r3 w3 where eg: "open_all (egress_create strerror bound (go_tuning o1)) (\<lambda>l. [li_stop_fd l, li_listen_fd l]) (go_consumers o1) w2 = (r3, w3)"
    by fastforce
  have "clean (\<lambda>rs. concat (rev (map (\<lambda>l. [li_stop_fd l, li_listen_fd l]) rs))) w2
      (open_all (egress_create strerror bound (go_tuning o1)) (\<lambda>l. [li_stop_fd l, li_listen_fd l]) (go_consumers o1) w2)"
    by (intro open_all_clean openerD [OF egress_opener.opener_axioms] opened_ok [OF o2])
  from this eg show ?thesis
  proof (cases rule: clean_cases)
    case (fail e)
    have "opened w [] (close_all (source_fds ss) w3)"
      using opened_close_all [of w "source_fds ss" "[]" w3] opened_trans [OF o2 fail(2)] by simp
    then show ?thesis using run eg fail(1) by (auto simp: gateway_serve_def Let_def clean_Inl)
  next
    case (okay ls)
    have o3: "opened w (egress_fds ls @ source_fds ss) w3" using opened_trans [OF o2 okay(2)] by (simp add: egress_fds_def)
    obtain r4 w4 where ing: "make_ingest strerror (map fst ss) ring ?all w3 = (r4, w4)" by fastforce
    have "clean (\<lambda>(i, fd). [fd]) w3 (make_ingest strerror (map fst ss) ring ?all w3)"
      by (intro openerD [OF ingest_opener.opener_axioms] opened_ok [OF o3])
    from this ing show ?thesis
    proof (cases rule: clean_cases)
      case (fail e)
      have "opened w [] (close_all (egress_fds ls @ source_fds ss) w4)"
        using opened_close_all [of w "egress_fds ls @ source_fds ss" "[]" w4] opened_trans [OF o3 fail(2)] by simp
      then show ?thesis using run eg okay(1) ing fail(1) by (auto simp: gateway_serve_def Let_def clean_Inl)
    next
      case started: (okay x)
      obtain ingest fd where x: "x = (ingest, fd)" by fastforce
      define g where "g = \<lparr>gw_sources = ss, gw_ring = ring, gw_feeds = ?feeds, gw_tap_feed = ?tap, gw_egresses = ls,
          gw_ingest = ingest, gw_ingest_fd = fd\<rparr>"
      have res: "res = (Inr g, w4)" using run eg okay(1) ing started(1) x by (simp add: gateway_serve_def Let_def g_def)
      have "opened w (gateway_fds g) w4" using opened_trans [OF o3 started(2)] x by (simp add: gateway_fds_def g_def)
      moreover have "gateway_wired o1 g"
        unfolding g_def using src gateway_start_egresses [OF eg [unfolded okay(1)]] ring
        by (rule gateway_wired_parts) (rule make_ingest_result [OF ing [unfolded started(1) x]])
      ultimately show ?thesis using res by (simp add: clean_def)
    qed
  qed
qed

lemma gateway_start_clean:
  assumes ok: "os_ok w" and run: "gateway_start strerror bound o1 w = Some res"
  shows "clean gateway_fds w res \<and> (\<forall>g. fst res = Inr g \<longrightarrow> gateway_wired o1 g)"
proof -
  obtain l w1 where lock: "(if go_mlock o1 then lock_memory strerror w else (None, w)) = (l, w1)" by fastforce
  then have o1: "opened w [] w1" using ok lock_memory_frame by (auto intro!: opened_refl split: if_splits)
  show ?thesis
  proof (cases l)
    case (Some e)
    then show ?thesis using run lock o1 by (auto simp: gateway_start_def clean_Inl)
  next
    case None
    obtain r2 w2 where src: "open_all (open_source strerror (go_rate o1)) (\<lambda>(s, fd). [fd]) (enumerate 0 (go_sources o1)) w1 = (r2, w2)"
      by fastforce
    have "clean (\<lambda>rs. concat (rev (map (\<lambda>(s, fd). [fd]) rs))) w1
        (open_all (open_source strerror (go_rate o1)) (\<lambda>(s, fd). [fd]) (enumerate 0 (go_sources o1)) w1)"
      by (intro open_all_clean openerD [OF source_opener.opener_axioms] opened_ok [OF o1])
    from this src show ?thesis
    proof (cases rule: clean_cases)
      case (fail e)
      then show ?thesis using run lock None src opened_trans [OF o1 fail(2)] by (auto simp: gateway_start_def clean_Inl)
    next
      case (okay ss)
      have o2: "opened w (source_fds ss) w2" using opened_trans [OF o1 okay(2)] by (simp add: source_fds_def)
      obtain ring where "(if go_topology o1 = ''ring'' then map_option Some (ring_new (go_capacity o1)) else Some None) = Some ring"
          "gateway_serve strerror bound o1 ring ss w2 = res"
        using run lock None src okay(1) unfolding gateway_start_def by auto
      then show ?thesis by (rule gateway_serve_clean [OF o2 gateway_start_sources [OF src [unfolded okay(1)]]])
    qed
  qed
qed

lemma ring_new_returns: "capacity \<le> 2 ^ 63 \<Longrightarrow> \<exists>r. ring_new capacity = Some r"
proof -
  assume "capacity \<le> 2 ^ 63"
  then have "(if capacity < 2 then 2 else capacity) \<le> (2 ^ 63 :: u64)" by simp
  from round_up_from_pow2 [OF this, of 0] show ?thesis by (auto simp: ring_new_def round_up_pow2_def)
qed

text \<open>(C30) The gateway starts completely or not at all. Whatever the system calls return: as long as the capacity is at
  most \<open>2^63\<close> the start returns; when it fails, at any of its steps, every descriptor that it had opened is
  closed; when it succeeds, exactly the descriptors of its parts are open, and the end of the program closes
  them all; the sources are numbered in the order of the command line, every consumer has an egress with a
  legal batch size, and the ingest component feeds the one ring, or a queue per consumer and one for the
  tap.\<close>

theorem gateway_starts_or_cleans_up:
  assumes "os_ok w" "go_capacity o1 \<le> 2 ^ 63"
  shows "\<exists>res. gateway_start strerror bound o1 w = Some res \<and>
    (case res of
       (Inl e, w') \<Rightarrow> os_fds w' = os_fds w
     | (Inr g, w') \<Rightarrow> os_fds w' = gateway_fds g @ os_fds w \<and> os_fds (gateway_end g w') = os_fds w \<and> gateway_wired o1 g)"
proof -
  obtain r where "ring_new (go_capacity o1) = Some r" using ring_new_returns [OF assms(2)] by blast
  then have "gateway_start strerror bound o1 w \<noteq> None"
    by (simp add: gateway_start_def split: prod.splits option.splits sum.splits)
  then obtain res where res: "gateway_start strerror bound o1 w = Some res" by blast
  have c: "clean gateway_fds w res" "\<forall>g. fst res = Inr g \<longrightarrow> gateway_wired o1 g" using gateway_start_clean [OF assms(1) res] by auto
  obtain r w' where rw: "res = (r, w')" by fastforce
  show ?thesis
  proof (cases r)
    case (Inl e)
    then show ?thesis using res rw c(1) by (simp add: clean_def opened_def)
  next
    case (Inr g)
    then have o: "opened w (gateway_fds g @ []) w'" using rw c(1) by (simp add: clean_def)
    then have "opened w [] (gateway_end g w')" unfolding gateway_end_def by (rule opened_close_all)
    then show ?thesis using res rw Inr o c(2) by (simp add: opened_def)
  qed
qed

text \<open>A synthetic and a CAN source; a system call of the second consumer fails.\<close>

definition some_options :: gateway_options where
  "some_options = gateway_defaults\<lparr>go_sources := [''synth'', ''can:vcan0''], go_consumers := [(''a'', 9001), (''b'', 9002)],
     go_topology := ''queue''\<rparr>"

definition some_os :: os where
  "some_os = \<lparr>os_script = replicate 17 0 @ [98], os_errno = 0, os_fds = [2, 1, 0], os_next = 3\<rparr>"

theorem gateway_starts_or_cleans_up_witness:
  "\<exists>res. gateway_start (\<lambda>_. ''in use'') 0 some_options some_os = Some res \<and>
    (case res of
       (Inl e, w') \<Rightarrow> os_fds w' = os_fds some_os
     | (Inr g, w') \<Rightarrow> os_fds w' = gateway_fds g @ os_fds some_os \<and> os_fds (gateway_end g w') = os_fds some_os \<and>
         gateway_wired some_options g)"
  by (rule gateway_starts_or_cleans_up) (simp_all add: os_ok_def some_os_def some_options_def gateway_defaults_def)

end
