(* ===== verification/Http.thy ===== *)
theory Http
  imports Descriptors
begin

text \<open>
  The small HTTP server of the live view (\<^verbatim>\<open>src/http.cpp\<close>). Text is a list of characters; what the socket
  does is a script of events for the reads and one for the writes, and running out of events stands for a
  client that stays silent until the timeout. The handler is a parameter. \<open>Server::create\<close> is
  \<open>listen_and_event\<close> of \<open>Descriptors\<close>.
\<close>

section \<open>Server\<close>

definition kMaxRequest :: nat where "kMaxRequest = 8192"

definition cr :: char where "cr = CHR 0x0D"
definition lf :: char where "lf = CHR 0x0A"
definition crlf :: string where "crlf = [cr, lf]"

definition reason :: "nat \<Rightarrow> string" where
  "reason st =
     (if st = 200 then ''OK'' else if st = 400 then ''Bad Request'' else if st = 404 then ''Not Found''
      else if st = 413 then ''Payload Too Large'' else ''Error'')"

record response =
  rs_status :: nat
  rs_content_type :: string
  rs_body :: string

definition response0 :: response where
  "response0 = \<lparr>rs_status = 200, rs_content_type = ''text/plain'', rs_body = []\<rparr>"

text \<open>\<open>None\<close> when the function returns \<^verbatim>\<open>false\<close>.\<close>

definition request_path :: "string \<Rightarrow> string option" where
  "request_path request =
     (case find_char (CHR '' '') 0 request of
        None \<Rightarrow> None
      | Some sp1 \<Rightarrow>
          (case find_char (CHR '' '') (sp1 + 1) request of
             None \<Rightarrow> None
           | Some sp2 \<Rightarrow>
               let path = substr (sp1 + 1) (sp2 - sp1 - 1) request;
                   path = (case find_char (CHR ''?'') 0 path of None \<Rightarrow> path | Some q \<Rightarrow> take q path)
               in if path = [] then None else Some path))"

text \<open>A read returns some bytes (at most 2048), the end of the stream, is interrupted, fails, or would block;
  in the last case the wait that follows ends with data (\<open>True\<close>) or not.\<close>

datatype http_read = HttpData string | HttpEnd | HttpIntr | HttpFail | HttpBlock bool

datatype read_end = GotRequest string | TooLarge | Gone

fun read_request :: "http_read list \<Rightarrow> string \<Rightarrow> read_end" where
  "read_request [] request =
     (if find_text (crlf @ crlf) request \<noteq> None then GotRequest request
      else if length request > kMaxRequest then TooLarge else Gone)"
| "read_request (e # es) request =
     (if find_text (crlf @ crlf) request \<noteq> None then GotRequest request
      else if length request > kMaxRequest then TooLarge
      else case e of
        HttpData d \<Rightarrow> if d = [] then Gone else read_request es (request @ take 2048 d)
      | HttpEnd \<Rightarrow> Gone
      | HttpIntr \<Rightarrow> read_request es request
      | HttpFail \<Rightarrow> Gone
      | HttpBlock ready \<Rightarrow> if ready then read_request es request else Gone)"

definition format_response :: "response \<Rightarrow> string" where
  "format_response res =
     ''HTTP/1.1 '' @ to_dec (rs_status res) @ '' '' @ reason (rs_status res) @
     crlf @ ''Content-Type: '' @ rs_content_type res @
     crlf @ ''Content-Length: '' @ to_dec (length (rs_body res)) @
     crlf @ ''Cache-Control: no-store'' @
     crlf @ ''Connection: close'' @ crlf @ crlf @ rs_body res"

definition too_large_reply :: string where
  "too_large_reply =
     (let body = ''request too large''
      in ''HTTP/1.1 413 Payload Too Large'' @ crlf @ ''Content-Length: '' @ to_dec (length body) @
         crlf @ ''Connection: close'' @ crlf @ crlf @ body)"

text \<open>A write takes \<open>Suc n\<close> bytes if there are as many, is interrupted, fails, or would block; then the wait ends
  writable (\<open>True\<close>) or not. The result is what the client has been sent.\<close>

datatype http_write = HttpSent nat | HttpSendIntr | HttpSendFail | HttpSendBlock bool

fun http_send :: "http_write list \<Rightarrow> string \<Rightarrow> string" where
  "http_send [] out = []"
| "http_send (e # es) out =
     (if out = [] then []
      else case e of
        HttpSent n \<Rightarrow> take (Suc n) out @ http_send es (drop (Suc n) out)
      | HttpSendIntr \<Rightarrow> http_send es out
      | HttpSendFail \<Rightarrow> []
      | HttpSendBlock writable \<Rightarrow> if writable then http_send es out else [])"

text \<open>The answer to a complete request.\<close>

definition answer :: "(string \<Rightarrow> response) \<Rightarrow> string \<Rightarrow> response" where
  "answer handler request =
     (case request_path request of
        None \<Rightarrow> response0\<lparr>rs_status := 400, rs_body := ''malformed request''\<rparr>
      | Some path \<Rightarrow> handler path)"

text \<open>\<open>serve_one\<close>: what the client is sent, and \<open>requests_\<close>. The reply to an oversized request is one \<^verbatim>\<open>send\<close>
  whose result is not looked at.\<close>

definition serve_one :: "(string \<Rightarrow> response) \<Rightarrow> http_read list \<Rightarrow> http_write list \<Rightarrow> u64 \<Rightarrow> string \<times> u64" where
  "serve_one handler reads writes requests =
     (case read_request reads [] of
        Gone \<Rightarrow> ([], requests)
      | TooLarge \<Rightarrow> ((case writes of HttpSent n # _ \<Rightarrow> take (Suc n) too_large_reply | _ \<Rightarrow> []), requests)
      | GotRequest request \<Rightarrow> (http_send writes (format_response (answer handler request)), requests + 1))"

text \<open>One turn of \<open>run\<close>: interrupted, another error, the stop event, a connection (with what the handler will see
  of the view's state and the scripts of the socket), or nothing (a timeout, or an \<^verbatim>\<open>accept\<close> that failed).\<close>

datatype 'v server_poll = SrvIntr | SrvFail | SrvStop | SrvNone | SrvConn 'v "http_read list" "http_write list"

fun server_run :: "('v \<Rightarrow> string \<Rightarrow> response) \<Rightarrow> 'v server_poll list \<Rightarrow> u64 \<Rightarrow> string list \<times> u64" where
  "server_run handler [] requests = ([], requests)"
| "server_run handler (p # ps) requests =
     (case p of
        SrvIntr \<Rightarrow> server_run handler ps requests
      | SrvFail \<Rightarrow> ([], requests)
      | SrvStop \<Rightarrow> ([], requests)
      | SrvNone \<Rightarrow> server_run handler ps requests
      | SrvConn v reads writes \<Rightarrow>
          (case serve_one (handler v) reads writes requests of
             (out, requests') \<Rightarrow>
               (case server_run handler ps requests' of (outs, n) \<Rightarrow> (out # outs, n))))"

section \<open>A client\<close>

text \<open>Lines end with CR LF; the head ends with an empty line.\<close>

definition next_line :: "string \<Rightarrow> string \<times> string" where
  "next_line s = (takeWhile (\<lambda>c. c \<noteq> cr) s, drop 2 (dropWhile (\<lambda>c. c \<noteq> cr) s))"

function read_head :: "string \<Rightarrow> string list \<times> string" where
  "read_head s =
     (if takeWhile (\<lambda>c. c \<noteq> cr) s = [] then ([], drop 2 (dropWhile (\<lambda>c. c \<noteq> cr) s))
      else case read_head (drop 2 (dropWhile (\<lambda>c. c \<noteq> cr) s)) of
             (ls, body) \<Rightarrow> (takeWhile (\<lambda>c. c \<noteq> cr) s # ls, body))"
  by pat_completeness auto
termination
proof (relation "measure length")
  fix s :: string
  assume "takeWhile (\<lambda>c. c \<noteq> cr) s \<noteq> []"
  then have "0 < length (takeWhile (\<lambda>c. c \<noteq> cr) s)" by simp
  moreover have "length s = length (takeWhile (\<lambda>c. c \<noteq> cr) s) + length (dropWhile (\<lambda>c. c \<noteq> cr) s)"
    by (metis length_append takeWhile_dropWhile_id)
  ultimately show "(drop 2 (dropWhile (\<lambda>c. c \<noteq> cr) s), s) \<in> measure length"
    by (simp only: in_measure length_drop)
qed simp

declare read_head.simps [simp del]

definition header_value :: "string \<Rightarrow> string list \<Rightarrow> string option" where
  "header_value name lines = map_option (drop (length name)) (find (starts_with name) lines)"

text \<open>What a client that trusts \<open>Content-Length\<close> reads: status, content type, body.\<close>

definition client_read :: "string \<Rightarrow> (u64 \<times> string \<times> string) option" where
  "client_read s =
     (case read_head s of
        (status # headers, body) \<Rightarrow>
          (case (header_value ''Content-Type: '' headers, header_value ''Content-Length: '' headers) of
             (Some t, Some n) \<Rightarrow> Some (strtoul 10 (drop 9 status), t, take (unat (strtoul 10 n)) body)
           | _ \<Rightarrow> None)
      | ([], _) \<Rightarrow> None)"

lemma read_head_line:
  assumes "cr \<notin> set l" "l \<noteq> []"
  shows "read_head (l @ crlf @ s) = (case read_head s of (ls, body) \<Rightarrow> (l # ls, body))"
proof -
  have "takeWhile (\<lambda>c. c \<noteq> cr) (l @ crlf @ s) = l" "dropWhile (\<lambda>c. c \<noteq> cr) (l @ crlf @ s) = crlf @ s"
    using assms(1) by (induction l) (auto simp: crlf_def)
  then show ?thesis using assms(2) by (subst read_head.simps) (simp add: crlf_def)
qed

lemma read_head_end: "read_head (crlf @ s) = ([], s)"
  by (subst read_head.simps) (simp add: crlf_def)

lemma cr_not_digit: "cr \<notin> set (to_dec n)"
proof
  assume "cr \<in> set (to_dec n)"
  then obtain d where d: "d < 10" "cr = digit d" using to_dec_digits by blast
  then have "(of_char cr :: nat) = 48 + d" using digit_code by metis
  then show False by (simp add: cr_def)
qed

lemma cr_not_reason: "cr \<notin> set (reason st)"
  by (simp add: reason_def cr_def)

text \<open>A browser gets back what the handler returned. For any status, any body and any content type without
  a line break, a client that reads the response line by line and trusts \<open>Content-Length\<close> recovers the status,
  the type and exactly the body, however it continues.\<close>

theorem response_round_trip:
  assumes "cr \<notin> set (rs_content_type res)" "rs_status res < 1000" "length (rs_body res) < 2 ^ 64"
  shows "client_read (format_response res @ rest) = Some (of_nat (rs_status res), rs_content_type res, rs_body res)"
proof -
  let ?st = "''HTTP/1.1 '' @ to_dec (rs_status res) @ '' '' @ reason (rs_status res)"
    and ?ty = "''Content-Type: '' @ rs_content_type res" and ?ln = "''Content-Length: '' @ to_dec (length (rs_body res))"
  have "cr \<notin> set ?st" "cr \<notin> set ?ty" "cr \<notin> set ?ln" "cr \<notin> set ''Cache-Control: no-store''" "cr \<notin> set ''Connection: close''"
    using assms(1) cr_not_digit cr_not_reason by (simp_all add: cr_def)
  note no = this
  have f: "format_response res @ rest = ?st @ crlf @ ?ty @ crlf @ ?ln @ crlf @ ''Cache-Control: no-store'' @ crlf @
      ''Connection: close'' @ crlf @ crlf @ (rs_body res @ rest)"
    by (simp add: format_response_def)
  have "?st \<noteq> []" "?ty \<noteq> []" "?ln \<noteq> []" "''Cache-Control: no-store'' \<noteq> []" "''Connection: close'' \<noteq> []" by simp_all
  then have h: "read_head (format_response res @ rest) =
      ([?st, ?ty, ?ln, ''Cache-Control: no-store'', ''Connection: close''], rs_body res @ rest)"
    unfolding f by (simp only: read_head_line no read_head_end not_False_eq_True prod.case)
  have c: "header_value ''Content-Type: '' [?ty, ?ln, ''Cache-Control: no-store'', ''Connection: close''] = Some (rs_content_type res)"
    by (simp add: header_value_def starts_with_def)
  have l: "header_value ''Content-Length: '' [?ty, ?ln, ''Cache-Control: no-store'', ''Connection: close''] = Some (to_dec (length (rs_body res)))"
    by (simp add: header_value_def starts_with_def)
  have n: "number 10 (to_dec (rs_status res) @ '' '' @ reason (rs_status res)) = (False, rs_status res)"
    by (rule number_to_dec) (simp add: digit_value_def)
  have "strtoul 10 (drop 9 ?st) = of_nat (rs_status res)" using n assms(2) by (simp add: strtoul_def)
  moreover have "unat (strtoul 10 (to_dec (length (rs_body res)))) = length (rs_body res)"
    using assms(3) by (simp add: strtoul_to_dec unat_of_nat_small)
  ultimately show ?thesis using h c l by (simp add: client_read_def)
qed

theorem response_round_trip_witness:
  "client_read (format_response \<lparr>rs_status = 404, rs_content_type = ''text/plain'', rs_body = ''not found''\<rparr> @ ''more'') =
     Some (404, ''text/plain'', ''not found'')"
  using response_round_trip [of "\<lparr>rs_status = 404, rs_content_type = ''text/plain'', rs_body = ''not found''\<rparr>" "''more''"]
  by (simp add: cr_def)

section \<open>Split requests\<close>

text \<open>The bytes a script of reads delivers, and the events that neither end nor fail.\<close>

definition bytes_of :: "http_read list \<Rightarrow> string" where
  "bytes_of es = concat (map (\<lambda>e. case e of HttpData d \<Rightarrow> take 2048 d | _ \<Rightarrow> []) es)"

fun harmless :: "http_read \<Rightarrow> bool" where
  "harmless (HttpData d) \<longleftrightarrow> d \<noteq> []"
| "harmless HttpIntr \<longleftrightarrow> True"
| "harmless (HttpBlock ready) \<longleftrightarrow> ready"
| "harmless _ \<longleftrightarrow> False"

lemma find_text_Some:
  "find_text t s = Some i \<Longrightarrow> take (length t) (drop i s) = t \<and> i \<le> length s \<and>
     (\<forall>j < i. take (length t) (drop j s) \<noteq> t)"
  by (auto simp: find_text_def find_upt_Some less_Suc_eq_le simp del: upt_Suc)

lemma find_text_at: "take (length t) (drop i s) = t \<Longrightarrow> i \<le> length s \<Longrightarrow> find_text t s \<noteq> None"
  unfolding find_text_def find_upt_None by (auto simp: less_Suc_eq_le)

lemma length_blank: "length (crlf @ crlf) = 4"
  by (simp add: crlf_def)

lemma blank_fits: "find_text (crlf @ crlf) s = Some i \<Longrightarrow> i + 4 \<le> length s"
proof -
  assume "find_text (crlf @ crlf) s = Some i"
  then have "take 4 (drop i s) = crlf @ crlf" using find_text_Some length_blank by metis
  then have "length (take 4 (drop i s)) = 4" using length_blank by metis
  then show ?thesis by simp
qed

lemma find_text_prefix:
  assumes "find_text t (s @ r) = Some i" "find_text t s = None" "t \<noteq> []"
  shows "length s < i + length t"
proof (rule ccontr)
  assume n: "\<not> length s < i + length t"
  then have "take (length t) (drop i (s @ r)) = take (length t) (drop i s)" by (simp add: take_append)
  then have "take (length t) (drop i s) = t" using find_text_Some [OF assms(1)] by metis
  then show False using find_text_at [of t i s] assms(2) n by simp
qed

lemma read_request_complete:
  assumes "list_all harmless es" "find_text (crlf @ crlf) (request @ bytes_of es) = Some i" "i + 3 \<le> kMaxRequest"
  shows "\<exists>k. read_request es request = GotRequest (request @ take k (bytes_of es)) \<and>
    i + 4 \<le> length (request @ take k (bytes_of es))"
  using assms
proof (induction es arbitrary: request)
  case Nil
  then have f: "find_text (crlf @ crlf) request = Some i" by (simp add: bytes_of_def)
  then show ?case using blank_fits [OF f] by (simp add: bytes_of_def)
next
  case (Cons e es)
  show ?case
  proof (cases "find_text (crlf @ crlf) request")
    case None
    then have small: "\<not> length request > kMaxRequest"
      using find_text_prefix [OF Cons.prems(2) None] Cons.prems(3) length_blank by (simp add: crlf_def)
    show ?thesis
    proof (cases e)
      case (HttpData d)
      then have b: "bytes_of (e # es) = take 2048 d @ bytes_of es" "d \<noteq> []" using Cons.prems(1) by (simp_all add: bytes_of_def)
      have f: "find_text (crlf @ crlf) ((request @ take 2048 d) @ bytes_of es) = Some i" using Cons.prems(2) b(1) by simp
      obtain k where k: "read_request es (request @ take 2048 d) = GotRequest ((request @ take 2048 d) @ take k (bytes_of es))"
          "i + 4 \<le> length ((request @ take 2048 d) @ take k (bytes_of es))"
        using Cons.IH [OF _ f Cons.prems(3)] Cons.prems(1) by auto
      have "take (length x + k) (x @ y) = x @ take k y" for x y :: string by simp
      then have "take (length (take 2048 d) + k) (bytes_of (e # es)) = take 2048 d @ take k (bytes_of es)" unfolding b(1) by blast
      then show ?thesis using k None small HttpData b(2) by (intro exI [of _ "length (take 2048 d) + k"]) simp
    qed (use Cons None small in \<open>auto simp: bytes_of_def\<close>)
  next
    case (Some j)
    have l: "j + 4 \<le> length request" by (rule blank_fits [OF Some])
    have "take (length (crlf @ crlf)) (drop j (request @ bytes_of (e # es))) = crlf @ crlf"
      using find_text_Some [OF Some] l length_blank by simp
    then have "\<not> j < i" using find_text_Some [OF Cons.prems(2)] by blast
    then have "i + 4 \<le> length request" using l by simp
    then show ?thesis using Some by (intro exI [of _ 0]) simp
  qed
qed

text \<open>The path is found once both blanks have arrived.\<close>

lemma find_char_first: "c \<notin> set a \<Longrightarrow> find_char c 0 (a @ c # b) = Some (length a)"
  unfolding find_char_def find_upt_Some by (auto simp: nth_append)

lemma find_char_second: "c \<notin> set p \<Longrightarrow> find_char c (length a + 1) (a @ c # p @ c # b) = Some (length a + 1 + length p)"
  unfolding find_char_def find_upt_Some by (auto simp: nth_append nth_Cons')

lemma request_path_line:
  assumes "CHR '' '' \<notin> set m" "CHR '' '' \<notin> set p"
  shows "request_path (m @ '' '' @ p @ '' '' @ v) =
    (let path = takeWhile (\<lambda>c. c \<noteq> CHR ''?'') p in if path = [] then None else Some path)"
proof -
  have sub: "substr (length m + 1) (length m + 1 + length p - length m - 1) (m @ '' '' @ p @ '' '' @ v) = p"
    by (simp add: substr_def)
  have q: "(case find_char (CHR ''?'') 0 p of None \<Rightarrow> p | Some q \<Rightarrow> take q p) = takeWhile (\<lambda>c. c \<noteq> CHR ''?'') p"
  proof (cases "CHR ''?'' \<in> set p")
    case True
    then obtain a b where ab: "p = a @ CHR ''?'' # b" "CHR ''?'' \<notin> set a" using split_list_first by metis
    then have "takeWhile (\<lambda>c. c \<noteq> CHR ''?'') p = a" by (auto simp: takeWhile_append)
    then show ?thesis using find_char_first [OF ab(2)] ab(1) by simp
  next
    case False
    then have "find_char (CHR ''?'') 0 p = None" unfolding find_char_def find_upt_None by (auto dest: nth_mem)
    moreover have "takeWhile (\<lambda>c. c \<noteq> CHR ''?'') p = p" using False by (induction p) auto
    ultimately show ?thesis by (simp only: option.case)
  qed
  have one: "find_char (CHR '' '') 0 (m @ '' '' @ p @ '' '' @ v) = Some (length m)"
    using find_char_first [OF assms(1), of "p @ '' '' @ v"] by simp
  have two: "find_char (CHR '' '') (length m + 1) (m @ '' '' @ p @ '' '' @ v) = Some (length m + 1 + length p)"
    using find_char_second [OF assms(2), of m v] by simp
  show ?thesis unfolding request_path_def one two option.case sub Let_def q ..
qed

text \<open>The server does not depend on how a request is split into reads. A request line with a method and a
  path, followed by headers that end within the size limit, is answered with the handler's response for the
  path without its query, however the bytes arrive (interruptions and waits included) and whatever follows
  the empty line; and it is counted once.\<close>

theorem http_ignores_splits:
  assumes "bytes_of es = m @ '' '' @ p @ '' '' @ v @ crlf @ crlf @ rest"
    and "CHR '' '' \<notin> set m" "CHR '' '' \<notin> set p" "cr \<notin> set m" "cr \<notin> set p"
    and "takeWhile (\<lambda>c. c \<noteq> CHR ''?'') p \<noteq> []"
    and "length m + length p + length v + 6 \<le> kMaxRequest" "list_all harmless es"
  shows "serve_one handler es writes n =
    (http_send writes (format_response (handler (takeWhile (\<lambda>c. c \<noteq> CHR ''?'') p))), n + 1)"
proof -
  let ?line = "m @ '' '' @ p @ '' ''" and ?t = "crlf @ crlf"
  let ?b = "bytes_of es"
  have b: "?b = ?line @ v @ ?t @ rest" using assms(1) by simp
  have at: "take 4 (drop (length (?line @ v)) ?b) = ?t" unfolding b by (simp add: crlf_def)
  then have "find_text ?t ?b \<noteq> None" by (intro find_text_at [of _ "length (?line @ v)"]) (simp_all add: b crlf_def)
  then obtain i where i: "find_text ?t ?b = Some i" by auto
  have le: "i \<le> length (?line @ v)"
    using find_text_Some [OF i] at length_blank by (metis leI)
  have c: "?b ! i = cr" "i < length ?b"
  proof -
    have t: "take 4 (drop i ?b) = ?t" using find_text_Some [OF i] length_blank by metis
    then have "0 < length (drop i ?b)" by (cases "drop i ?b") (simp_all add: crlf_def)
    then show "i < length ?b" by simp
    then have "?b ! i = hd (drop i ?b)" by (simp add: hd_drop_conv_nth)
    also have "\<dots> = hd (take 4 (drop i ?b))" using \<open>0 < length (drop i ?b)\<close> by (cases "drop i ?b") simp_all
    finally show "?b ! i = cr" using t by (simp add: crlf_def)
  qed
  have ge: "length ?line \<le> i"
  proof (rule ccontr)
    assume "\<not> length ?line \<le> i"
    then have l: "i < length ?line" by simp
    then have "?b ! i = ?line ! i" unfolding b by (rule nth_append_left)
    then have "?b ! i \<in> set ?line" using nth_mem [OF l] by metis
    then show False using c assms(4,5) by (simp add: cr_def)
  qed
  obtain k where k: "read_request es [] = GotRequest (take k ?b)" "i + 4 \<le> length (take k ?b)"
    using read_request_complete [OF assms(8), of "[]" i] i le assms(7) by auto
  have "length ?line \<le> k" using k(2) ge by simp
  then have "take k ?b = ?line @ take (k - length ?line) (v @ ?t @ rest)" unfolding b take_append [of k ?line] by simp
  then have "request_path (take k ?b) = Some (takeWhile (\<lambda>c. c \<noteq> CHR ''?'') p)"
    using request_path_line [OF assms(2,3)] assms(6) by simp
  then show ?thesis using k(1) by (simp add: serve_one_def answer_def)
qed

text \<open>A request in two pieces, split inside the path.\<close>

theorem http_ignores_splits_witness:
  "serve_one (\<lambda>path. response0\<lparr>rs_body := path\<rparr>)
      [HttpData ''GET /st'', HttpBlock True, HttpData (''ats?x=1 HTTP/1.1'' @ crlf @ crlf)] [HttpSent 9, HttpSent 999] 4 =
    (http_send [HttpSent 9, HttpSent 999] (format_response (response0\<lparr>rs_body := ''/stats''\<rparr>)), 5)"
  using http_ignores_splits [of "[HttpData ''GET /st'', HttpBlock True, HttpData (''ats?x=1 HTTP/1.1'' @ crlf @ crlf)]"
      "''GET''" "''/stats?x=1''" "''HTTP/1.1''" "[]" "\<lambda>path. response0\<lparr>rs_body := path\<rparr>" "[HttpSent 9, HttpSent 999]" 4]
  by (simp add: bytes_of_def crlf_def cr_def lf_def kMaxRequest_def)

end
