(* ===== verification/Shutdown.thy ===== *)
theory Shutdown
  imports Delivery Http
begin

text \<open>
  Starting and stopping the threads of the gateway (\<open>start\<close> and \<open>stop\<close> of \<^verbatim>\<open>src/egress.cpp\<close>, \<^verbatim>\<open>src/fanout.cpp\<close>,
  \<^verbatim>\<open>src/ring_ingest.cpp\<close> and \<^verbatim>\<open>src/http.cpp\<close>). All four have the same shape: a flag, a thread, and an event descriptor
  that is written once and never read, so that every later \<^verbatim>\<open>poll\<close> reports it. \<open>stop\<close> raises the event, wakes the
  thread where it can be parked elsewhere, and joins it. A join runs the turns that the thread still takes; \<open>None\<close>
  is a thread that has not returned within them. The contract \<open>stoppable\<close> says that a thread whose polls report the
  event returns; it is interpreted on the four components, the egress over both feeds.
\<close>

section \<open>Workers\<close>

text \<open>\<open>wk_returned\<close>: the thread function has returned, also before anyone joins it, as after a failing \<^verbatim>\<open>poll\<close>.\<close>

record worker =
  wk_started :: bool
  wk_joinable :: bool
  wk_returned :: bool
  wk_event :: u64

text \<open>Writing 1 to an \<^verbatim>\<open>eventfd\<close>. The counter never exceeds \<open>2^64 - 2\<close>; a write that would is refused.\<close>

definition raise_event :: "u64 \<Rightarrow> u64" where
  "raise_event n = (if n < 0xFFFFFFFFFFFFFFFE then n + 1 else n)"

lemma raise_event_raised [simp]: "raise_event n \<noteq> 0"
proof (cases "n < 0xFFFFFFFFFFFFFFFE")
  case True
  then have "unat (n + 1) = unat n + 1" by (simp add: word_less_nat_alt unat_word_ariths)
  then show ?thesis using True by (auto simp: raise_event_def)
qed (auto simp: raise_event_def)

definition worker_start :: "'a worker_scheme \<Rightarrow> 'a worker_scheme" where
  "worker_start s = (if wk_started s then s else s\<lparr>wk_started := True, wk_joinable := True, wk_returned := False\<rparr>)"

text \<open>\<open>wake\<close> is what \<open>stop\<close> does between raising the event and joining the thread.\<close>

definition worker_stop :: "('a worker_scheme \<Rightarrow> 'a worker_scheme) \<Rightarrow> ('e \<Rightarrow> 'a worker_scheme \<Rightarrow> 'a worker_scheme option) \<Rightarrow>
    'e \<Rightarrow> 'a worker_scheme \<Rightarrow> 'a worker_scheme option" where
  "worker_stop wake join es s =
     (if \<not> wk_started s then Some s
      else let s = wake (s\<lparr>wk_event := raise_event (wk_event s)\<rparr>)
           in map_option (\<lambda>s. s\<lparr>wk_started := False, wk_joinable := False\<rparr>)
                (if wk_joinable s \<and> \<not> wk_returned s then join es s else Some s))"

section \<open>Joining the threads\<close>

text \<open>The fan-out thread.\<close>

record fan_service = worker +
  fv_fan :: fanout

fun fan_finish :: "ingest_poll list \<Rightarrow> fanout \<Rightarrow> fanout option" where
  "fan_finish [] s = None"
| "fan_finish (p # ps) s = (case fan_turn p s of (stop, s') \<Rightarrow> if stop then Some s' else fan_finish ps s')"

definition fan_join :: "ingest_poll list \<Rightarrow> fan_service \<Rightarrow> fan_service option" where
  "fan_join ps s = map_option (\<lambda>f. s\<lparr>fv_fan := f\<rparr>) (fan_finish ps (fv_fan s))"

definition fan_stop :: "ingest_poll list \<Rightarrow> fan_service \<Rightarrow> fan_service option" where
  "fan_stop = worker_stop (\<lambda>s. s) fan_join"

text \<open>The ring's ingest threads: all of them have to return.\<close>

record ring_service = worker +
  rv_ring :: ring_ingest

definition ring_join :: "(nat \<times> ingest_poll) list \<Rightarrow> ring_service \<Rightarrow> ring_service option" where
  "ring_join ps s =
     Option.bind (ring_run ps (rv_ring s)) (\<lambda>r. if list_all id (ri_stopped r) then Some (s\<lparr>rv_ring := r\<rparr>) else None)"

definition ring_stop :: "(nat \<times> ingest_poll) list \<Rightarrow> ring_service \<Rightarrow> ring_service option" where
  "ring_stop = worker_stop (\<lambda>s. s) ring_join"

text \<open>The server of the live view; \<open>hv_sent\<close> is what its clients have been sent.\<close>

record http_service = worker +
  hv_requests :: u64
  hv_sent :: "string list"

fun server_finish :: "('v \<Rightarrow> string \<Rightarrow> response) \<Rightarrow> 'v server_poll list \<Rightarrow> u64 \<Rightarrow> (string list \<times> u64) option" where
  "server_finish handler [] requests = None"
| "server_finish handler (p # ps) requests =
     (case p of
        SrvIntr \<Rightarrow> server_finish handler ps requests
      | SrvFail \<Rightarrow> Some ([], requests)
      | SrvStop \<Rightarrow> Some ([], requests)
      | SrvNone \<Rightarrow> server_finish handler ps requests
      | SrvConn v reads writes \<Rightarrow>
          (case serve_one (handler v) reads writes requests of
             (out, requests') \<Rightarrow> map_option (\<lambda>(outs, n). (out # outs, n)) (server_finish handler ps requests')))"

definition http_join :: "('v \<Rightarrow> string \<Rightarrow> response) \<Rightarrow> 'v server_poll list \<Rightarrow> http_service \<Rightarrow> http_service option" where
  "http_join handler ps s =
     map_option (\<lambda>(outs, n). s\<lparr>hv_requests := n, hv_sent := hv_sent s @ outs\<rparr>) (server_finish handler ps (hv_requests s))"

definition http_stop :: "('v \<Rightarrow> string \<Rightarrow> response) \<Rightarrow> 'v server_poll list \<Rightarrow> http_service \<Rightarrow> http_service option" where
  "http_stop handler = worker_stop (\<lambda>s. s) (http_join handler)"

text \<open>The egress thread, over either feed. \<open>stop\<close> also closes the feed, where the thread may be parked.\<close>

definition queue_feed_closed :: "queue_feed \<Rightarrow> bool" where
  "queue_feed_closed s = q_closed (snd s)"

definition ring_feed_closed :: "ring_feed \<Rightarrow> bool" where
  "ring_feed_closed s = r_closed (rf_ring s)"

record 'f egress_service = worker +
  sv_egress :: egress
  sv_feed :: 'f

fun egress_finish :: "(nat \<Rightarrow> 'f \<Rightarrow> (frame list \<times> 'f) option) \<Rightarrow> ('f \<Rightarrow> bool) \<Rightarrow> run_env list \<Rightarrow>
    egress \<Rightarrow> 'f \<Rightarrow> (egress \<times> 'f) option" where
  "egress_finish pop is_closed [] s fd = None"
| "egress_finish pop is_closed (env # envs) s fd =
     Option.bind (run_turn pop is_closed env s fd) (\<lambda>(stop, s', fd').
       if stop then Some (s', fd') else egress_finish pop is_closed envs s' fd')"

definition egress_join :: "(nat \<Rightarrow> 'f \<Rightarrow> (frame list \<times> 'f) option) \<Rightarrow> ('f \<Rightarrow> bool) \<Rightarrow> run_env list \<Rightarrow>
    'f egress_service \<Rightarrow> 'f egress_service option" where
  "egress_join pop is_closed envs s =
     map_option (\<lambda>(e, fd). s\<lparr>sv_egress := e, sv_feed := fd\<rparr>) (egress_finish pop is_closed envs (sv_egress s) (sv_feed s))"

definition egress_stop :: "(nat \<Rightarrow> 'f \<Rightarrow> (frame list \<times> 'f) option) \<Rightarrow> ('f \<Rightarrow> bool) \<Rightarrow> ('f \<Rightarrow> 'f) \<Rightarrow> run_env list \<Rightarrow>
    'f egress_service \<Rightarrow> 'f egress_service option" where
  "egress_stop pop is_closed close = worker_stop (\<lambda>s. s\<lparr>sv_feed := close (sv_feed s)\<rparr>) (egress_join pop is_closed)"

text \<open>The destructor; its descriptors are closed by \<open>gateway_end\<close> of theory \<open>Gateway\<close>.\<close>

definition egress_destroy :: "(nat \<Rightarrow> 'f \<Rightarrow> (frame list \<times> 'f) option) \<Rightarrow> ('f \<Rightarrow> bool) \<Rightarrow> ('f \<Rightarrow> 'f) \<Rightarrow> run_env list \<Rightarrow>
    'f egress_service \<Rightarrow> 'f egress_service option" where
  "egress_destroy pop is_closed close envs s =
     map_option (\<lambda>s. s\<lparr>sv_egress := drop_client (sv_egress s)\<rparr>) (egress_stop pop is_closed close envs s)"

section \<open>The end of the gateway program\<close>

text \<open>The ingest is stopped first. Once its threads are joined, what they have put into a feed is there.\<close>

definition queue_settled :: "queue_feed egress_service \<Rightarrow> queue_feed egress_service option" where
  "queue_settled s = Some (s\<lparr>sv_feed := ([], fold (\<lambda>fs q. snd (push_batch fs q)) (fst (sv_feed s)) (snd (sv_feed s)))\<rparr>)"

fun ring_published :: "frame list list \<Rightarrow> ring \<Rightarrow> ring option" where
  "ring_published [] r = Some r"
| "ring_published (fs # arr) r = Option.bind (publish_batch fs r) (\<lambda>(n, r'). ring_published arr r')"

definition ring_settled :: "ring_feed egress_service \<Rightarrow> ring_feed egress_service option" where
  "ring_settled s = map_option (\<lambda>r. s\<lparr>sv_feed := (sv_feed s)\<lparr>rf_ring := r, rf_arrivals := []\<rparr>\<rparr>)
     (ring_published (rf_arrivals (sv_feed s)) (rf_ring (sv_feed s)))"

text \<open>Then every egress is stopped, in order; each comes with the turns that its thread still takes.\<close>

fun stop_each :: "('e \<Rightarrow> 's \<Rightarrow> 's option) \<Rightarrow> ('e \<times> 's) list \<Rightarrow> 's list option" where
  "stop_each stop [] = Some []"
| "stop_each stop ((es, s) # cs) = Option.bind (stop es s) (\<lambda>s'. map_option ((#) s') (stop_each stop cs))"

definition gateway_stop :: "('p \<Rightarrow> 'i \<Rightarrow> 'i option) \<Rightarrow> ('s \<Rightarrow> 's option) \<Rightarrow> ('e \<Rightarrow> 's \<Rightarrow> 's option) \<Rightarrow>
    'p \<Rightarrow> 'i \<Rightarrow> ('e \<times> 's) list \<Rightarrow> ('i \<times> 's list) option" where
  "gateway_stop stop_ingest settled stop_egress ps i cs =
     Option.bind (stop_ingest ps i) (\<lambda>i'. map_option (Pair i')
       (stop_each (\<lambda>es s. Option.bind (settled s) (stop_egress es)) cs))"

lemma stop_each_returns:
  assumes "\<And>es s. (es, s) \<in> set cs \<Longrightarrow> \<exists>s'. stop es s = Some s' \<and> P s'"
  shows "\<exists>ss. stop_each stop cs = Some ss \<and> length ss = length cs \<and> list_all P ss"
  using assms
proof (induction cs)
  case (Cons c cs)
  obtain es s where c: "c = (es, s)" by fastforce
  obtain s' where "stop es s = Some s'" "P s'" using Cons.prems [of es s] c by auto
  then show ?case using Cons.IH Cons.prems c by auto
qed simp

text \<open>A thread that has been joined is one that ran.\<close>

lemma fan_finish_run: "fan_finish ps s = Some s' \<Longrightarrow> fan_run ps s = s'"
  by (induction ps arbitrary: s) (auto split: prod.splits if_splits)

lemma egress_finish_run:
  "egress_finish pop is_closed envs s fd = Some r \<Longrightarrow> egress_run pop is_closed envs s fd = Some r"
proof (induction envs arbitrary: s fd)
  case (Cons env envs)
  then show ?case by (cases "run_turn pop is_closed env s fd") (auto split: if_splits)
qed simp

section \<open>The contract\<close>

text \<open>\<open>heeds es s\<close>: the turns \<open>es\<close> are such as the thread of \<open>s\<close> can take while the event is raised, and enough of
  them. \<open>ready\<close> is an invariant of the component, and \<open>outcome\<close> what those turns have made of \<open>s\<close> when the thread has
  returned.\<close>

locale stoppable =
  fixes wake :: "'a worker_scheme \<Rightarrow> 'a worker_scheme"
    and join :: "'e \<Rightarrow> 'a worker_scheme \<Rightarrow> 'a worker_scheme option"
    and ready :: "'a worker_scheme \<Rightarrow> bool"
    and heeds :: "'e \<Rightarrow> 'a worker_scheme \<Rightarrow> bool"
    and outcome :: "'e \<Rightarrow> 'a worker_scheme \<Rightarrow> 'a worker_scheme \<Rightarrow> bool"
  assumes event_ready: "ready s \<Longrightarrow> ready (s\<lparr>wk_event := n\<rparr>)"
    and wake_worker: "wk_joinable (wake s) = wk_joinable s" "wk_returned (wake s) = wk_returned s" "wk_event (wake s) = wk_event s"
    and join_returns: "ready s \<Longrightarrow> wk_event s \<noteq> 0 \<Longrightarrow> heeds es (wake s) \<Longrightarrow>
      \<exists>s'. join es (wake s) = Some s' \<and> outcome es (wake s) s'"
    and outcome_stopped: "outcome es s s' \<Longrightarrow> outcome es s (s'\<lparr>wk_started := False, wk_joinable := False\<rparr>)"
begin

lemma stop_returns:
  assumes "ready s" "wk_started s" "wk_joinable s" "\<not> wk_returned s"
  defines "woken \<equiv> wake (s\<lparr>wk_event := raise_event (wk_event s)\<rparr>)"
  assumes "heeds es woken"
  shows "\<exists>s'. worker_stop wake join es s = Some s' \<and> \<not> wk_started s' \<and> outcome es woken s'"
proof -
  let ?s = "s\<lparr>wk_event := raise_event (wk_event s)\<rparr>"
  obtain s' where "join es woken = Some s'" "outcome es woken s'"
    using join_returns [OF event_ready [OF assms(1), of "raise_event (wk_event s)"], of es] assms(6) by (auto simp: woken_def)
  then show ?thesis using assms(2-4) outcome_stopped wake_worker(1,2) [of ?s] by (auto simp: worker_stop_def woken_def)
qed

text \<open>A thread that has returned is joined at once, and a second \<open>stop\<close> does nothing.\<close>

lemma stop_returned:
  "wk_returned s \<Longrightarrow> \<exists>s'. worker_stop wake join es s = Some s' \<and> \<not> wk_started s'"
  using wake_worker(2) [of "s\<lparr>wk_event := raise_event (wk_event s)\<rparr>"]
  by (cases "wk_started s") (auto simp: worker_stop_def Let_def)

lemma stop_twice: "worker_stop wake join es s = Some s' \<Longrightarrow> worker_stop wake join es' s' = Some s'"
  by (cases "wk_started s") (auto simp: worker_stop_def Let_def)

end

section \<open>Ingest and server\<close>

text \<open>What a \<^verbatim>\<open>poll\<close> can report while the event is raised: it is interrupted, fails, or sees the event.\<close>

fun event_seen :: "ingest_poll \<Rightarrow> bool" where
  "event_seen InTimeout = False"
| "event_seen (InReady ready stop) = stop"
| "event_seen _ = True"

fun poll_ready :: "ingest_poll \<Rightarrow> bool" where
  "poll_ready (InReady ready stop) = True"
| "poll_ready _ = False"

lemma fan_finish_returns: "list_all event_seen ps \<Longrightarrow> list_ex poll_ready ps \<Longrightarrow> \<exists>s'. fan_finish ps s = Some s'"
proof (induction ps arbitrary: s)
  case (Cons p ps)
  then show ?case by (cases p) (auto split: prod.splits)
qed simp

interpretation fan: stoppable "\<lambda>s. s" fan_join "\<lambda>s. True" "\<lambda>ps s. list_all event_seen ps \<and> list_ex poll_ready ps"
  "\<lambda>ps s s'. fv_fan s' = fan_run ps (fv_fan s)"
proof unfold_locales
  fix s :: fan_service and ps
  assume "list_all event_seen ps \<and> list_ex poll_ready ps"
  then obtain f where "fan_finish ps (fv_fan s) = Some f" using fan_finish_returns by blast
  then show "\<exists>s'. fan_join ps s = Some s' \<and> fv_fan s' = fan_run ps (fv_fan s)"
    using fan_finish_run by (auto simp: fan_join_def)
qed auto

text \<open>Every thread of the ring's ingest gets to see the event.\<close>

definition ring_heeds :: "(nat \<times> ingest_poll) list \<Rightarrow> ring_ingest \<Rightarrow> bool" where
  "ring_heeds ps r \<longleftrightarrow> list_all (event_seen \<circ> snd) ps \<and>
     (\<forall>i < length (ri_sources r). list_ex (\<lambda>(j, p). j = i \<and> poll_ready p) ps) \<and>
     (\<exists>log. ring_holds (ri_ring r) log \<and> length log + kDrainBatch * length ps \<le> 2 ^ 62)"

definition ring_ready :: "ring_ingest \<Rightarrow> bool" where
  "ring_ready r \<longleftrightarrow> length (ri_stopped r) = length (ri_sources r)"

lemma ring_turn_stopped:
  assumes "ring_turn i p s = Some s'" "i < length (ri_stopped s)"
  shows "length (ri_stopped s') = length (ri_stopped s)" "length (ri_sources s') = length (ri_sources s)"
    "ri_stopped s ! j \<Longrightarrow> ri_stopped s' ! j" "event_seen p \<Longrightarrow> poll_ready p \<Longrightarrow> ri_stopped s' ! i"
  using assms
  by (auto simp: ring_turn_def ring_source_def Let_def nth_list_update split: ingest_poll.splits list.splits option.splits prod.splits if_splits)


lemma ring_run_stopped:
  assumes "ring_run ps s = Some s'" "length (ri_stopped s) = length (ri_sources s)" "list_all (event_seen \<circ> snd) ps"
  shows "length (ri_stopped s') = length (ri_sources s) \<and> (\<forall>i < length (ri_sources s).
    ri_stopped s ! i \<or> list_ex (\<lambda>(j, p). j = i \<and> poll_ready p) ps \<longrightarrow> ri_stopped s' ! i)"
  using assms
proof (induction ps arbitrary: s)
  case (Cons q ps)
  obtain i p where q: "q = (i, p)" by fastforce
  show ?case
  proof (cases "i < length (ri_sources s) \<and> \<not> ri_stopped s ! i")
    case False
    then show ?thesis using Cons by (auto simp: q)
  next
    case True
    then obtain s1 where t: "ring_turn i p s = Some s1" "ring_run ps s1 = Some s'"
      using Cons.prems(1) by (cases "ring_turn i p s") (auto simp: q)
    have i: "i < length (ri_stopped s)" using True Cons.prems(2) by simp
    note k = ring_turn_stopped [OF t(1) i]
    show ?thesis using Cons.IH [OF t(2)] k Cons.prems(2,3) by (auto simp: q)
  qed
qed auto

lemma ring_run_ready:
  assumes "ring_run ps s = Some s'" "ring_ready s"
  shows "ring_ready s' \<and> length (ri_sources s') = length (ri_sources s)"
  using assms
proof (induction ps arbitrary: s)
  case (Cons q ps)
  obtain i p where q: "q = (i, p)" by fastforce
  show ?case
  proof (cases "i < length (ri_sources s) \<and> \<not> ri_stopped s ! i")
    case True
    then obtain s1 where t: "ring_turn i p s = Some s1" "ring_run ps s1 = Some s'"
      using Cons.prems(1) by (cases "ring_turn i p s") (auto simp: q)
    have "i < length (ri_stopped s)" using True Cons.prems(2) by (simp add: ring_ready_def)
    from ring_turn_stopped(1,2) [OF t(1) this] have "ring_ready s1" "length (ri_sources s1) = length (ri_sources s)"
      using Cons.prems(2) by (simp_all add: ring_ready_def)
    then show ?thesis using Cons.IH [OF t(2)] by simp
  qed (use Cons in \<open>auto simp: q\<close>)
qed simp

lemma ring_run_append: "ring_run (a @ b) s = Option.bind (ring_run a s) (ring_run b)"
proof (induction a arbitrary: s)
  case (Cons q a)
  obtain i p where q: "q = (i, p)" by fastforce
  show ?case using Cons.IH by (cases "ring_turn i p s") (simp_all add: q)
qed simp

text \<open>The ingest threads from the start to the time when they are stopped, and on to the end.\<close>

lemma ring_run_twice:
  assumes "ring_new capacity = Some r" "kDrainBatch * (length polls + length ps) \<le> 2 ^ 62"
    and "ring_run polls (ring_ingest_new sources r) = Some mid" "ring_run ps mid = Some ended"
  shows "\<exists>log. ring_holds (ri_ring mid) log \<and> length log + kDrainBatch * length ps \<le> 2 ^ 62"
    and "length (ri_sources mid) = length sources" "ring_ready mid"
    and "list_all bus_frame (log_frames (ri_log ended))" "length (log_frames (ri_log ended)) \<le> 2 ^ 62"
proof -
  let ?s0 = "ring_ingest_new sources r"
  have init: "ring_holds (ri_ring ?s0) []" "ring_ready ?s0" "length (ri_sources ?s0) = length sources" "ri_log ?s0 = []"
    using ring_holds_new [OF assms(1)] by (simp_all add: ring_ingest_new_def ring_ready_def)
  obtain new where "publishes (\<lambda>i. if i < length (ri_sources ?s0) \<and> \<not> ri_stopped ?s0 ! i then ring_drains i polls else []) [] new ?s0 mid"
    using ring_run_publishes [of ?s0 "[]" polls] init(1,2) assms(2,3) by (auto simp: ring_ready_def algebra_simps)
  then have "ring_holds (ri_ring mid) (log_frames (ri_log mid))" using init(4) by (simp add: publishes_def)
  moreover have "length (log_frames (ri_log mid)) \<le> kDrainBatch * length polls" using ring_run_length [OF assms(3)] init(4) by simp
  ultimately show "\<exists>log. ring_holds (ri_ring mid) log \<and> length log + kDrainBatch * length ps \<le> 2 ^ 62"
    using assms(2) by (intro exI [of _ "log_frames (ri_log mid)"]) (simp add: algebra_simps)
  show "length (ri_sources mid) = length sources" "ring_ready mid" using ring_run_ready [OF assms(3) init(2)] init(3) by auto
  have "ring_run (polls @ ps) ?s0 = Some ended" using assms(3,4) by (simp add: ring_run_append)
  then show "list_all bus_frame (log_frames (ri_log ended))" "length (log_frames (ri_log ended)) \<le> 2 ^ 62"
    using ring_log_bus [OF assms(1), of "polls @ ps" sources] assms(2) by auto
qed

interpretation ring_threads: stoppable "\<lambda>s. s" ring_join "\<lambda>s. ring_ready (rv_ring s)" "\<lambda>ps s. ring_heeds ps (rv_ring s)"
  "\<lambda>ps s s'. ring_run ps (rv_ring s) = Some (rv_ring s') \<and> list_all id (ri_stopped (rv_ring s'))"
proof unfold_locales
  fix s :: ring_service and ps
  assume ready: "ring_ready (rv_ring s)" and heeds: "ring_heeds ps (rv_ring s)"
  then obtain r where r: "ring_run ps (rv_ring s) = Some r"
    using ring_run_publishes by (metis ring_heeds_def ring_ready_def)
  then have "list_all id (ri_stopped r)"
    using ring_run_stopped [OF r] ready heeds by (auto simp: ring_heeds_def ring_ready_def list_all_length)
  then show "\<exists>s'. ring_join ps s = Some s' \<and> ring_run ps (rv_ring s) = Some (rv_ring s') \<and> list_all id (ri_stopped (rv_ring s'))"
    using r by (simp add: ring_join_def)
qed auto

text \<open>The server looks at the event before it looks at the listening socket: no further connection is served.\<close>

definition server_heeds :: "'v server_poll list \<Rightarrow> bool" where
  "server_heeds ps \<longleftrightarrow> list_all (\<lambda>p. p \<in> {SrvIntr, SrvFail, SrvStop}) ps \<and> list_ex (\<lambda>p. p \<noteq> SrvIntr) ps"

lemma server_finish_returns:
  "server_heeds ps \<Longrightarrow> server_finish handler ps n = Some ([], n)"
proof (induction ps)
  case (Cons p ps)
  then show ?case by (cases p) (auto simp: server_heeds_def)
qed (simp add: server_heeds_def)

interpretation server: stoppable "\<lambda>s. s" "http_join handler" "\<lambda>s. True" "\<lambda>ps s. server_heeds ps"
  "\<lambda>ps s s'. hv_sent s' = hv_sent s \<and> hv_requests s' = hv_requests s"
  by unfold_locales (auto simp: http_join_def server_finish_returns)


section \<open>Egress\<close>

text \<open>What \<open>wait_for_client\<close> can see while the event is raised.\<close>

fun stop_seen :: "accept_event list \<Rightarrow> bool" where
  "stop_seen (AccIntr # es) = stop_seen es"
| "stop_seen (AccStop # es) = True"
| "stop_seen (AccFail # es) = True"
| "stop_seen _ = False"

lemma wait_stop_seen: "stop_seen es \<Longrightarrow> \<not> e_client s \<Longrightarrow> wait_for_client es s = (Stopped, s)"
  by (induction es rule: stop_seen.induct) auto

lemma flush_tuning: "flush_pending es s = (ok, s') \<Longrightarrow> e_tuning s' = e_tuning s"
proof (induction es arbitrary: s)
  case (Cons e es)
  have "e_tuning (send_some n s) = e_tuning s" for n by (simp add: send_some_def Let_def)
  then show ?case using Cons by (cases e) (auto simp: Let_def split: if_splits poll_out.splits dest: Cons.IH)
qed (auto split: if_splits)

lemma send_batch_tuning: "e_tuning (send_batch env batch s) = e_tuning s"
proof -
  let ?s = "maybe_send_echo (ev_echo_now env) (note_gap (ev_gap_now env) batch s)"
  let ?t = "encode_batch (e_outgoing ?s) ?s"
  obtain ok s' where f: "flush_pending (ev_flush2 env) ?t = (ok, s')" by fastforce
  have "e_tuning ?t = e_tuning s" by (simp add: encode_batch_def Let_def)
  then have "e_tuning s' = e_tuning s" using flush_tuning [OF f] by simp
  then show ?thesis using f by (cases ok) (simp_all add: send_batch_def Let_def drop_client_def)
qed

text \<open>A feed that has been closed and gets no more input: it hands out what it holds, and then nothing. \<open>left\<close> is what
  it still holds.\<close>

locale closed_feed =
  fixes pop :: "nat \<Rightarrow> 'f \<Rightarrow> (frame list \<times> 'f) option"
    and is_closed shut :: "'f \<Rightarrow> bool"
    and left :: "'f \<Rightarrow> nat"
  assumes shut_pop: "shut fd \<Longrightarrow> 0 < n \<Longrightarrow> \<exists>fs fd'. pop n fd = Some (fs, fd') \<and> shut fd' \<and>
      (if fs = [] then left fd' = 0 else left fd' < left fd)"
    and shut_closed: "shut fd \<Longrightarrow> is_closed fd"
begin

lemma coalesce_loop_shut:
  "shut fd \<Longrightarrow> \<exists>batch' w fd'. coalesce_loop pop limit deadline nows waited batch fd = Some (batch', w, fd') \<and>
     shut fd' \<and> left fd' \<le> left fd \<and> (batch \<noteq> [] \<longrightarrow> batch' \<noteq> [])"
proof (induction nows arbitrary: waited batch fd)
  case (Cons now nows)
  show ?case
  proof (cases "\<not> length batch < limit \<or> now \<ge> deadline")
    case False
    then obtain more fd1 where p: "pop (limit - length batch) fd = Some (more, fd1)" "shut fd1"
        "if more = [] then left fd1 = 0 else left fd1 < left fd"
      using shut_pop [OF Cons.prems, of "limit - length batch"] by auto
    show ?thesis
    proof (cases "more = []")
      case True
      then show ?thesis using p False by auto
    next
      case more: False
      obtain batch' w fd' where "coalesce_loop pop limit deadline nows True (batch @ more) fd1 = Some (batch', w, fd')"
          "shut fd'" "left fd' \<le> left fd1" "batch @ more \<noteq> [] \<longrightarrow> batch' \<noteq> []"
        using Cons.IH [OF p(2)] by blast
      then show ?thesis using p False more by auto
    qed
  qed (use Cons.prems in auto)
qed auto

lemma take_batch_shut:
  assumes "shut fd" "0 < tn_max_frames (e_tuning s)"
  obtains batch n fd' where "take_batch pop env s fd = Some (batch, s\<lparr>e_lingered := n\<rparr>, fd')" "shut fd'"
    "if batch = [] then left fd' = 0 else left fd' < left fd"
proof -
  obtain b fd1 where p: "pop (tn_max_frames (e_tuning s)) fd = Some (b, fd1)" "shut fd1"
      "if b = [] then left fd1 = 0 else left fd1 < left fd"
    using shut_pop [OF assms] by blast
  obtain batch' w fd' where c: "coalesce_loop pop (tn_max_frames (e_tuning s))
        (ev_linger_start env + ucast (tn_linger_us (e_tuning s)) * 1000) (ev_linger_nows env) False b fd1 = Some (batch', w, fd')"
      "shut fd'" "left fd' \<le> left fd1" "b \<noteq> [] \<longrightarrow> batch' \<noteq> []"
    using coalesce_loop_shut [OF p(2), of "tn_max_frames (e_tuning s)"
        "ev_linger_start env + ucast (tn_linger_us (e_tuning s)) * 1000" "ev_linger_nows env" False b] by blast
  show thesis
  proof (cases "b = [] \<or> tn_linger_us (e_tuning s) = 0 \<or> length b \<ge> tn_max_frames (e_tuning s)")
    case True
    then have "take_batch pop env s fd = Some (b, s\<lparr>e_lingered := e_lingered s\<rparr>, fd1)"
      using p(1) by (cases "b = []") (auto simp: take_batch_def coalesce_def)
    then show thesis using that [of b "e_lingered s" fd1] p(2,3) by simp
  next
    case False
    then have "take_batch pop env s fd = Some (batch', s\<lparr>e_lingered := (if w then e_lingered s + 1 else e_lingered s)\<rparr>, fd')"
      using p(1) c(1) by (simp add: take_batch_def coalesce_def)
    moreover have "batch' \<noteq> []" "left fd' < left fd" using False c(3,4) p(3) by auto
    ultimately show thesis using that [of batch' "if w then e_lingered s + 1 else e_lingered s" fd'] c(2) by simp
  qed
qed

lemma serve_client_shut:
  assumes "shut fd" "0 < tn_max_frames (e_tuning s)"
  shows "\<exists>stop s' fd'. serve_client pop is_closed env s fd = Some (stop, s', fd') \<and> shut fd' \<and> e_tuning s' = e_tuning s \<and>
    (if stop then left fd' = 0 else left fd' < left fd)"
proof -
  obtain batch n fd' where t: "take_batch pop env s fd = Some (batch, s\<lparr>e_lingered := n\<rparr>, fd')" "shut fd'"
      "if batch = [] then left fd' = 0 else left fd' < left fd"
    by (rule take_batch_shut [OF assms])
  then show ?thesis using shut_closed send_batch_tuning [of env batch "s\<lparr>e_lingered := n\<rparr>"]
    by (cases "batch = []") (auto simp: serve_client_def)
qed

text \<open>A turn after \<open>stop\<close>: the thread returns, or its client is gone, or the feed holds less. Without a client it
  returns.\<close>

lemma run_turn_shut:
  assumes "shut fd" "0 < tn_max_frames (e_tuning s)" "stop_seen (ev_wait env)"
  shows "\<exists>stop s' fd'. run_turn pop is_closed env s fd = Some (stop, s', fd') \<and> shut fd' \<and> e_tuning s' = e_tuning s \<and>
    (if stop then e_client s' \<longrightarrow> left fd' = 0 else e_client s \<and> (\<not> e_client s' \<or> left fd' < left fd))"
proof (cases "e_client s")
  case False
  then have "wait_for_client (ev_wait env) s = (Stopped, s)" using wait_stop_seen [OF assms(3)] by simp
  then show ?thesis using assms(1) False by (intro exI [of _ True]) (simp add: run_turn_def)
next
  case True
  then have w: "wait_for_client (ev_wait env) s = (HasClient, s)" by (cases "ev_wait env") simp_all
  obtain ok s2 where f: "(if e_pending s = [] then (True, s) else flush_pending (ev_flush1 env) s) = (ok, s2)" by fastforce
  then have tn: "e_tuning s2 = e_tuning s" using flush_tuning by (auto split: if_splits)
  let ?s3 = "drain_replies (ev_recv env) (ev_recv_now env) s2"
  have "e_tuning ?s3 = e_tuning s" using tn sans_probe_fields(1) [OF drain_replies_probe] by simp
  then obtain stop s' fd' where "serve_client pop is_closed env ?s3 fd = Some (stop, s', fd')" "shut fd'"
      "e_tuning s' = e_tuning s" "if stop then left fd' = 0 else left fd' < left fd"
    using serve_client_shut [OF assms(1), of ?s3 env] assms(2) by auto
  moreover have "e_tuning (drop_client s2) = e_tuning s" "\<not> e_client (drop_client s2)"
    using tn by (simp_all add: drop_client_def)
  ultimately show ?thesis using w f True assms(1) by (cases ok) (auto simp: run_turn_def)
qed

text \<open>So the thread returns, within two turns more than there are frames left; and if it still has its client then,
  nothing is left.\<close>

lemma egress_finish_returns:
  assumes "shut fd" "0 < tn_max_frames (e_tuning s)" "list_all (stop_seen \<circ> ev_wait) envs"
    and "(if e_client s then left fd + 2 else 1) \<le> length envs"
  shows "\<exists>s' fd'. egress_finish pop is_closed envs s fd = Some (s', fd') \<and> shut fd' \<and> (e_client s' \<longrightarrow> left fd' = 0)"
  using assms
proof (induction envs arbitrary: s fd)
  case (Cons env envs)
  obtain stop s1 fd1 where t: "run_turn pop is_closed env s fd = Some (stop, s1, fd1)" "shut fd1" "e_tuning s1 = e_tuning s"
      "if stop then e_client s1 \<longrightarrow> left fd1 = 0 else e_client s \<and> (\<not> e_client s1 \<or> left fd1 < left fd)"
    using run_turn_shut [OF Cons.prems(1,2), of env] Cons.prems(3) by auto
  show ?case
  proof (cases stop)
    case True
    then show ?thesis using t by auto
  next
    case False
    then have "(if e_client s1 then left fd1 + 2 else 1) \<le> length envs" using t(4) Cons.prems(4) by (auto split: if_splits)
    then show ?thesis using Cons.IH [OF t(2)] t False Cons.prems(2,3) by simp
  qed
qed (simp split: if_splits)

end

text \<open>A thread that returns with a client has seen its feed closed, and has emptied it.\<close>

lemma wait_stopped: "wait_for_client es s = (Stopped, s') \<Longrightarrow> \<not> e_client s'"
  by (induction es arbitrary: s) (auto split: if_splits accept_event.splits)

lemma run_turn_returned:
  assumes "run_turn pop is_closed env s fd = Some (True, s', fd')" "e_client s'"
  shows "is_closed fd'" "\<exists>u. take_batch pop env u fd = Some ([], s', fd')"
proof -
  obtain r s1 where w: "wait_for_client (ev_wait env) s = (r, s1)" by fastforce
  have "r \<noteq> Stopped" using assms w wait_stopped by (auto simp: run_turn_def)
  then obtain u where "serve_client pop is_closed env u fd = Some (True, s', fd')"
    using assms(1) w by (cases r) (auto simp: run_turn_def split: prod.splits if_splits bool.splits)
  then show "is_closed fd'" "\<exists>u. take_batch pop env u fd = Some ([], s', fd')"
    by (auto simp: serve_client_def bind_eq_Some_conv split: if_splits)
qed

lemma take_batch_tuning: "take_batch pop env u fd = Some (batch, s, fd') \<Longrightarrow> e_tuning s = e_tuning u"
  by (auto simp: take_batch_def coalesce_def bind_eq_Some_conv split: if_splits)

lemma sent_from_mono: "sent_from good e \<Longrightarrow> (\<And>f. good f \<Longrightarrow> good' f) \<Longrightarrow> sent_from good' e"
  unfolding sent_from_def list_all_iff by blast

text \<open>A closed queue refuses what is pushed.\<close>

definition queue_shut :: "queue_feed \<Rightarrow> bool" where
  "queue_shut s \<longleftrightarrow> bq_inv (snd s) \<and> q_closed (snd s)"

definition queue_left :: "queue_feed \<Rightarrow> nat" where
  "queue_left s = length (bq_view (snd s))"

interpretation closed_queue: closed_feed queue_feed_pop queue_feed_closed queue_shut queue_left
proof unfold_locales
  fix s :: queue_feed and n :: nat
  assume "queue_shut s" and n: "0 < n"
  obtain arr q where s: "s = (arr, q)" by fastforce
  have q: "bq_inv q" "q_closed q" using \<open>queue_shut s\<close> by (simp_all add: s queue_shut_def)
  obtain fs q' where p: "pop_batch n q = (fs, q')" by fastforce
  then have "fs = take n (bq_view q)" "bq_view q' = drop n (bq_view q)" "bq_inv q'" "q_closed q'"
    using pop_batch_facts [OF q(1), of n] q(2) by auto
  moreover have "queue_feed_pop n s = Some (fs, (tl arr, q'))"
    using p push_batch_facts(9) [OF q] by (cases arr) (simp_all add: queue_feed_pop_def s)
  ultimately show "\<exists>fs s'. queue_feed_pop n s = Some (fs, s') \<and> queue_shut s' \<and>
      (if fs = [] then queue_left s' = 0 else queue_left s' < queue_left s)"
    using n by (auto simp: queue_shut_def queue_left_def s)
qed (simp add: queue_shut_def queue_feed_closed_def)

text \<open>A ring takes what is published also when it is closed: the ingest threads have to be stopped before.\<close>

definition ring_shut :: "ring_feed \<Rightarrow> bool" where
  "ring_shut s \<longleftrightarrow> (\<exists>L lo. ring_feeds L lo s) \<and> rf_arrivals s = [] \<and> r_closed (rf_ring s)"

definition ring_left :: "ring_feed \<Rightarrow> nat" where
  "ring_left s = unat (r_write_pos (rf_ring s) - cur_next (rf_cursor s))"

lemma ring_left_held:
  assumes "ring_feeds L lo s" "rf_arrivals s = []"
  shows "ring_left s = length L - unat (cur_next (rf_cursor s))"
proof -
  have "r_write_pos (rf_ring s) = of_nat (length L)" "length L \<le> 2 ^ 62" "unat (cur_next (rf_cursor s)) \<le> length L"
    using assms by (auto simp: ring_feeds_def reads_from_def ring_holds_def published_to_def)
  moreover from this have "unat (of_nat (length L) :: u64) = length L" by (simp add: unat_of_nat_small)
  ultimately show ?thesis by (simp add: ring_left_def unat_sub_le word_le_nat_alt)
qed

lemma feed_read_alone:
  assumes "ring_feeds L lo s" "rf_arrivals s = []" "0 < n"
  obtains fs c where "feed_read n s = Some (fs, s\<lparr>rf_cursor := c\<rparr>)" "ring_feeds L (resume_at lo fs) (s\<lparr>rf_cursor := c\<rparr>)"
    "if fs = [] then unat (cur_next c) = length L else unat (cur_next (rf_cursor s)) < unat (cur_next c)"
    "unat (cur_next c) \<le> length L"
proof -
  let ?r = "rf_ring s" and ?c = "rf_cursor s"
  have L: "ring_holds ?r L" "length L \<le> 2 ^ 62" "unat (cur_next ?c) \<le> length L"
    using assms(1,2) by (auto simp: ring_feeds_def reads_from_def)
  define start where "start = max (unat (cur_next ?c)) (length L - cap ?r)"
  define stop where "stop = min (length L) (start + n)"
  let ?d = "\<lparr>cur_next = of_nat stop, cur_missed = cur_missed ?c + of_nat (start - unat (cur_next ?c))\<rparr>"
  let ?fs = "map (frame_at L) [start..<stop]"
  have b: "unat (cur_next ?c) \<le> start" "start \<le> stop" "stop \<le> length L" using L(3) by (auto simp: start_def stop_def)
  have u: "unat (cur_next ?d) = stop" using b(3) L(2) by (simp add: unat_of_nat_small)
  have read: "feed_read n s = Some (?fs, s\<lparr>rf_cursor := ?d\<rparr>)"
    using read_loop_returns [OF L assms(3) start_def stop_def, of "[]"] assms(2) by (simp add: feed_read_def)
  moreover have "ring_feeds L (resume_at lo ?fs) (s\<lparr>rf_cursor := ?d\<rparr>)"
    by (rule feed_read_promise [OF assms(1), of n]) (use read in auto)
  moreover have "if ?fs = [] then stop = length L else unat (cur_next ?c) < stop"
    using b assms(3) by (auto simp: stop_def min_def split: if_splits)
  ultimately show thesis using that [of ?fs ?d] u b(3) by simp
qed

interpretation closed_ring: closed_feed ring_feed_pop ring_feed_closed ring_shut ring_left
proof unfold_locales
  fix s :: ring_feed and n :: nat
  assume shut: "ring_shut s" and n: "0 < n"
  then obtain L lo where L: "ring_feeds L lo s" "rf_arrivals s = []" by (auto simp: ring_shut_def)
  obtain fs c where r: "feed_read n s = Some (fs, s\<lparr>rf_cursor := c\<rparr>)" "ring_feeds L (resume_at lo fs) (s\<lparr>rf_cursor := c\<rparr>)"
      "if fs = [] then unat (cur_next c) = length L else unat (cur_next (rf_cursor s)) < unat (cur_next c)"
      "unat (cur_next c) \<le> length L"
    by (rule feed_read_alone [OF L n])
  let ?s = "s\<lparr>rf_cursor := c\<rparr>"
  have left: "ring_left ?s = length L - unat (cur_next c)" "ring_left s = length L - unat (cur_next (rf_cursor s))"
    using ring_left_held [OF r(2)] ring_left_held [OF L] L(2) by simp_all
  have "ring_shut ?s" "ring_shut (publish_stats m ?s)" "ring_left (publish_stats m ?s) = ring_left ?s" for m
    using r(2) shut by (auto simp: ring_shut_def publish_stats_def ring_feeds_def ring_left_def)
  then show "\<exists>fs s'. ring_feed_pop n s = Some (fs, s') \<and> ring_shut s' \<and>
      (if fs = [] then ring_left s' = 0 else ring_left s' < ring_left s)"
    using r(1,3,4) left shut by (auto simp: ring_feed_pop_def ring_shut_def)
qed (simp add: ring_shut_def ring_feed_closed_def)

text \<open>Closing makes a feed such a feed.\<close>

locale closable_feed = closed_feed pop is_closed shut left
  for pop :: "nat \<Rightarrow> 'f \<Rightarrow> (frame list \<times> 'f) option" and is_closed shut :: "'f \<Rightarrow> bool" and left :: "'f \<Rightarrow> nat" +
  fixes close :: "'f \<Rightarrow> 'f" and steady :: "'f \<Rightarrow> bool"
  assumes close_shut: "steady fd \<Longrightarrow> shut (close fd)"

definition egress_heeds :: "('f \<Rightarrow> nat) \<Rightarrow> run_env list \<Rightarrow> 'f egress_service \<Rightarrow> bool" where
  "egress_heeds left envs s \<longleftrightarrow> list_all (stop_seen \<circ> ev_wait) envs \<and>
     left (sv_feed s) + 2 \<le> length envs"

sublocale closable_feed < thread: stoppable "\<lambda>s. s\<lparr>sv_feed := close (sv_feed s)\<rparr>" "egress_join pop is_closed"
  "\<lambda>s. 0 < tn_max_frames (e_tuning (sv_egress s)) \<and> steady (sv_feed s)" "egress_heeds left"
  "\<lambda>envs s s'. egress_run pop is_closed envs (sv_egress s) (sv_feed s) = Some (sv_egress s', sv_feed s') \<and>
     shut (sv_feed s') \<and> (e_client (sv_egress s') \<longrightarrow> left (sv_feed s') = 0)"
proof unfold_locales
  fix s :: "'f egress_service" and envs
  let ?s = "s\<lparr>sv_feed := close (sv_feed s)\<rparr>"
  assume "0 < tn_max_frames (e_tuning (sv_egress s)) \<and> steady (sv_feed s)" and h: "egress_heeds left envs ?s"
  moreover have "(if e_client (sv_egress s) then left (close (sv_feed s)) + 2 else 1) \<le> length envs"
    using h by (simp add: egress_heeds_def)
  ultimately obtain e fd where "egress_finish pop is_closed envs (sv_egress s) (close (sv_feed s)) = Some (e, fd)" "shut fd"
      "e_client e \<longrightarrow> left fd = 0"
    using egress_finish_returns [OF close_shut, of "sv_feed s" "sv_egress s" envs] by (auto simp: egress_heeds_def)
  then show "\<exists>s'. egress_join pop is_closed envs ?s = Some s' \<and>
      egress_run pop is_closed envs (sv_egress ?s) (sv_feed ?s) = Some (sv_egress s', sv_feed s') \<and>
      shut (sv_feed s') \<and> (e_client (sv_egress s') \<longrightarrow> left (sv_feed s') = 0)"
    using egress_finish_run by (intro exI [of _ "?s\<lparr>sv_egress := e, sv_feed := fd\<rparr>"]) (auto simp: egress_join_def)
qed auto

lemma close_queue_span: "queue_span hi lo ([], q) \<Longrightarrow> queue_span hi lo (queue_feed_close ([], q))"
  by (simp add: queue_span_def queue_from_def queue_feed_close_def q_close_def bq_inv_def bq_view_def Let_def)

lemma close_ring_feeds: "ring_feeds L lo s \<Longrightarrow> ring_feeds L lo (ring_feed_close s)"
  using ring_holds_cong [of "ring_close (rf_ring s)" "rf_ring s"]
  by (simp add: ring_feeds_def reads_from_def ring_feed_close_def ring_close_def)

interpretation stopping_queue: closable_feed queue_feed_pop queue_feed_closed queue_shut queue_left queue_feed_close
  "\<lambda>s. bq_inv (snd s)"
  by unfold_locales (auto simp: queue_shut_def queue_feed_close_def q_close_def bq_inv_def)

interpretation stopping_ring: closable_feed ring_feed_pop ring_feed_closed ring_shut ring_left ring_feed_close
  "\<lambda>s. (\<exists>L lo. ring_feeds L lo s) \<and> rf_arrivals s = []"
proof unfold_locales
  fix s :: ring_feed
  assume "(\<exists>L lo. ring_feeds L lo s) \<and> rf_arrivals s = []"
  then show "ring_shut (ring_feed_close s)"
    using close_ring_feeds [of _ _ s] by (fastforce simp: ring_shut_def ring_feed_close_def ring_close_def)
qed


section \<open>Nothing is forgotten\<close>

text \<open>The egress thread of a consumer whose ingest has ended, when it is stopped: \<open>stop\<close> returns; and a client that is
  still connected then has been sent a record for every sequence number up to the last one.\<close>

definition stopped_at :: "nat \<Rightarrow> 'f egress_service \<Rightarrow> bool" where
  "stopped_at hi s \<longleftrightarrow> \<not> wk_started s \<and> head_inv (sv_egress s) \<and> (e_client (sv_egress s) \<longrightarrow> unat (e_next_seq (sv_egress s)) = hi)"

lemma queue_egress_stops:
  assumes "head_inv (sv_egress s)" "queue_span hi (unat (e_next_seq (sv_egress s))) (sv_feed s)" "fst (sv_feed s) = []"
    and "wk_started s" "wk_joinable s" "\<not> wk_returned s" "list_all (stop_seen \<circ> ev_wait) envs" "queue_left (sv_feed s) + 2 \<le> length envs"
  shows "\<exists>s'. egress_stop queue_feed_pop queue_feed_closed queue_feed_close envs s = Some s' \<and> stopped_at hi s' \<and>
    egress_run queue_feed_pop queue_feed_closed envs (sv_egress s) (queue_feed_close (sv_feed s)) = Some (sv_egress s', sv_feed s')"
proof -
  have "0 < tn_max_frames (e_tuning (sv_egress s)) \<and> bq_inv (snd (sv_feed s))"
    using assms(1,2) by (simp add: head_inv_def queue_span_def queue_from_def)
  moreover have "egress_heeds queue_left envs (s\<lparr>wk_event := raise_event (wk_event s), sv_feed := queue_feed_close (sv_feed s)\<rparr>)"
    using assms(7,8) by (simp add: egress_heeds_def queue_left_def queue_feed_close_def q_close_def bq_view_def)
  ultimately obtain s' where s': "egress_stop queue_feed_pop queue_feed_closed queue_feed_close envs s = Some s'" "\<not> wk_started s'"
      "egress_run queue_feed_pop queue_feed_closed envs (sv_egress s) (queue_feed_close (sv_feed s)) = Some (sv_egress s', sv_feed s')"
      "queue_shut (sv_feed s')" "e_client (sv_egress s') \<longrightarrow> queue_left (sv_feed s') = 0"
    using stopping_queue.thread.stop_returns [of s envs] assms(4-6) by (auto simp: egress_stop_def)
  have "queue_span hi (unat (e_next_seq (sv_egress s))) (queue_feed_close (sv_feed s))"
    using close_queue_span [of hi _ "snd (sv_feed s)"] assms(2,3) by (metis prod.collapse)
  from qs.egress_run_inv [OF assms(1) this, of queue_feed_closed envs] s'(3)
  have "head_inv (sv_egress s')" "queue_span hi (unat (e_next_seq (sv_egress s'))) (sv_feed s')" by auto
  then show ?thesis using s'
    by (auto simp: stopped_at_def queue_span_def queue_shut_def queue_left_def bq_open_def Let_def)
qed

lemma ring_egress_stops:
  assumes "head_inv (sv_egress s)" "ring_feeds L (unat (e_next_seq (sv_egress s))) (sv_feed s)" "rf_arrivals (sv_feed s) = []"
    and "wk_started s" "wk_joinable s" "\<not> wk_returned s" "list_all (stop_seen \<circ> ev_wait) envs" "ring_left (sv_feed s) + 2 \<le> length envs"
  shows "\<exists>s'. egress_stop ring_feed_pop ring_feed_closed ring_feed_close envs s = Some s' \<and> stopped_at (length L) s' \<and>
    egress_run ring_feed_pop ring_feed_closed envs (sv_egress s) (ring_feed_close (sv_feed s)) = Some (sv_egress s', sv_feed s')"
proof -
  have "0 < tn_max_frames (e_tuning (sv_egress s)) \<and> (\<exists>L lo. ring_feeds L lo (sv_feed s)) \<and> rf_arrivals (sv_feed s) = []"
    using assms(1-3) by (auto simp: head_inv_def)
  moreover have "egress_heeds ring_left envs (s\<lparr>wk_event := raise_event (wk_event s), sv_feed := ring_feed_close (sv_feed s)\<rparr>)"
    using assms(7,8) by (simp add: egress_heeds_def ring_left_def ring_feed_close_def ring_close_def)
  ultimately obtain s' where s': "egress_stop ring_feed_pop ring_feed_closed ring_feed_close envs s = Some s'" "\<not> wk_started s'"
      "egress_run ring_feed_pop ring_feed_closed envs (sv_egress s) (ring_feed_close (sv_feed s)) = Some (sv_egress s', sv_feed s')"
      "ring_shut (sv_feed s')" "e_client (sv_egress s') \<longrightarrow> ring_left (sv_feed s') = 0"
    using stopping_ring.thread.stop_returns [of s envs] assms(4-6) by (auto simp: egress_stop_def)
  from rs.egress_run_inv [OF assms(1) close_ring_feeds [OF assms(2)], of ring_feed_closed envs] s'(3)
  have inv: "head_inv (sv_egress s')" and fd: "ring_feeds L (unat (e_next_seq (sv_egress s'))) (sv_feed s')" by auto
  have arr: "rf_arrivals (sv_feed s') = []" using s'(4) by (simp add: ring_shut_def)
  have "unat (e_next_seq (sv_egress s')) = length L" if "ring_left (sv_feed s') = 0"
    using that ring_left_held [OF fd arr] fd arr by (auto simp: ring_feeds_def reads_from_def)
  then show ?thesis using s' inv by (auto simp: stopped_at_def)
qed

text \<open>A consumer while the gateway runs: its egress thread has taken some turns, and the ingest has put some of its
  frames, \<open>frames\<close> in the end, into the feed.\<close>

definition serving :: "'f egress_service \<Rightarrow> bool" where
  "serving s \<longleftrightarrow> wk_started s \<and> wk_joinable s \<and> \<not> wk_returned s"

definition queue_serving :: "frame list \<Rightarrow> queue_feed egress_service \<Rightarrow> bool" where
  "queue_serving frames s \<longleftrightarrow> serving s \<and>
     (\<exists>t arrivals capacity turns. 0 < tn_max_frames t \<and> tn_max_frames t \<le> kMaxBatch \<and> concat arrivals = frames \<and>
        egress_run queue_feed_pop queue_feed_closed turns (egress_new t) (arrivals, bq_new zero_frame capacity) =
          Some (sv_egress s, sv_feed s))"

definition ring_serving :: "ring \<Rightarrow> frame list \<Rightarrow> ring_feed egress_service \<Rightarrow> bool" where
  "ring_serving r frames s \<longleftrightarrow> serving s \<and>
     (\<exists>t arrivals turns. 0 < tn_max_frames t \<and> tn_max_frames t \<le> kMaxBatch \<and> concat arrivals = frames \<and>
        egress_run ring_feed_pop ring_feed_closed turns (egress_new t) ((ring_feed_new r)\<lparr>rf_arrivals := arrivals\<rparr>) =
          Some (sv_egress s, sv_feed s))"

text \<open>Turns \<open>es\<close> that such a thread can take after \<open>stop\<close>, and enough of them when there have been \<open>n\<close> frames.\<close>

definition enough :: "nat \<Rightarrow> run_env list \<Rightarrow> bool" where
  "enough n es \<longleftrightarrow> list_all (stop_seen \<circ> ev_wait) es \<and> n + 2 \<le> length es"

lemma ascends_length: "ascends lo fs \<Longrightarrow> fs \<noteq> [] \<Longrightarrow> lo + length fs \<le> Suc (unat (seq (last fs)))"
proof (induction fs arbitrary: lo)
  case (Cons f fs)
  then show ?case using Cons.IH [of "Suc (unat (seq f))"] by (cases "fs = []") (auto simp: ascends_Cons)
qed simp

lemma queue_span_left: "queue_span hi lo ([], q) \<Longrightarrow> queue_left ([], q) \<le> hi"
  using ascends_length [of lo "bq_view q"]
  by (auto simp: queue_span_def queue_from_def queue_left_def Let_def split: if_splits)

lemma queue_settles:
  assumes "queue_span hi lo (arr, q)" "queue_within G (arr, q)"
  shows "queue_span hi lo ([], fold (\<lambda>fs q. snd (push_batch fs q)) arr q) \<and>
    queue_within G ([], fold (\<lambda>fs q. snd (push_batch fs q)) arr q)"
  using assms
proof (induction arr arbitrary: q)
  case (Cons a arr)
  then show ?case using push_batch_span push_batch_within by (metis (no_types, lifting) fold_simps(2))
qed simp

lemma ring_settles:
  assumes "reads_from L lo c r arr"
  shows "\<exists>r'. ring_published arr r = Some r' \<and> reads_from L lo c r' []"
  using assms
proof (induction arr arbitrary: r)
  case (Cons a arr)
  obtain n r' where "publish_batch a r = Some (n, r')" "reads_from L lo c r' arr"
    by (rule publish_reads_from [OF Cons.prems])
  then show ?case using Cons.IH [of r'] by simp
qed simp

lemma close_queue_within: "queue_within G s \<Longrightarrow> queue_within G (queue_feed_close s)"
  by (cases s) (simp add: queue_within_def queue_feed_close_def q_close_def bq_inv_def bq_view_def Let_def)

lemma queue_consumer_stops:
  assumes "queue_serving frames s" "counted frames" "length frames \<le> 2 ^ 62" "enough (length frames) es"
  shows "\<exists>s'. Option.bind (queue_settled s) (egress_stop queue_feed_pop queue_feed_closed queue_feed_close es) = Some s' \<and>
    stopped_at (length frames) s' \<and> sent_from (\<lambda>f. f \<in> set frames) (sv_egress s')"
proof -
  obtain t arrivals capacity turns where t: "serving s" "0 < tn_max_frames t" "tn_max_frames t \<le> kMaxBatch" "concat arrivals = frames"
      "egress_run queue_feed_pop queue_feed_closed turns (egress_new t) (arrivals, bq_new zero_frame capacity) = Some (sv_egress s, sv_feed s)"
    using assms(1) by (auto simp: queue_serving_def)
  obtain arr q where fd: "sv_feed s = (arr, q)" by fastforce
  note feeds = fan_out_feeds [OF assms(2,3) t(4), of capacity]
  have e: "head_inv (sv_egress s)" "queue_span (length frames) (unat (e_next_seq (sv_egress s))) (arr, q)"
      "queue_within (set frames) (arr, q)" "sent_from (\<lambda>f. f \<in> set frames) (sv_egress s)"
    using queue_egress [OF t(2,3) conjunct1 [OF feeds] conjunct2 [OF feeds], of queue_feed_closed turns] t(5) fd by auto
  define u where "u = s\<lparr>sv_feed := ([], fold (\<lambda>fs q. snd (push_batch fs q)) arr q)\<rparr>"
  have u: "queue_settled s = Some u" by (simp add: queue_settled_def u_def fd)
  have fu: "queue_span (length frames) (unat (e_next_seq (sv_egress u))) (sv_feed u)" "queue_within (set frames) (sv_feed u)"
    "fst (sv_feed u) = []" "sv_egress u = sv_egress s"
    using queue_settles [OF e(2,3)] by (simp_all add: u_def)
  have "list_all (stop_seen \<circ> ev_wait) es" "queue_left (sv_feed u) + 2 \<le> length es"
    using assms(4) queue_span_left [of "length frames" _ "snd (sv_feed u)"] fu(1) by (fastforce simp: enough_def u_def)+
  then obtain s' where s': "egress_stop queue_feed_pop queue_feed_closed queue_feed_close es u = Some s'" "stopped_at (length frames) s'"
      "egress_run queue_feed_pop queue_feed_closed es (sv_egress u) (queue_feed_close (sv_feed u)) = Some (sv_egress s', sv_feed s')"
    using queue_egress_stops [of u "length frames" es] e(1) fu t(1) by (auto simp: serving_def u_def)
  then have "sent_from (\<lambda>f. f \<in> set frames) (sv_egress s')"
    using qc.egress_run_contained [OF close_queue_within [OF fu(2)], of "sv_egress u" queue_feed_closed es] e(4) fu(4) by simp
  then show ?thesis using s' u by simp
qed

lemma ring_consumer_stops:
  assumes "ring_serving r frames s" "ring_new capacity = Some r" "list_all bus_frame frames" "length frames \<le> 2 ^ 62"
    and "enough (length frames) es"
  shows "\<exists>s'. Option.bind (ring_settled s) (egress_stop ring_feed_pop ring_feed_closed ring_feed_close es) = Some s' \<and>
    stopped_at (length frames) s' \<and> sent_from (of_log frames) (sv_egress s')"
proof -
  obtain t arrivals turns where t: "serving s" "0 < tn_max_frames t" "tn_max_frames t \<le> kMaxBatch" "concat arrivals = frames"
      "egress_run ring_feed_pop ring_feed_closed turns (egress_new t) ((ring_feed_new r)\<lparr>rf_arrivals := arrivals\<rparr>) = Some (sv_egress s, sv_feed s)"
    using assms(1) by (auto simp: ring_serving_def)
  then have e: "head_inv (sv_egress s)" "ring_feeds frames (unat (e_next_seq (sv_egress s))) (sv_feed s)"
      "sent_from (of_log frames) (sv_egress s)"
    using ring_egress [OF t(2,3) ring_ingest_feeds [OF assms(2-4) t(4)], of ring_feed_closed turns] by auto
  then obtain r' where r': "ring_published (rf_arrivals (sv_feed s)) (rf_ring (sv_feed s)) = Some r'"
      "reads_from frames (unat (e_next_seq (sv_egress s))) (rf_cursor (sv_feed s)) r' []"
    using ring_settles unfolding ring_feeds_def by blast
  define u where "u = s\<lparr>sv_feed := (sv_feed s)\<lparr>rf_ring := r', rf_arrivals := []\<rparr>\<rparr>"
  have u: "ring_settled s = Some u" using r'(1) by (simp add: ring_settled_def u_def)
  have fu: "ring_feeds frames (unat (e_next_seq (sv_egress u))) (sv_feed u)" "rf_arrivals (sv_feed u) = []" "sv_egress u = sv_egress s"
    using r'(2) by (simp_all add: u_def ring_feeds_def)
  have "list_all (stop_seen \<circ> ev_wait) es" "ring_left (sv_feed u) + 2 \<le> length es"
    using assms(5) ring_left_held [OF fu(1,2)] by (auto simp: enough_def)
  then obtain s' where s': "egress_stop ring_feed_pop ring_feed_closed ring_feed_close es u = Some s'" "stopped_at (length frames) s'"
      "egress_run ring_feed_pop ring_feed_closed es (sv_egress u) (ring_feed_close (sv_feed u)) = Some (sv_egress s', sv_feed s')"
    using ring_egress_stops [of u frames es] e(1) fu t(1) by (auto simp: serving_def u_def)
  have "\<exists>lo. ring_feeds frames lo (ring_feed_close (sv_feed u))" using close_ring_feeds [OF fu(1)] by blast
  then have "sent_from (of_log frames) (sv_egress s')"
    using rc.egress_run_contained [of frames "ring_feed_close (sv_feed u)" "sv_egress u" ring_feed_closed es] e(3) fu(3) s'(3) by auto
  then show ?thesis using s' u by simp
qed

text \<open>The first turn of an egress whose client connects while its feed has nothing.\<close>

lemma first_turn_empty:
  assumes "pop (tn_max_frames t) fd = Some ([], fd')"
  shows "run_turn pop is_closed quiet_env (egress_new t) fd =
    Some (is_closed fd', (egress_new t)\<lparr>e_client := True, e_connected := True, e_connects := 1\<rparr>, fd')"
proof -
  let ?e = "(egress_new t)\<lparr>e_client := True, e_connected := True, e_connects := 1\<rparr>"
  have d: "drain_replies [] n ?e = ?e" for n by (simp add: drain_replies_def egress_new_def kRecordSize_def kHeaderSize_def parse_replies.simps)
  have w: "wait_for_client (ev_wait quiet_env) (egress_new t) = (HasClient, ?e)" by (simp add: quiet_env_def egress_new_def)
  have e: "e_pending ?e = []" "e_client ?e" "e_tuning ?e = t" "ev_hup quiet_env = False" "ev_recv quiet_env = []" by (simp_all add: egress_new_def quiet_env_def)
  have t: "e_tuning (egress_new t) = t" by (simp add: egress_new_def)
  show ?thesis unfolding run_turn_def w client_gone_def serve_client_def take_batch_def prod.case wait_result.case e d using assms
    by (simp add: d t)
qed

end
