(* ===== verification/Printing.thy ===== *)
theory Printing
  imports Text Samples
begin

text \<open>
  The conversions of \<^verbatim>\<open>printf\<close> that the programs use, and the CSV file of \<^verbatim>\<open>src/samples.cpp\<close>: what is written can be
  read back.
\<close>

section \<open>Conversions\<close>

definition dec_u :: "'a::len word \<Rightarrow> string" where
  "dec_u w = to_dec (unat w)"

definition dec_i :: "int \<Rightarrow> string" where
  "dec_i i = (if i < 0 then ''-'' @ to_dec (nat (- i)) else to_dec (nat i))"

text \<open>\<^verbatim>\<open>%*s\<close>, \<^verbatim>\<open>%-*s\<close> and \<^verbatim>\<open>%0*\<close>: at least \<open>n\<close> characters wide.\<close>

definition pad_left :: "nat \<Rightarrow> string \<Rightarrow> string" where
  "pad_left n s = replicate (n - length s) CHR '' '' @ s"

definition pad_right :: "nat \<Rightarrow> string \<Rightarrow> string" where
  "pad_right n s = s @ replicate (n - length s) CHR '' ''"

definition pad_zero :: "nat \<Rightarrow> string \<Rightarrow> string" where
  "pad_zero n s = replicate (n - length s) CHR ''0'' @ s"

text \<open>\<^verbatim>\<open>%X\<close>.\<close>

definition hex_digit :: "nat \<Rightarrow> char" where
  "hex_digit d = ''0123456789ABCDEF'' ! d"

fun to_hex :: "nat \<Rightarrow> string" where
  "to_hex n = (if n < 16 then [hex_digit n] else to_hex (n div 16) @ [hex_digit (n mod 16)])"

declare to_hex.simps [simp del]

text \<open>\<^verbatim>\<open>%.kf\<close>: the exact value of the double, rounded to \<open>k\<close> places, ties to even; the sign is kept when it rounds to 0.\<close>

definition fixed :: "nat \<Rightarrow> rat \<Rightarrow> string" where
  "fixed k x =
     (let n = nat (round_even (\<bar>x\<bar> * 10 ^ k))
      in (if x < 0 then ''-'' else []) @ to_dec (n div 10 ^ k) @
         (if k = 0 then [] else ''.'' @ pad_zero k (to_dec (n mod 10 ^ k))))"

definition newline :: string where "newline = [CHR 0x0A]"

definition is_digit :: "nat \<Rightarrow> char \<Rightarrow> bool" where
  "is_digit base c \<longleftrightarrow> digit_value base c \<noteq> None"

lemma to_dec_is_digit: "c \<in> set (to_dec n) \<Longrightarrow> is_digit 10 c"
  using to_dec_digits digit_value_digit by (fastforce simp: is_digit_def)

lemma digits_to_dec_acc: "digits 10 acc (to_dec n) = acc * 10 ^ length (to_dec n) + n"
proof (induction n arbitrary: acc rule: to_dec.induct)
  case (1 n)
  show ?case
  proof (cases "n < 10")
    case True
    then show ?thesis by (simp add: to_dec.simps [of n] digit_value_digit)
  next
    case False
    have "\<forall>c \<in> set (to_dec (n div 10)). digit_value 10 c \<noteq> None" using to_dec_is_digit by (auto simp: is_digit_def)
    then show ?thesis using False 1 [of acc]
      by (simp add: to_dec.simps [of n] digits_append digit_value_digit algebra_simps)
  qed
qed

lemma length_to_dec: "n < 10 ^ Suc k \<Longrightarrow> length (to_dec n) \<le> Suc k"
proof (induction k arbitrary: n)
  case 0
  then show ?case by (simp add: to_dec.simps [of n])
next
  case (Suc k)
  then have "n div 10 < 10 ^ Suc k" by (simp add: less_mult_imp_div_less mult.commute)
  then show ?case using Suc.IH [of "n div 10"] by (simp add: to_dec.simps [of n])
qed

section \<open>The CSV file\<close>

definition csv_text :: "string \<Rightarrow> i64 list \<Rightarrow> string" where
  "csv_text header values = header @ newline @ concat (map (\<lambda>v. dec_i v @ newline) values)"

text \<open>\<open>opened\<close>: \<^verbatim>\<open>fopen\<close> succeeds. The result, and the file when there is one.\<close>

definition write_csv :: "bool \<Rightarrow> string \<Rightarrow> samples \<Rightarrow> bool \<times> string option" where
  "write_csv opened header s =
     (if \<not> opened then (False, None) else (True, Some (csv_text header (sm_values s))))"

text \<open>A reader of such files: lines, the first one a header, the others numbers.\<close>

fun lines_from :: "string \<Rightarrow> string \<Rightarrow> string list" where
  "lines_from line [] = (if line = [] then [] else [line])"
| "lines_from line (c # cs) = (if c = CHR 0x0A then line # lines_from [] cs else lines_from (line @ [c]) cs)"

definition read_csv :: "string \<Rightarrow> (string \<times> i64 list) option" where
  "read_csv text = (case lines_from [] text of [] \<Rightarrow> None | h # ls \<Rightarrow> Some (h, map (strtol 10) ls))"

lemma lines_from_line: "CHR 0x0A \<notin> set l \<Longrightarrow> lines_from p (l @ newline @ rest) = (p @ l) # lines_from [] rest"
  by (induction l arbitrary: p) (auto simp: newline_def)

lemma to_dec_one_line: "CHR 0x0A \<notin> set (to_dec n)"
proof
  assume "CHR 0x0A \<in> set (to_dec n)"
  then obtain d where "d < 10" "CHR 0x0A = digit d" using to_dec_digits by blast
  then have "(of_char (CHR 0x0A) :: nat) = 48 + d" using digit_code by metis
  then show False by simp
qed

lemma dec_i_one_line: "CHR 0x0A \<notin> set (dec_i v)"
  using to_dec_one_line by (simp add: dec_i_def)

lemma number_negative: "number 10 (''-'' @ to_dec n) = (True, n)"
  using digits_to_dec [of "[]" n] by (simp add: number_def skip_0x_def is_space_def)

lemma strtol_dec_i: "- (2 ^ 63) \<le> v \<Longrightarrow> v < 2 ^ 63 \<Longrightarrow> strtol 10 (dec_i v) = v"
  using strtol_to_dec [of "nat v"] number_negative [of "nat (- v)"] by (auto simp: dec_i_def strtol_def)

text \<open>The CSV file that the recorder, the probe and the generator write can be read back: header and retained
  samples, in order, with sign, for all 64-bit values. Nothing is written when the file cannot be opened.\<close>

theorem csv_roundtrip:
  assumes "CHR 0x0A \<notin> set header" "\<forall>v \<in> set (sm_values s). - (2 ^ 63) \<le> v \<and> v < 2 ^ 63"
  shows "write_csv False header s = (False, None) \<and>
    (\<exists>text. write_csv True header s = (True, Some text) \<and> read_csv text = Some (header, sm_values s))"
proof -
  have "map (strtol 10) (lines_from [] (concat (map (\<lambda>v. dec_i v @ newline) vs))) = vs"
    if "\<forall>v \<in> set vs. - (2 ^ 63) \<le> v \<and> v < 2 ^ 63" for vs
    using that by (induction vs) (simp_all add: lines_from_line dec_i_one_line strtol_dec_i)
  then have "read_csv (csv_text header (sm_values s)) = Some (header, sm_values s)"
    using assms by (simp add: read_csv_def csv_text_def lines_from_line)
  then show ?thesis by (simp add: write_csv_def)
qed

theorem csv_roundtrip_witness:
  "let s = samples_add (- 9223372036854775808) (samples_add 0 (samples_add 1042 (samples_new 8))) in
   sm_values s = [1042, 0, - 9223372036854775808] \<and> write_csv False ''pacing_error_ns'' s = (False, None) \<and>
   (\<exists>text. write_csv True ''pacing_error_ns'' s = (True, Some text) \<and> read_csv text = Some (''pacing_error_ns'', sm_values s))"
proof -
  define s where "s = samples_add (- 9223372036854775808) (samples_add 0 (samples_add 1042 (samples_new 8)))"
  have v: "sm_values s = [1042, 0, - 9223372036854775808]" by (simp add: s_def samples_add_def samples_new_def decimate_def Let_def)
  show ?thesis using csv_roundtrip [of "''pacing_error_ns''" s] v unfolding s_def [symmetric] Let_def by simp
qed

end
