(* ===== verification/Gateway_Loop.thy ===== *)
theory Gateway_Loop
  imports Gateway Shutdown Printing
begin

text \<open>
  The gateway's main thread while the others work (\<^verbatim>\<open>src/main.cpp\<close>): it prints what the tap gets, prints a report every
  second, and a summary in the end. Standard output and standard error are texts that grow. What the other threads'
  counters show at a report is part of the script; \<open>stats\<close> of the components are defined with them.
\<close>

section \<open>Lines\<close>


type_synonym row = "string \<times> egress_stats \<times> feed_stats"



definition start_lines :: "gateway_options \<Rightarrow> nat \<Rightarrow> listening list \<Rightarrow> string list \<Rightarrow> string" where
  "start_lines o1 capacity egresses names =
     concat (map (\<lambda>l. ''consumer '' @ pad_right 10 (li_name l) @ '' listening on port '' @ dec_u (li_port l) @ newline) egresses) @
     ''topology '' @ go_topology o1 @ '', '' @ to_dec (length names) @ '' source(s), capacity '' @ to_dec capacity @
     '', batch '' @ to_dec (tn_max_frames (go_tuning o1)) @ '', linger '' @ dec_u (tn_linger_us (go_tuning o1)) @ ''us'' @ newline @
     concat (map (\<lambda>n. ''  source '' @ n @ newline) names)"

text \<open>Every thread is started: the consumers' first, the ingest last.\<close>

definition start_threads :: "'f egress_service list \<Rightarrow> 'i worker_scheme \<Rightarrow> 'f egress_service list \<times> 'i worker_scheme" where
  "start_threads egresses ingest = (map worker_start egresses, worker_start ingest)"

section \<open>The loop\<close>




definition gateway_deadline :: "int \<Rightarrow> u64 \<Rightarrow> u64" where
  "gateway_deadline seconds now = (if seconds > 0 then now + of_int seconds * 1000000000 else - 1)"





section \<open>The summary\<close>

definition source_line :: "string \<times> source_stats \<Rightarrow> string" where
  "source_line = (\<lambda>(name, ss). ''source   '' @ pad_right 10 name @ '' frames='' @ dec_u (ss_frames ss) @
     '' kernel_drops='' @ dec_u (ss_kernel_drops ss) @ '' read_errors='' @ dec_u (ss_read_errors ss) @ newline)"

text \<open>\<open>Inl\<close>: the fan-out thread; \<open>Inr\<close>: so many threads on the ring, and its \<open>claim_retries\<close>.\<close>

definition ingest_line :: "ingest_stats \<Rightarrow> (unit + nat \<times> u64) \<Rightarrow> string" where
  "ingest_line is topology = ''ingest   frames='' @ dec_u (in_frames is) @ '' batches='' @ dec_u (in_batches is) @
     (case topology of
        Inl _ \<Rightarrow> '' threads=1''
      | Inr (n, retries) \<Rightarrow> '' threads='' @ to_dec n @ '' claim_retries='' @ dec_u retries) @ newline"

definition consumer_line :: "row \<Rightarrow> string" where
  "consumer_line = (\<lambda>(name, es, fs).
     ''consumer '' @ pad_right 10 name @ '' sent='' @ dec_u (es_frames_sent es) @ '' bytes='' @ dec_u (es_bytes_sent es) @
     '' batches='' @ dec_u (es_batches_sent es) @ '' dropped='' @ dec_u (fs_dropped fs) @
     '' would_block='' @ dec_u (es_would_block es) @ '' partial='' @ dec_u (es_partial_writes es) @
     '' connects='' @ dec_u (es_connects es) @ '' disconnects='' @ dec_u (es_disconnects es) @
     '' gaps_sent='' @ dec_u (es_gaps_sent es) @ '' frames_lost='' @ dec_u (es_frames_lost es) @
     '' lingered='' @ dec_u (es_lingered es) @ newline)"

definition rtt_line :: "row \<Rightarrow> string" where
  "rtt_line = (\<lambda>(name, es, fs).
     if es_echoes_sent es > 0
     then ''         '' @ pad_right 10 name @ '' rtt sent='' @ dec_u (es_echoes_sent es) @
       '' returned='' @ dec_u (es_echoes_returned es) @ '' lost='' @ dec_u (es_echoes_lost es) @
       '' | p50='' @ fixed 1 (rnd (rnd (of_int (es_rtt_p50_ns es)) / 1000)) @ ''us p99='' @
       fixed 1 (rnd (rnd (of_int (es_rtt_p99_ns es)) / 1000)) @ ''us max='' @
       fixed 1 (rnd (rnd (of_int (es_rtt_max_ns es)) / 1000)) @ ''us | one-way p50 ~'' @
       fixed 1 (rnd (rnd (of_int (es_rtt_p50_ns es)) / 2000)) @ ''us'' @ newline
     else [])"

definition gateway_summary :: "string \<Rightarrow> (string \<times> source_stats) list \<Rightarrow> ingest_stats \<Rightarrow> (unit + nat \<times> u64) \<Rightarrow> row list \<Rightarrow> string" where
  "gateway_summary topology sources is t rows =
     newline @ ''topology '' @ topology @ newline @ concat (map source_line sources) @ ingest_line is t @
     concat (map (\<lambda>r. consumer_line r @ rtt_line r) rows)"

section \<open>Reports\<close>





section \<open>The tap is a consumer like any other\<close>








end
