(* ===== verification/Cadence.thy ===== *)
theory Cadence
  imports Wire Double
begin

text \<open>
  The per-id cadence monitor (\<^verbatim>\<open>src/cadence.hpp\<close>): it learns the period of every CAN id and flags an
  interval that is too long, except across a loss. The threshold is a double product converted to
  64 bits; the conversion is undefined behaviour in C++ when the value does not fit, and \<open>observe\<close> has
  no value there. The specification reads intervals off the whole history of records; the monitor,
  which only keeps a few words per id, flags exactly what the specification says.
\<close>

section \<open>State and operations\<close>

record id_stats =
  is_frames :: u64
  is_expected_ns :: u64
  is_anomalies :: u64
  is_suppressed :: u64
  is_worst_ns :: u64

record id_state =
  cs_last_ns :: u64
  cs_have_last :: bool
  cs_resync :: bool
  cs_samples :: "u64 list"
  cs_stats :: id_stats

definition id_state0 :: id_state where
  "id_state0 = \<lparr>cs_last_ns = 0, cs_have_last = False, cs_resync = False, cs_samples = [],
     cs_stats = \<lparr>is_frames = 0, is_expected_ns = 0, is_anomalies = 0, is_suppressed = 0, is_worst_ns = 0\<rparr>\<rparr>"

record monitor =
  cm_calibrate :: nat
  cm_factor :: rat
  cm_gap_aware :: bool
  cm_ids :: "u32 \<rightharpoonup> id_state"
  cm_frames :: u64
  cm_anomalies :: u64
  cm_suppressed :: u64
  cm_markers :: u64
  cm_reported_lost :: u64

definition monitor_new :: "nat \<Rightarrow> rat \<Rightarrow> bool \<Rightarrow> monitor" where
  "monitor_new calibration_samples factor gap_aware =
     \<lparr>cm_calibrate = (if calibration_samples < 2 then 2 else calibration_samples),
      cm_factor = (if factor < 1 then 1 else factor), cm_gap_aware = gap_aware, cm_ids = Map.empty,
      cm_frames = 0, cm_anomalies = 0, cm_suppressed = 0, cm_markers = 0, cm_reported_lost = 0\<rparr>"

definition reset_all :: "monitor \<Rightarrow> monitor" where
  "reset_all m = m\<lparr>cm_ids := map_option (\<lambda>s. s\<lparr>cs_resync := True\<rparr>) \<circ> cm_ids m\<rparr>"

text \<open>The comparison with \<open>static_cast<uint64_t>(factor_ * double(expected))\<close>.\<close>

definition too_long :: "rat \<Rightarrow> u64 \<Rightarrow> u64 \<Rightarrow> bool option" where
  "too_long factor expected dt =
     (let x = rnd (factor * rnd (of_nat (unat expected)))
      in if x < 2 ^ 64 then Some (int (unat dt) > \<lfloor>x\<rfloor>) else None)"

definition median :: "u64 list \<Rightarrow> u64" where
  "median v = sort v ! (length v div 2)"

text \<open>The second half of \<open>observe\<close>: interval \<open>dt\<close> of the id with state \<open>s\<close>, whose time is already noted.
  The results are the flag, the new state of the id and the two totals.\<close>

definition check_interval :: "monitor \<Rightarrow> u64 \<Rightarrow> id_state \<Rightarrow> (bool \<times> id_state \<times> u64 \<times> u64) option" where
  "check_interval m dt s =
     (if cs_resync s then
        Some (False, s\<lparr>cs_resync := False, cs_stats := (cs_stats s)\<lparr>is_suppressed := is_suppressed (cs_stats s) + 1\<rparr>\<rparr>,
              cm_anomalies m, cm_suppressed m + 1)
      else if length (cs_samples s) < cm_calibrate m then
        (let s = s\<lparr>cs_samples := cs_samples s @ [dt]\<rparr>;
             s = (if length (cs_samples s) = cm_calibrate m
                  then s\<lparr>cs_stats := (cs_stats s)\<lparr>is_expected_ns := median (cs_samples s)\<rparr>\<rparr> else s)
         in Some (False, s, cm_anomalies m, cm_suppressed m))
      else case too_long (cm_factor m) (is_expected_ns (cs_stats s)) dt of
        None \<Rightarrow> None
      | Some False \<Rightarrow> Some (False, s, cm_anomalies m, cm_suppressed m)
      | Some True \<Rightarrow>
          Some (True, s\<lparr>cs_stats := (cs_stats s)\<lparr>is_anomalies := is_anomalies (cs_stats s) + 1,
                  is_worst_ns := max (is_worst_ns (cs_stats s)) dt\<rparr>\<rparr>,
                cm_anomalies m + 1, cm_suppressed m))"

definition elapsed :: "u64 \<Rightarrow> u64 \<Rightarrow> u64" where
  "elapsed now t = (if now > t then now - t else 0)"

definition cadence_observe :: "frame \<Rightarrow> monitor \<Rightarrow> (bool \<times> monitor) option" where
  "cadence_observe f m =
     (if is_gap f then
        (let m = m\<lparr>cm_markers := cm_markers m + 1, cm_reported_lost := cm_reported_lost m + gap_count f\<rparr>
         in Some (False, if cm_gap_aware m then reset_all m else m))
      else
        let m = m\<lparr>cm_frames := cm_frames m + 1\<rparr>;
            s = (case cm_ids m (can_id f) of None \<Rightarrow> id_state0 | Some s \<Rightarrow> s);
            s = s\<lparr>cs_stats := (cs_stats s)\<lparr>is_frames := is_frames (cs_stats s) + 1\<rparr>\<rparr>;
            now = t_ingest_ns f
        in if \<not> cs_have_last s then
             Some (False, m\<lparr>cm_ids := (cm_ids m)(can_id f \<mapsto> s\<lparr>cs_last_ns := now, cs_have_last := True\<rparr>)\<rparr>)
           else
             map_option (\<lambda>(flag, s', anomalies, suppressed).
                 (flag, m\<lparr>cm_ids := (cm_ids m)(can_id f \<mapsto> s'), cm_anomalies := anomalies, cm_suppressed := suppressed\<rparr>))
               (check_interval m (elapsed now (cs_last_ns s)) (s\<lparr>cs_last_ns := now\<rparr>)))"

definition per_id :: "monitor \<Rightarrow> (u32 \<rightharpoonup> id_stats)" where
  "per_id m = map_option cs_stats \<circ> cm_ids m"

text \<open>What a monitor is told: a record of the stream, or that the consumer has reconnected.\<close>

datatype cadence_event = Rec frame | Reconnect

fun cadence_step :: "cadence_event \<Rightarrow> monitor \<Rightarrow> (bool \<times> monitor) option" where
  "cadence_step (Rec f) m = cadence_observe f m"
| "cadence_step Reconnect m = Some (False, reset_all m)"

fun cadence_run :: "cadence_event list \<Rightarrow> monitor \<Rightarrow> (bool list \<times> monitor) option" where
  "cadence_run [] m = Some ([], m)"
| "cadence_run (e # es) m =
     Option.bind (cadence_step e m) (\<lambda>(flag, m'). map_option (map_prod (Cons flag) id) (cadence_run es m'))"

section \<open>Specification\<close>

text \<open>When an event is an arrival of the id, and when it hides an unknown number of arrivals.\<close>

fun arrival :: "u32 \<Rightarrow> cadence_event \<Rightarrow> u64 option" where
  "arrival i (Rec f) = (if \<not> is_gap f \<and> can_id f = i then Some (t_ingest_ns f) else None)"
| "arrival i Reconnect = None"

fun cuts :: "bool \<Rightarrow> cadence_event \<Rightarrow> bool" where
  "cuts aware (Rec f) \<longleftrightarrow> aware \<and> is_gap f"
| "cuts aware Reconnect \<longleftrightarrow> True"

text \<open>The position of the last arrival of the id.\<close>

definition last_arrival :: "u32 \<Rightarrow> cadence_event list \<Rightarrow> nat option" where
  "last_arrival i h = find (\<lambda>j. arrival i (h ! j) \<noteq> None) (rev [0..<length h])"

text \<open>The interval an event ends, if it can be measured: there is an earlier arrival of the id and no
  cut since.\<close>

definition interval_ended :: "bool \<Rightarrow> u32 \<Rightarrow> cadence_event list \<Rightarrow> cadence_event \<Rightarrow> u64 option" where
  "interval_ended aware i h e =
     (case (arrival i e, last_arrival i h) of
        (Some now, Some j) \<Rightarrow>
          if list_ex (cuts aware) (drop (Suc j) h) then None
          else Some (elapsed now (the (arrival i (h ! j))))
      | _ \<Rightarrow> None)"

text \<open>The measured intervals of an id, in order.\<close>

definition measured :: "bool \<Rightarrow> u32 \<Rightarrow> cadence_event list \<Rightarrow> u64 list" where
  "measured aware i h =
     List.map_filter (\<lambda>k. interval_ended aware i (take k h) (h ! k)) [0..<length h]"

text \<open>An event is a fault when it ends a measured interval that is too long, judged by the median of the
  first \<open>calibrate\<close> measured intervals of its id. \<open>None\<close> when the threshold has no 64-bit value.\<close>

definition fault :: "nat \<Rightarrow> rat \<Rightarrow> bool \<Rightarrow> cadence_event list \<Rightarrow> cadence_event \<Rightarrow> bool option" where
  "fault calibrate factor aware h e =
     (case e of
        Reconnect \<Rightarrow> Some False
      | Rec f \<Rightarrow>
          (case interval_ended aware (can_id f) h e of
             None \<Rightarrow> Some False
           | Some dt \<Rightarrow>
               let learnt = measured aware (can_id f) h
               in if length learnt < calibrate then Some False
                  else too_long factor (median (take calibrate learnt)) dt))"

section \<open>Growing histories\<close>

lemma last_arrival_Nil [simp]: "last_arrival i [] = None"
  by (simp add: last_arrival_def)

lemma find_cong_on: "(\<And>x. x \<in> set xs \<Longrightarrow> P x = Q x) \<Longrightarrow> find P xs = find Q xs"
  by (induction xs) auto

lemma last_arrival_snoc:
  "last_arrival i (h @ [e]) = (if arrival i e \<noteq> None then Some (length h) else last_arrival i h)"
proof -
  have "find (\<lambda>j. arrival i ((h @ [e]) ! j) \<noteq> None) (rev [0..<length h]) =
      find (\<lambda>j. arrival i (h ! j) \<noteq> None) (rev [0..<length h])"
    by (rule find_cong_on) (simp add: nth_append)
  then show ?thesis by (simp add: last_arrival_def)
qed

lemma last_arrival_Some: "last_arrival i h = Some j \<Longrightarrow> j < length h \<and> arrival i (h ! j) \<noteq> None"
  by (auto simp: last_arrival_def find_Some_iff rev_nth)

lemma last_arrival_None: "last_arrival i h = None \<Longrightarrow> k < length h \<Longrightarrow> arrival i (h ! k) = None"
  by (auto simp: last_arrival_def find_None_iff)

lemma map_filter_cong_on: "(\<And>x. x \<in> set xs \<Longrightarrow> f x = g x) \<Longrightarrow> List.map_filter f xs = List.map_filter g xs"
  by (induction xs) (auto simp: List.map_filter_simps split: option.splits)

lemma measured_snoc:
  "measured aware i (h @ [e]) =
     measured aware i h @ (case interval_ended aware i h e of None \<Rightarrow> [] | Some d \<Rightarrow> [d])"
proof -
  have "List.map_filter (\<lambda>k. interval_ended aware i (take k (h @ [e])) ((h @ [e]) ! k)) [0..<length h] =
      measured aware i h"
    unfolding measured_def by (rule map_filter_cong_on) (auto simp: nth_append)
  then show ?thesis by (simp add: measured_def map_filter_def split: option.splits)
qed

lemma measured_Nil [simp]: "measured aware i [] = []"
  by (simp add: measured_def map_filter_def)

lemma measured_no_arrival: "last_arrival i h = None \<Longrightarrow> measured aware i h = []"
proof (induction h rule: rev_induct)
  case (snoc e h)
  then have "arrival i e = None" "last_arrival i h = None" by (auto simp: last_arrival_snoc split: if_splits)
  then show ?case using snoc.IH by (simp add: measured_snoc interval_ended_def)
qed simp

text \<open>An event that is not an arrival of the id ends no interval of it.\<close>

lemma not_arrival:
  "arrival i e = None \<Longrightarrow> measured aware i (h @ [e]) = measured aware i h"
  "arrival i e = None \<Longrightarrow> last_arrival i (h @ [e]) = last_arrival i h"
  by (simp_all add: measured_snoc interval_ended_def last_arrival_snoc)

section \<open>The monitor follows the specification\<close>

text \<open>What the state of one id says of the history.\<close>

definition id_tracks :: "nat \<Rightarrow> bool \<Rightarrow> u32 \<Rightarrow> cadence_event list \<Rightarrow> id_state option \<Rightarrow> bool" where
  "id_tracks c aware i h st \<longleftrightarrow>
     (case st of
        None \<Rightarrow> last_arrival i h = None
      | Some s \<Rightarrow> cs_have_last s \<and>
          (\<exists>j. last_arrival i h = Some j \<and> arrival i (h ! j) = Some (cs_last_ns s) \<and>
               cs_resync s = list_ex (cuts aware) (drop (Suc j) h)) \<and>
          cs_samples s = take c (measured aware i h) \<and>
          (c \<le> length (measured aware i h) \<longrightarrow>
             is_expected_ns (cs_stats s) = median (take c (measured aware i h))))"

definition tracks :: "monitor \<Rightarrow> cadence_event list \<Rightarrow> bool" where
  "tracks m h \<longleftrightarrow> 0 < cm_calibrate m \<and> (\<forall>i. id_tracks (cm_calibrate m) (cm_gap_aware m) i h (cm_ids m i))"

lemma id_tracks_other:
  assumes "id_tracks c aware i h st" "arrival i e = None"
  shows "id_tracks c aware i (h @ [e]) (if cuts aware e then map_option (\<lambda>s. s\<lparr>cs_resync := True\<rparr>) st else st)"
proof (cases st)
  case None
  then show ?thesis using assms by (simp add: id_tracks_def not_arrival)
next
  case (Some s)
  then obtain j where j: "last_arrival i h = Some j" "arrival i (h ! j) = Some (cs_last_ns s)"
      "cs_resync s = list_ex (cuts aware) (drop (Suc j) h)"
    using assms(1) by (auto simp: id_tracks_def)
  have "j < length h" using last_arrival_Some [OF j(1)] by simp
  then have "(h @ [e]) ! j = h ! j" "drop (Suc j) (h @ [e]) = drop (Suc j) h @ [e]"
    by (simp_all add: nth_append)
  then show ?thesis using assms j Some by (auto simp: id_tracks_def not_arrival)
qed

lemma interval_ended_tracked:
  assumes "id_tracks c aware i h st" "arrival i e = Some now"
  shows "interval_ended aware i h e =
     (case st of None \<Rightarrow> None | Some s \<Rightarrow> if cs_resync s then None else Some (elapsed now (cs_last_ns s)))"
  using assms by (auto simp: id_tracks_def interval_ended_def split: option.splits)

text \<open>The new state of the id a frame carries.\<close>

lemma id_tracks_arrival:
  assumes "arrival i e = Some now" "0 < c" "cs_have_last s" "cs_last_ns s = now" "\<not> cs_resync s"
    and "cs_samples s = take c (measured aware i (h @ [e]))"
    and "c \<le> length (measured aware i (h @ [e])) \<Longrightarrow>
      is_expected_ns (cs_stats s) = median (take c (measured aware i (h @ [e])))"
  shows "id_tracks c aware i (h @ [e]) (Some s)"
  using assms by (auto simp: id_tracks_def last_arrival_snoc)

lemma check_interval_tracked:
  assumes "id_tracks c aware i h (Some s0)" "arrival i e = Some now" "0 < c" "c = cm_calibrate m" "aware = cm_gap_aware m"
    and s: "s = s0\<lparr>cs_stats := (cs_stats s0)\<lparr>is_frames := k\<rparr>, cs_last_ns := now\<rparr>"
  shows "case check_interval m (elapsed now (cs_last_ns s0)) s of
      None \<Rightarrow> (case interval_ended aware i h e of None \<Rightarrow> False
         | Some dt \<Rightarrow> c \<le> length (measured aware i h) \<and>
             too_long (cm_factor m) (median (take c (measured aware i h))) dt = None)
    | Some (flag, s', _, _) \<Rightarrow> id_tracks c aware i (h @ [e]) (Some s') \<and>
        (case interval_ended aware i h e of None \<Rightarrow> \<not> flag
         | Some dt \<Rightarrow> (if length (measured aware i h) < c then \<not> flag
             else too_long (cm_factor m) (median (take c (measured aware i h))) dt = Some flag))"
proof -
  let ?ms = "measured aware i h" and ?dt = "elapsed now (cs_last_ns s0)"
  have e: "interval_ended aware i h e = (if cs_resync s0 then None else Some ?dt)"
    using interval_ended_tracked [OF assms(1,2)] by simp
  have h: "cs_have_last s0" "cs_samples s0 = take c ?ms"
      "c \<le> length ?ms \<Longrightarrow> is_expected_ns (cs_stats s0) = median (take c ?ms)"
    using assms(1) by (auto simp: id_tracks_def)
  have sh: "cs_samples s = take c ?ms" "cs_resync s = cs_resync s0" using h s by simp_all
  consider (lost) "cs_resync s0" | (learn) "\<not> cs_resync s0" "length ?ms < c" | (check) "\<not> cs_resync s0" "c \<le> length ?ms"
    by linarith
  then show ?thesis
  proof cases
    case lost
    then have "measured aware i (h @ [e]) = ?ms" using e by (simp add: measured_snoc)
    then show ?thesis using lost e h s assms(2,3)
      by (simp add: check_interval_def, intro id_tracks_arrival) simp_all
  next
    case learn
    then have m: "measured aware i (h @ [e]) = ?ms @ [?dt]" using e by (simp add: measured_snoc)
    have "length (cs_samples s) < cm_calibrate m" using learn(2) sh assms(4) by simp
    then show ?thesis using learn e h s m assms(2-4)
      by (simp add: check_interval_def Let_def, intro conjI impI id_tracks_arrival) simp_all
  next
    case check
    then have m: "take c (measured aware i (h @ [e])) = take c ?ms" "length (measured aware i (h @ [e])) = Suc (length ?ms)"
      using e by (simp_all add: measured_snoc)
    have n: "\<not> length (cs_samples s) < cm_calibrate m" using check(2) sh assms(4) by simp
    have x: "is_expected_ns (cs_stats s) = median (take c ?ms)" using h(3) check(2) s by simp
    show ?thesis using check e h s m n x assms(2-4)
      by (auto simp: check_interval_def split: option.splits bool.splits intro!: id_tracks_arrival)
  qed
qed

text \<open>One step of the monitor and one event of the history.\<close>

definition step_ok :: "monitor \<Rightarrow> cadence_event list \<Rightarrow> cadence_event \<Rightarrow> (bool \<times> monitor) option \<Rightarrow> bool" where
  "step_ok m h e r \<longleftrightarrow>
     fault (cm_calibrate m) (cm_factor m) (cm_gap_aware m) h e = map_option fst r \<and>
     (\<forall>flag m'. r = Some (flag, m') \<longrightarrow> tracks m' (h @ [e]) \<and> cm_calibrate m' = cm_calibrate m \<and>
        cm_factor m' = cm_factor m \<and> cm_gap_aware m' = cm_gap_aware m)"

lemma step_ok_cut:
  assumes "tracks m h" "\<And>i. arrival i e = None"
  shows "step_ok m h e (cadence_step e m)"
proof -
  let ?c = "cm_calibrate m" and ?a = "cm_gap_aware m"
  have c: "0 < ?c" and id: "\<And>i. id_tracks ?c ?a i h (cm_ids m i)" using assms(1) by (auto simp: tracks_def)
  have all: "id_tracks ?c ?a i (h @ [e]) (if cuts ?a e then map_option (\<lambda>s. s\<lparr>cs_resync := True\<rparr>) (cm_ids m i) else cm_ids m i)" for i
    by (rule id_tracks_other [OF id assms(2)])
  show ?thesis
  proof (cases e)
    case Reconnect
    then show ?thesis using c all by (simp add: step_ok_def tracks_def reset_all_def fault_def)
  next
    case (Rec f)
    then have g: "is_gap f" using assms(2) [of "can_id f"] by (simp split: if_splits)
    have "interval_ended ?a (can_id f) h e = None" using g by (simp add: Rec interval_ended_def)
    then have f: "fault ?c (cm_factor m) ?a h e = Some False" by (simp add: Rec fault_def)
    show ?thesis
    proof (cases ?a)
      case True
      then show ?thesis using c all g f by (simp add: Rec step_ok_def tracks_def reset_all_def cadence_observe_def Let_def)
    next
      case False
      then show ?thesis using c all g f by (simp add: Rec step_ok_def tracks_def cadence_observe_def Let_def)
    qed
  qed
qed

lemma step_ok_first:
  assumes "tracks m h" "e = Rec f" "\<not> is_gap f" "cm_ids m (can_id f) = None"
  shows "step_ok m h e (cadence_step e m)"
proof -
  let ?c = "cm_calibrate m" and ?a = "cm_gap_aware m" and ?i = "can_id f"
  have c: "0 < ?c" and id: "\<And>i. id_tracks ?c ?a i h (cm_ids m i)" using assms(1) by (auto simp: tracks_def)
  have arr: "arrival ?i e = Some (t_ingest_ns f)" "\<And>i. i \<noteq> ?i \<Longrightarrow> arrival i e = None" "\<not> cuts ?a e"
    using assms(2,3) by simp_all
  have others: "id_tracks ?c ?a i (h @ [e]) (cm_ids m i)" if "i \<noteq> ?i" for i
    using id_tracks_other [OF id arr(2) [OF that]] arr(3) by simp
  have "last_arrival ?i h = None" using id [of ?i] assms(4) by (simp add: id_tracks_def)
  then have m: "measured ?a ?i h = []" "interval_ended ?a ?i h e = None"
    by (simp_all add: measured_no_arrival interval_ended_def split: option.splits)
  then have f: "fault ?c (cm_factor m) ?a h e = Some False" using assms(2) by (simp add: fault_def)
  have new: "id_tracks ?c ?a ?i (h @ [e]) (Some s)"
    if "cs_have_last s" "cs_last_ns s = t_ingest_ns f" "\<not> cs_resync s" "cs_samples s = []" for s
    using that arr(1) c m by (intro id_tracks_arrival) (simp_all add: measured_snoc)
  show ?thesis using f others new c assms(2-4)
    by (simp add: step_ok_def tracks_def cadence_observe_def Let_def id_state0_def)
qed

lemma step_ok_again:
  assumes "tracks m h" "e = Rec f" "\<not> is_gap f" "cm_ids m (can_id f) = Some s0"
  shows "step_ok m h e (cadence_step e m)"
proof -
  let ?c = "cm_calibrate m" and ?a = "cm_gap_aware m" and ?i = "can_id f" and ?now = "t_ingest_ns f"
  let ?m = "m\<lparr>cm_frames := cm_frames m + 1\<rparr>" and ?k = "is_frames (cs_stats s0) + 1"
  define s where "s = s0\<lparr>cs_stats := (cs_stats s0)\<lparr>is_frames := ?k\<rparr>, cs_last_ns := ?now\<rparr>"
  have c: "0 < ?c" and id: "\<And>i. id_tracks ?c ?a i h (cm_ids m i)" using assms(1) by (auto simp: tracks_def)
  have arr: "arrival ?i e = Some ?now" "\<And>i. i \<noteq> ?i \<Longrightarrow> arrival i e = None" "\<not> cuts ?a e"
    using assms(2,3) by simp_all
  have others: "id_tracks ?c ?a i (h @ [e]) (cm_ids m i)" if "i \<noteq> ?i" for i
    using id_tracks_other [OF id arr(2) [OF that]] arr(3) by simp
  have t0: "id_tracks ?c ?a ?i h (Some s0)" using id [of ?i] assms(4) by simp
  then have hl: "cs_have_last s0" by (simp add: id_tracks_def)
  have step: "cadence_step e m = map_option (\<lambda>(flag, s', anomalies, suppressed).
      (flag, ?m\<lparr>cm_ids := (cm_ids m)(?i \<mapsto> s'), cm_anomalies := anomalies, cm_suppressed := suppressed\<rparr>))
      (check_interval ?m (elapsed ?now (cs_last_ns s0)) s)"
    using assms(2-4) hl by (simp add: cadence_observe_def Let_def s_def)
  note chk = check_interval_tracked [OF t0 arr(1) c _ _ s_def, of ?m, simplified]
  show ?thesis
  proof (cases "check_interval ?m (elapsed ?now (cs_last_ns s0)) s")
    case None
    then obtain dt where dt: "interval_ended ?a ?i h e = Some dt" "\<not> length (measured ?a ?i h) < ?c"
        "too_long (cm_factor m) (median (take ?c (measured ?a ?i h))) dt = None"
      using chk by (auto split: option.splits)
    then have "fault ?c (cm_factor m) ?a h e = None" by (simp add: assms(2) fault_def Let_def)
    then show ?thesis using None step by (simp add: step_ok_def)
  next
    case (Some r)
    obtain flag s' x y where r: "r = (flag, s', x, y)" by (cases r) auto
    then have t: "id_tracks ?c ?a ?i (h @ [e]) (Some s')"
      and f: "case interval_ended ?a ?i h e of None \<Rightarrow> \<not> flag
         | Some dt \<Rightarrow> (if length (measured ?a ?i h) < ?c then \<not> flag
             else too_long (cm_factor m) (median (take ?c (measured ?a ?i h))) dt = Some flag)"
      using chk Some by (simp_all split: option.splits if_splits)
    have "fault ?c (cm_factor m) ?a h e = Some flag"
      using f by (cases "interval_ended ?a ?i h e") (simp_all add: assms(2) fault_def Let_def split: if_splits)
    then show ?thesis using t others c r Some step by (simp add: step_ok_def tracks_def)
  qed
qed

lemma step_ok_all: "tracks m h \<Longrightarrow> step_ok m h e (cadence_step e m)"
proof (cases e)
  case (Rec f)
  assume t: "tracks m h"
  show ?thesis
  proof (cases "is_gap f")
    case True
    then show ?thesis by (intro step_ok_cut [OF t]) (simp add: Rec)
  next
    case False
    then show ?thesis using step_ok_first [OF t Rec] step_ok_again [OF t Rec] by (cases "cm_ids m (can_id f)") auto
  qed
next
  case Reconnect
  assume "tracks m h"
  then show ?thesis by (rule step_ok_cut) (simp add: Reconnect)
qed

lemma cadence_run_tracked:
  assumes "tracks m h"
  shows "map_option fst (cadence_run es m) =
     those (map (\<lambda>k. fault (cm_calibrate m) (cm_factor m) (cm_gap_aware m) (h @ take k es) (es ! k)) [0..<length es])"
  using assms
proof (induction es arbitrary: m h)
  case (Cons e es)
  have ok: "step_ok m h e (cadence_step e m)" by (rule step_ok_all [OF Cons.prems])
  show ?case
  proof (cases "cadence_step e m")
    case None
    then show ?thesis using ok by (simp add: step_ok_def upt_rec)
  next
    case (Some r)
    obtain flag m' where r: "r = (flag, m')" by fastforce
    have t: "tracks m' (h @ [e])" "cm_calibrate m' = cm_calibrate m" "cm_factor m' = cm_factor m"
        "cm_gap_aware m' = cm_gap_aware m" "fault (cm_calibrate m) (cm_factor m) (cm_gap_aware m) h e = Some flag"
      using ok Some r by (simp_all add: step_ok_def)
    have "map_option fst (cadence_run (e # es) m) = map_option (Cons flag) (map_option fst (cadence_run es m'))"
      using Some r by (simp add: option.map_comp comp_def)
    then show ?thesis using Cons.IH [OF t(1)] t(2-)
      by (simp add: map_upt_Suc del: upt_Suc)
  qed
qed simp

lemma tracks_new: "tracks (monitor_new c f a) []"
  by (simp add: tracks_def monitor_new_def id_tracks_def)

section \<open>Properties\<close>

text \<open>(C31) The cadence monitor flags exactly the faults of the specification: fed any sequence of records and
  reconnects, its verdicts are, position by position, whether the record ends an interval that can be
  measured (an earlier record of the same id, and no reported loss or reconnect since) and that is
  longer than the factor times the median of the id's first measured intervals. It has no verdict
  only where the threshold has no 64-bit value.\<close>

theorem cadence_flags_faults:
  "map_option fst (cadence_run es (monitor_new c f a)) =
     those (map (\<lambda>k. fault (max 2 c) (max 1 f) a (take k es) (es ! k)) [0..<length es])"
proof -
  have "max 2 c = cm_calibrate (monitor_new c f a)" "max 1 f = cm_factor (monitor_new c f a)" "a = cm_gap_aware (monitor_new c f a)"
    by (simp_all add: monitor_new_def max_def)
  then show ?thesis using cadence_run_tracked [OF tracks_new, of es c f a] by simp
qed

text \<open>A fault names two frames of one id with nothing between them that could hide another.\<close>

lemma fault_interval:
  assumes "fault c f a h e = Some True"
  shows "\<exists>g j g'. e = Rec g \<and> \<not> is_gap g \<and> j < length h \<and> h ! j = Rec g' \<and> \<not> is_gap g' \<and> can_id g' = can_id g \<and>
     (\<forall>k. j < k \<longrightarrow> k < length h \<longrightarrow> \<not> cuts a (h ! k) \<and> arrival (can_id g) (h ! k) = None) \<and>
     c \<le> length (measured a (can_id g) h) \<and>
     too_long f (median (take c (measured a (can_id g) h))) (elapsed (t_ingest_ns g) (t_ingest_ns g')) = Some True"
proof -
  obtain g where g: "e = Rec g" using assms by (cases e) (simp_all add: fault_def)
  obtain dt where dt: "interval_ended a (can_id g) h e = Some dt" "c \<le> length (measured a (can_id g) h)"
      "too_long f (median (take c (measured a (can_id g) h))) dt = Some True"
    using assms by (auto simp: g fault_def Let_def not_less split: option.splits if_splits)
  then obtain j where j: "last_arrival (can_id g) h = Some j" "\<not> is_gap g" "\<not> list_ex (cuts a) (drop (Suc j) h)"
      "dt = elapsed (t_ingest_ns g) (the (arrival (can_id g) (h ! j)))"
    by (auto simp: g interval_ended_def split: option.splits if_splits)
  have jl: "j < length h" "arrival (can_id g) (h ! j) \<noteq> None" using last_arrival_Some [OF j(1)] by auto
  obtain g' where g': "h ! j = Rec g'" using jl(2) by (cases "h ! j") simp_all
  then have same: "\<not> is_gap g'" "can_id g' = can_id g" using jl(2) by (simp_all split: if_splits)
  have "\<not> cuts a (h ! k) \<and> arrival (can_id g) (h ! k) = None" if "j < k" "k < length h" for k
  proof
    show "\<not> cuts a (h ! k)" using j(3) that by (auto simp: list_ex_length dest: spec [of _ "k - Suc j"])
    obtain n where n: "n < length h" "j = rev [0..<length h] ! n"
        "\<forall>m<n. arrival (can_id g) (h ! (rev [0..<length h] ! m)) = None"
      using j(1) by (auto simp: last_arrival_def find_Some_iff)
    then have "length h - 1 - k < n" using that by (auto simp: rev_nth)
    then show "arrival (can_id g) (h ! k) = None" using n(1,3) that by (auto simp: rev_nth)
  qed
  then show ?thesis using g g' j(2,4) jl(1) same dt(2,3) by (auto intro!: exI [of _ g] exI [of _ j] exI [of _ g'])
qed

lemma those_nth: "those xs = Some ys \<Longrightarrow> length ys = length xs \<and> (k < length xs \<longrightarrow> xs ! k = Some (ys ! k))"
  by (induction xs arbitrary: ys k) (auto split: option.splits simp: nth_Cons')

text \<open>A gap-aware monitor raises no alarm across a loss. If it flags the record at position \<open>k\<close>, that is
  a frame whose id was last seen at an earlier position \<open>j\<close>, and no marker and no reconnect came between
  the two: what it reports is an interval during which nothing was lost.\<close>

theorem alarms_span_no_loss:
  assumes "cadence_run es (monitor_new c f True) = Some (verdicts, m)" "k < length es" "verdicts ! k"
  shows "\<exists>g j g'. es ! k = Rec g \<and> j < k \<and> es ! j = Rec g' \<and> can_id g' = can_id g \<and> \<not> is_gap g \<and> \<not> is_gap g' \<and>
     (\<forall>n. j < n \<and> n < k \<longrightarrow> es ! n \<noteq> Reconnect \<and> (\<forall>x. es ! n = Rec x \<longrightarrow> \<not> is_gap x \<and> can_id x \<noteq> can_id g))"
proof -
  let ?fs = "map (\<lambda>k. fault (max 2 c) (max 1 f) True (take k es) (es ! k)) [0..<length es]"
  have e: "map_option fst (cadence_run es (monitor_new c f True)) =
      those (map (\<lambda>k. fault (cm_calibrate (monitor_new c f True)) (cm_factor (monitor_new c f True)) True (take k es) (es ! k)) [0..<length es])"
    using cadence_run_tracked [OF tracks_new, of es c f True] by (simp add: monitor_new_def)
  have "fault (cm_calibrate (monitor_new c f True)) (cm_factor (monitor_new c f True)) True (take k es) (es ! k) = Some (verdicts ! k)"
    using those_nth [OF e [symmetric, unfolded assms(1), simplified], of k] assms(2) by simp
  then obtain g j g' where w: "es ! k = Rec g" "\<not> is_gap g" "j < length (take k es)" "take k es ! j = Rec g'" "\<not> is_gap g'" "can_id g' = can_id g"
     "\<forall>n. j < n \<longrightarrow> n < length (take k es) \<longrightarrow> \<not> cuts True (take k es ! n) \<and> arrival (can_id g) (take k es ! n) = None"
    using fault_interval [of _ _ True "take k es" "es ! k"] assms(3) by fastforce
  have "es ! n \<noteq> Reconnect \<and> (\<forall>x. es ! n = Rec x \<longrightarrow> \<not> is_gap x \<and> can_id x \<noteq> can_id g)" if "j < n" "n < k" for n
  proof -
    have "\<not> cuts True (es ! n) \<and> arrival (can_id g) (es ! n) = None" using w(7) that assms(2) by simp
    then show ?thesis by (cases "es ! n") (auto split: if_splits)
  qed
  then show ?thesis using w assms(2) by (intro exI [of _ g] exI [of _ j] exI [of _ g']) auto
qed

text \<open>Two intervals teach the period; the third is ten times as long.\<close>

definition late_frames :: "cadence_event list" where
  "late_frames = map (\<lambda>t. Rec (zero_frame\<lparr>can_id := 7, t_ingest_ns := t\<rparr>)) [2, 4, 6, 26]"

theorem alarms_span_no_loss_witness:
  "\<exists>verdicts m. cadence_run late_frames (monitor_new 2 4 True) = Some (verdicts, m) \<and> verdicts ! 3 \<and>
     (\<exists>g j g'. late_frames ! 3 = Rec g \<and> j < 3 \<and> late_frames ! j = Rec g' \<and> can_id g' = can_id g)"
proof -
  have "map_option fst (cadence_run late_frames (monitor_new 2 4 True)) = Some [False, False, False, True]" by code_simp
  then obtain m where m: "cadence_run late_frames (monitor_new 2 4 True) = Some ([False, False, False, True], m)"
    by (auto simp: map_option_eq_Some)
  have l: "3 < length late_frames" by (simp add: late_frames_def)
  have v: "[False, False, False, True] ! 3" by simp
  show ?thesis
    using alarms_span_no_loss [OF m l v] m v by (intro exI [of _ "[False, False, False, True]"] exI [of _ m]) blast
qed

end
