(* ===== verification/Cadence_Program.thy ===== *)
theory Cadence_Program
  imports Consumer Cadence
begin

text \<open>
  The cadence consumer (\<^verbatim>\<open>src/cadence_main.cpp\<close>): every record that is not a probe goes to a gap tracker and to
  the monitor, both of which are told of a reconnection. Its monitor is \<open>None\<close> once a threshold has been
  computed that the conversion to 64 bits does not define. The ghost \<open>cp_events\<close> is what the monitor was told.
\<close>

section \<open>State and operations\<close>

record cadence_program = consumer +
  cp_monitor :: "monitor option"
  cp_events :: "cadence_event list"

definition cadence_new :: "nat \<Rightarrow> rat \<Rightarrow> bool \<Rightarrow> cadence_program" where
  "cadence_new calibrate factor gap_blind = \<lparr>co_link = no_link, co_gaps = gap_tracker0, co_protocol_errs = 0,
     cp_monitor = Some (monitor_new calibrate factor (\<not> gap_blind)), cp_events = []\<rparr>"

definition cadence_record :: "frame \<Rightarrow> cadence_program \<Rightarrow> cadence_program" where
  "cadence_record f s =
     (if is_echo f then s\<lparr>co_link := echo_back f (co_link s)\<rparr>
      else s\<lparr>co_gaps := snd (observe f (co_gaps s)),
             cp_monitor := Option.bind (cp_monitor s) (\<lambda>m. map_option snd (cadence_observe f m)),
             cp_events := cp_events s @ [Rec f]\<rparr>)"

definition cadence_turn :: "turn_env \<Rightarrow> cadence_program \<Rightarrow> bool \<times> cadence_program" where
  "cadence_turn env s =
     (case consumer_read env s of
        (st, batch, s) \<Rightarrow>
          if st = StClosed then (True, s)
          else if st = StProtocolError then (True, s\<lparr>co_protocol_errs := co_protocol_errs s + 1\<rparr>)
          else if st \<noteq> StOk then (False, s)
          else (False, fold cadence_record batch s))"

definition cadence_connected :: "u64 \<Rightarrow> cadence_program \<Rightarrow> cadence_program" where
  "cadence_connected now s = s\<lparr>co_gaps := tracker_reset (co_gaps s),
     cp_monitor := map_option reset_all (cp_monitor s), cp_events := cp_events s @ [Reconnect]\<rparr>"

definition cadence_program_run :: "bool \<Rightarrow> (u64 \<times> u8 list \<times> turn_env list) option list \<Rightarrow> cadence_program \<Rightarrow>
    bool \<times> cadence_program" where
  "cadence_program_run reconnect cs s = run_consumer reconnect cadence_connected cadence_turn (\<lambda>s. s) cs s"

definition cadence_exit :: "cadence_program \<Rightarrow> nat" where
  "cadence_exit s = (if co_protocol_errs s > 0 \<or> gs_silent_jumps (gt_s (co_gaps s)) > 0 then 1 else 0)"

section \<open>The contract of consumers\<close>

interpretation cadence_rec: record_handler cadence_record
  by unfold_locales (simp_all add: cadence_record_def)

interpretation cadencer: tracking_consumer cadence_turn
proof
  fix env and s s' :: cadence_program and stop st out str inc
  assume t: "cadence_turn env s = (stop, s')"
    and r: "stream_read_batch (te_reads env) (ln_in (co_link s)) (ln_stream (co_link s)) = (st, out, str, inc)"
  show "sans_drops (ln_stream (co_link s')) = sans_drops str \<and> ln_in (co_link s') = inc \<and>
      co_gaps s' = (if st = StOk then observe_all (data_records out) (co_gaps s) else co_gaps s) \<and>
      co_protocol_errs s' = (if st = StProtocolError then co_protocol_errs s + 1 else co_protocol_errs s) \<and>
      stop = (st = StClosed \<or> st = StProtocolError)"
    using t by (cases st) (auto simp: cadence_turn_def consumer_read_Pair [OF r] cadence_rec.handles)
qed

section \<open>Two books\<close>

lemma cadence_run_snoc:
  "cadence_run (es @ [e]) m =
     Option.bind (cadence_run es m) (\<lambda>(flags, m'). map_option (\<lambda>(flag, m''). (flags @ [flag], m'')) (cadence_step e m'))"
proof (induction es arbitrary: m)
  case Nil
  then show ?case by (cases "cadence_step e m") auto
next
  case (Cons x es)
  then show ?case
    by (cases "cadence_step x m"; cases "cadence_run es (snd (the (cadence_step x m)))")
      (auto simp: Cons.IH option.map_comp comp_def case_prod_unfold map_prod_def split: prod.splits)
qed

text \<open>The monitor is the one its events lead to, and counts what the tracker counts.\<close>

definition same_counts :: "monitor \<Rightarrow> gap_stats \<Rightarrow> bool" where
  "same_counts m g \<longleftrightarrow>
     cm_frames m = gs_frames g \<and> cm_markers m = gs_markers g \<and>
     cm_reported_lost m = gs_reported_lost g + gs_absent_frames g \<and>
     gs_markers g = gs_overrun_markers g + gs_ingest_markers g + gs_absent_markers g"

definition cadence_books :: "nat \<Rightarrow> rat \<Rightarrow> bool \<Rightarrow> cadence_program \<Rightarrow> bool" where
  "cadence_books calibrate factor gap_blind s \<longleftrightarrow>
     cp_monitor s = map_option snd (cadence_run (cp_events s) (monitor_new calibrate factor (\<not> gap_blind))) \<and>
     pred_option (\<lambda>m. same_counts m (gt_s (co_gaps s))) (cp_monitor s)"

lemma cadence_books_cong:
  "cp_monitor s = cp_monitor s' \<Longrightarrow> cp_events s = cp_events s' \<Longrightarrow> co_gaps s = co_gaps s' \<Longrightarrow>
   cadence_books c k b s = cadence_books c k b s'"
  by (simp add: cadence_books_def)

lemma cadence_observe_counts:
  "cadence_observe f m = Some (b, m') \<Longrightarrow>
   cm_frames m' = cm_frames m + (if is_gap f then 0 else 1) \<and> cm_markers m' = cm_markers m + (if is_gap f then 1 else 0) \<and>
   cm_reported_lost m' = cm_reported_lost m + (if is_gap f then gap_count f else 0)"
  by (auto simp: cadence_observe_def Let_def reset_all_def split: if_splits)

lemma observe_counts:
  assumes "\<not> is_echo f"
  shows "let s = gt_s g; s' = gt_s (snd (observe f g)) in
     gs_frames s' = gs_frames s + (if is_gap f then 0 else 1) \<and> gs_markers s' = gs_markers s + (if is_gap f then 1 else 0) \<and>
     gs_reported_lost s' + gs_absent_frames s' = gs_reported_lost s + gs_absent_frames s + (if is_gap f then gap_count f else 0) \<and>
     gs_overrun_markers s' + gs_ingest_markers s' + gs_absent_markers s' =
       gs_overrun_markers s + gs_ingest_markers s + gs_absent_markers s + (if is_gap f then 1 else 0)"
  using assms by (simp add: observe_def observe_gap_def Let_def)

lemma cadence_record_books:
  assumes "cadence_books c k b s"
  shows "cadence_books c k b (cadence_record f s)"
proof (cases "is_echo f")
  case True
  then show ?thesis using assms cadence_books_cong [of "cadence_record f s" s] by (simp add: cadence_record_def)
next
  case False
  show ?thesis
  proof (cases "cp_monitor s")
    case None
    then show ?thesis using assms False by (auto simp: cadence_record_def cadence_books_def cadence_run_snoc)
  next
    case (Some m)
    then obtain fl where run: "cadence_run (cp_events s) (monitor_new c k (\<not> b)) = Some (fl, m)"
      using assms by (cases "cadence_run (cp_events s) (monitor_new c k (\<not> b))") (auto simp: cadence_books_def)
    then have "cp_monitor (cadence_record f s) =
        map_option snd (cadence_run (cp_events (cadence_record f s)) (monitor_new c k (\<not> b)))"
      using Some False by (cases "cadence_observe f m") (auto simp: cadence_record_def cadence_run_snoc)
    moreover have "same_counts m (gt_s (co_gaps s))" using assms Some by (simp add: cadence_books_def)
    then have "same_counts m' (gt_s (snd (observe f (co_gaps s))))" if "cadence_observe f m = Some (fl', m')" for fl' m'
      using cadence_observe_counts [OF that] observe_counts [OF False, of "co_gaps s"]
      by (simp add: same_counts_def Let_def)
    then have "pred_option (\<lambda>m. same_counts m (gt_s (co_gaps (cadence_record f s)))) (cp_monitor (cadence_record f s))"
      using Some False by (cases "cadence_observe f m") (auto simp: cadence_record_def)
    ultimately show ?thesis unfolding cadence_books_def by blast
  qed
qed

lemma cadence_turn_books:
  assumes "cadence_books c k b s" "cadence_turn env s = (stop, s')"
  shows "cadence_books c k b s'"
proof -
  obtain st out s1 where r: "consumer_read env s = (st, out, s1)" by (metis prod_cases3)
  have i: "cadence_books c k b s1" "cadence_books c k b (s1\<lparr>co_protocol_errs := e\<rparr>)" for e
    using assms(1) r cadence_books_cong [of s1 s] cadence_books_cong [of "s1\<lparr>co_protocol_errs := e\<rparr>" s]
    by (auto simp: consumer_read_def split: prod.splits)
  have "cadence_books c k b (fold cadence_record out s1)" using i(1)
    by (induction out arbitrary: s1) (simp_all add: cadence_record_books)
  then show ?thesis using assms(2) r i by (auto simp: cadence_turn_def split: if_splits)
qed

lemma cadence_connected_books:
  assumes "cadence_books c k b s"
  shows "cadence_books c k b (cadence_connected now (new_link inc s))"
  using assms by (cases "cadence_run (cp_events s) (monitor_new c k (\<not> b))")
    (auto simp: cadence_books_def cadence_connected_def new_link_def tracker_reset_def cadence_run_snoc
      reset_all_def same_counts_def)

text \<open>Two counts of the same stream agree. Over any run of the cadence program, with any number of connections
  and any bytes on them: the monitor is the one that the events it was told about lead to (\<open>cadence_run\<close>), unless one of them asked for an undefined conversion; its
  frames and markers are the tracker's frames and markers; and the loss it reports is the loss the tracker has
  from markers, overruns, ingest losses and absences together.\<close>

theorem cadence_counts_agree:
  "let s = snd (cadence_program_run reconnect cs (cadence_new calibrate factor gap_blind)) in
     cp_monitor s = map_option snd (cadence_run (cp_events s) (monitor_new calibrate factor (\<not> gap_blind))) \<and>
     pred_option (\<lambda>m. same_counts m (gt_s (co_gaps s))) (cp_monitor s)"
proof -
  let ?I = "cadence_books calibrate factor gap_blind"
  have "?I (cadence_new calibrate factor gap_blind)"
    by (simp add: cadence_books_def cadence_new_def same_counts_def gap_tracker0_def gap_stats0_def monitor_new_def)
  then have "?I (snd (cadence_program_run reconnect cs (cadence_new calibrate factor gap_blind)))"
    unfolding cadence_program_run_def
    by (intro run_consumer_inv [of ?I cadence_turn, OF cadence_turn_books]) (simp_all add: cadence_connected_books)
  then show ?thesis unfolding cadence_books_def Let_def .
qed

end
