(* ===== verification/Generator.thy ===== *)
theory Generator
  imports Sources Consumer Options
begin

text \<open>
  The paced generator (\<^verbatim>\<open>src/gen_main.cpp\<close>): it sends frame \<open>k\<close> when tick \<open>k\<close> of an absolute schedule is due, puts its
  clock reading into the payload and measures how late it was. The reads of the timer are a script; the
  clock reading and the result of the write of frame \<open>k\<close> are a function of \<open>k\<close>.
\<close>

section \<open>State and operations\<close>

datatype gen_read = GenTicks u64 | GenIntr | GenError

datatype gen_write = WriteOk | WriteNoBufs | WriteError

record generator =
  gr_k :: u64
  gr_sent :: u64
  gr_enobufs :: u64
  gr_send_errors :: u64
  gr_jitter :: samples
  gr_log :: "(u32 \<times> u8 list) list"

definition kArmLeadNs :: u64 where "kArmLeadNs = 10000000"

definition generator_new :: generator where
  "generator_new = \<lparr>gr_k = 0, gr_sent = 0, gr_enobufs = 0, gr_send_errors = 0, gr_jitter = samples_new (2 ^ 20), gr_log = []\<rparr>"

text \<open>Seconds and nanoseconds of the interval and of the first expiration.\<close>

definition gen_timer_spec :: "u64 \<Rightarrow> u64 \<Rightarrow> timespec \<times> timespec" where
  "gen_timer_spec period_ns start =
     (\<lparr>tv_sec = period_ns div 1000000000, tv_nsec = period_ns mod 1000000000\<rparr>,
      \<lparr>tv_sec = start div 1000000000, tv_nsec = start mod 1000000000\<rparr>)"

text \<open>The two descriptors: the CAN socket and the timer.\<close>

definition gen_open :: "(nat \<Rightarrow> string) \<Rightarrow> string \<Rightarrow> os \<Rightarrow> (string + nat \<times> nat) \<times> os" where
  "gen_open strerror ifname w =
     (case open_can_writer strerror ifname w of
        (Inl e, w) \<Rightarrow> (Inl e, w)
      | (Inr can_fd, w) \<Rightarrow>
          (case open_timer strerror w of
             (Inl e, w) \<Rightarrow> (Inl e, sys_close can_fd w)
           | (Inr timer_fd, w) \<Rightarrow> (Inr (can_fd, timer_fd), w)))"

definition gen_can_frame :: "gen_options \<Rightarrow> u64 \<Rightarrow> u64 \<Rightarrow> u32 \<times> u8 list" where
  "gen_can_frame o1 k now =
     (gn_base_id o1 + ucast (k mod ucast (gn_id_count o1)),
      map (\<lambda>b. ucast (drop_bit (8 * b) now AND 0xFF)) [0..<8])"

text \<open>The body of the loop over the expirations; \<open>gr_log\<close> (a ghost) is what has been offered to the socket.\<close>

definition gen_one :: "gen_options \<Rightarrow> u64 \<Rightarrow> u64 \<Rightarrow> (nat \<Rightarrow> u64 \<times> gen_write) \<Rightarrow> generator \<Rightarrow> generator" where
  "gen_one o1 period_ns start env s =
     (let (now, w) = env (unat (gr_k s));
          ideal = start + gr_k s * period_ns;
          s = s\<lparr>gr_jitter := samples_add (sint now - sint ideal) (gr_jitter s),
                gr_log := gr_log s @ [gen_can_frame o1 (gr_k s) now]\<rparr>;
          s = (case w of
                 WriteOk \<Rightarrow> s\<lparr>gr_sent := gr_sent s + 1\<rparr>
               | WriteNoBufs \<Rightarrow> s\<lparr>gr_enobufs := gr_enobufs s + 1\<rparr>
               | WriteError \<Rightarrow> s\<lparr>gr_send_errors := gr_send_errors s + 1\<rparr>)
      in s\<lparr>gr_k := gr_k s + 1\<rparr>)"

text \<open>\<open>n\<close> expirations still to serve.\<close>

fun gen_burst :: "gen_options \<Rightarrow> u64 \<Rightarrow> u64 \<Rightarrow> u64 \<Rightarrow> (nat \<Rightarrow> u64 \<times> gen_write) \<Rightarrow> nat \<Rightarrow> generator \<Rightarrow> generator" where
  "gen_burst o1 tot period_ns start env 0 s = s"
| "gen_burst o1 tot period_ns start env (Suc n) s =
     (if \<not> gr_k s < tot then s
      else gen_burst o1 tot period_ns start env n (gen_one o1 period_ns start env s))"

text \<open>The loop over the reads of the timer; a script that has run out stands for one that waits.\<close>

fun gen_run :: "gen_options \<Rightarrow> u64 \<Rightarrow> u64 \<Rightarrow> u64 \<Rightarrow> (nat \<Rightarrow> u64 \<times> gen_write) \<Rightarrow> gen_read list \<Rightarrow> generator \<Rightarrow> generator" where
  "gen_run o1 tot period_ns start env [] s = s"
| "gen_run o1 tot period_ns start env (r # rs) s =
     (if \<not> gr_k s < tot then s
      else case r of
        GenIntr \<Rightarrow> gen_run o1 tot period_ns start env rs s
      | GenError \<Rightarrow> s
      | GenTicks n \<Rightarrow> gen_run o1 tot period_ns start env rs (gen_burst o1 tot period_ns start env (unat n) s))"

definition gen_total :: "gen_options \<Rightarrow> u64" where
  "gen_total o1 = gn_rate o1 * gn_seconds o1"

section \<open>Descriptors\<close>

interpretation gen_opener: opener "gen_open strerror ifname" "\<lambda>(c, t). [t, c]"
proof (rule openerI)
  fix w assume ok: "os_ok w"
  obtain r w1 where c: "open_can_writer strerror ifname w = (r, w1)" by fastforce
  have cl: "clean (\<lambda>fd. [fd]) w (r, w1)" using openerD [OF can_writer.opener_axioms ok] c by metis
  show "clean (\<lambda>(c, t). [t, c]) w (gen_open strerror ifname w)"
  proof (cases r)
    case (Inl e)
    then show ?thesis using cl c by (simp add: gen_open_def clean_def)
  next
    case (Inr can_fd)
    then have o1: "opened w [can_fd] w1" using cl by (simp add: clean_def)
    obtain r2 w2 where t: "open_timer strerror w1 = (r2, w2)" by fastforce
    have "os_ok w1" using o1 by (simp add: opened_def)
    then have "clean (\<lambda>fd. [fd]) w1 (r2, w2)" using openerD [OF timer.opener_axioms] t by metis
    then show ?thesis using opened_trans [OF o1, of "[]" w2] opened_trans [OF o1, of "[projr r2]" w2]
        opened_closed [of w can_fd "[]" w2] c Inr t
      by (cases r2) (simp_all add: gen_open_def clean_def)
  qed
qed

section \<open>The schedule\<close>

text \<open>The ticks the timer has reported before it failed.\<close>

fun ticks_of :: "gen_read list \<Rightarrow> nat" where
  "ticks_of [] = 0"
| "ticks_of (GenTicks n # rs) = unat n + ticks_of rs"
| "ticks_of (GenIntr # rs) = ticks_of rs"
| "ticks_of (GenError # rs) = 0"

text \<open>The state after \<open>m\<close> frames.\<close>

definition on_schedule :: "gen_options \<Rightarrow> u64 \<Rightarrow> u64 \<Rightarrow> (nat \<Rightarrow> u64 \<times> gen_write) \<Rightarrow> nat \<Rightarrow> generator \<Rightarrow> bool" where
  "on_schedule o1 period_ns start env m s \<longleftrightarrow>
     gr_k s = of_nat m \<and>
     gr_log s = map (\<lambda>k. gen_can_frame o1 (of_nat k) (fst (env k))) [0..<m] \<and>
     gr_jitter s = fold (\<lambda>k. samples_add (sint (fst (env k)) - sint (start + of_nat k * period_ns))) [0..<m] (samples_new (2 ^ 20)) \<and>
     gr_sent s = of_nat (length (filter (\<lambda>k. snd (env k) = WriteOk) [0..<m])) \<and>
     gr_enobufs s = of_nat (length (filter (\<lambda>k. snd (env k) = WriteNoBufs) [0..<m])) \<and>
     gr_send_errors s = of_nat (length (filter (\<lambda>k. snd (env k) = WriteError) [0..<m]))"

lemma gen_one_schedule:
  assumes "on_schedule o1 p st env m s" "m < 2 ^ 64"
  shows "on_schedule o1 p st env (Suc m) (gen_one o1 p st env s)"
proof -
  have "unat (gr_k s) = m" using assms by (simp add: on_schedule_def unat_of_nat_small)
  then show ?thesis using assms by (cases "env m"; cases "snd (env m)") (simp_all add: gen_one_def on_schedule_def Let_def add.commute)
qed

lemma gen_burst_schedule:
  assumes "on_schedule o1 p st env m s" "m \<le> unat tot"
  shows "on_schedule o1 p st env (min (unat tot) (m + n)) (gen_burst o1 tot p st env n s)"
  using assms
proof (induction n arbitrary: m s)
  case 0
  then show ?case by (simp add: min_def)
next
  case (Suc n)
  have m: "m < 2 ^ 64" using Suc.prems(2) order_le_less_trans [OF _ unat_u64_less [of tot]] by simp
  then have k: "gr_k s < tot \<longleftrightarrow> m < unat tot" using Suc.prems(1) by (simp add: on_schedule_def word_less_nat_alt unat_of_nat_small)
  show ?case
  proof (cases "m < unat tot")
    case True
    then show ?thesis using Suc.IH [OF gen_one_schedule [OF Suc.prems(1) m]] k by simp
  next
    case False
    then show ?thesis using Suc.prems k by (simp add: min_def)
  qed
qed

lemma gen_run_schedule:
  assumes "on_schedule o1 p st env m s" "m \<le> unat tot"
  shows "on_schedule o1 p st env (min (unat tot) (m + ticks_of rs)) (gen_run o1 tot p st env rs s)"
  using assms
proof (induction rs arbitrary: m s)
  case Nil
  then show ?case by (simp add: min_def)
next
  case (Cons r rs)
  have m: "m < 2 ^ 64" using Cons.prems(2) order_le_less_trans [OF _ unat_u64_less [of tot]] by simp
  then have k: "gr_k s < tot \<longleftrightarrow> m < unat tot" using Cons.prems(1) by (simp add: on_schedule_def word_less_nat_alt unat_of_nat_small)
  show ?case
  proof (cases "m < unat tot")
    case False
    then show ?thesis using Cons.prems k by (simp add: min_def)
  next
    case True
    show ?thesis
    proof (cases r)
      case (GenTicks n)
      have "min (unat tot) (min (unat tot) (m + unat n) + ticks_of rs) = min (unat tot) (m + ticks_of (r # rs))"
        using GenTicks by simp
      then show ?thesis
        using GenTicks True k Cons.IH [OF gen_burst_schedule [OF Cons.prems, of "unat n"]] by simp
    qed (use True k Cons in \<open>auto simp: min_def\<close>)
  qed
qed

lemma outcomes: "length (filter (\<lambda>k. f k = WriteOk) xs) + length (filter (\<lambda>k. f k = WriteNoBufs) xs) +
    length (filter (\<lambda>k. f k = WriteError) xs) = length xs"
proof (induction xs)
  case (Cons x xs)
  then show ?case by (cases "f x") simp_all
qed simp

text \<open>(C38) The generator keeps to its schedule. Whatever the timer reports, in whatever portions, interrupted or
  failing: the frames offered to the socket are frame 0, 1, 2, \<dots> of the plan, without a gap or a repetition, as
  many as there were ticks but never more than were asked for; frame \<open>k\<close> has the identifier of its place in the
  cycle and the clock reading in its payload; its lateness is measured against tick \<open>k\<close> of the schedule; and every
  frame is counted once, as sent, as refused for lack of buffers, or as an error.\<close>

theorem generator_keeps_schedule:
  "let tot = gen_total o1; m = min (unat tot) (ticks_of rs);
       s = gen_run o1 tot period_ns start env rs generator_new in
     gr_log s = map (\<lambda>k. gen_can_frame o1 (of_nat k) (fst (env k))) [0..<m] \<and>
     gr_jitter s = fold (\<lambda>k. samples_add (sint (fst (env k)) - sint (start + of_nat k * period_ns))) [0..<m] (samples_new (2 ^ 20)) \<and>
     gr_sent s + gr_enobufs s + gr_send_errors s = of_nat m \<and> gr_k s = of_nat m"
proof -
  define m where "m = min (unat (gen_total o1)) (ticks_of rs)"
  have "on_schedule o1 period_ns start env 0 generator_new" by (simp add: on_schedule_def generator_new_def)
  from gen_run_schedule [OF this, of "gen_total o1" rs]
  have s: "on_schedule o1 period_ns start env m (gen_run o1 (gen_total o1) period_ns start env rs generator_new)"
    by (simp add: m_def)
  show ?thesis using s outcomes [of "\<lambda>k. snd (env k)" "[0..<m]"] unfolding Let_def m_def [symmetric] on_schedule_def
    by (simp flip: of_nat_add)
qed

section \<open>Timestamps\<close>

text \<open>The message the kernel hands to the gateway for a frame of the generator.\<close>

definition gen_message :: "u32 \<times> u8 list \<Rightarrow> cmsg list \<Rightarrow> can_msg" where
  "gen_message cf control = \<lparr>cm_len = can_frame_size, cm_control = control, cm_can_id = fst cf, cm_dlc = 8, cm_data = snd cf\<rparr>"

lemma payload_timestamp_load: "length (data f) = 8 \<Longrightarrow> payload_timestamp f = load_le (data f)"
  by (simp add: payload_timestamp_def load_le_def)

lemma gen_frame_data:
  "data (can_to_frame sid tk ti (gen_message (gen_can_frame o1 k now) control)) = store_le 8 now"
  by (simp add: can_to_frame_def Let_def gen_message_def gen_can_frame_def store_le_def kMaxPayload_def)

text \<open>The generator's clock reading survives the whole path. A frame of the generator, received by the gateway's
  CAN source with any ancillary data, numbered, encoded into any buffer and decoded by a consumer, gives the
  probe the reading that the generator took when it sent it, so that the end-to-end figure is the
  difference of two readings of one clock.\<close>

theorem timestamp_survives:
  assumes "length out = kRecordSize"
  shows "let f = can_to_frame sid tk ti (gen_message (gen_can_frame o1 k now) control) in
    \<exists>g. decode_frame (encode_frame (f\<lparr>seq := n\<rparr>) out) = Inr g \<and> payload_timestamp g = now \<and> seq g = n \<and> t_ingest_ns g = ti"
proof -
  let ?f = "can_to_frame sid tk ti (gen_message (gen_can_frame o1 k now) control)"
  have "wire_ok (?f\<lparr>seq := n\<rparr>)" using can_to_frame_bus [of sid tk ti] by (simp add: bus_frame_def wire_ok_def)
  from frame_round_trip [OF assms this]
  have "decode_frame (encode_frame (?f\<lparr>seq := n\<rparr>) out) = Inr (?f\<lparr>seq := n\<rparr>)" .
  moreover have "payload_timestamp (?f\<lparr>seq := n\<rparr>) = now"
    using gen_frame_data by (simp add: payload_timestamp_load)
  moreover have "t_ingest_ns ?f = ti" by (simp add: can_to_frame_def Let_def)
  ultimately show ?thesis unfolding Let_def by simp
qed

theorem timestamp_survives_witness:
  "\<exists>g. decode_frame (encode_frame ((can_to_frame 0 1 2 (gen_message (gen_can_frame gen_defaults 5 123456789) []))\<lparr>seq := 9\<rparr>)
      (replicate 40 255)) = Inr g \<and> payload_timestamp g = 123456789"
  using timestamp_survives [of "replicate 40 255" 0 1 2 gen_defaults 5 123456789 "[]" 9]
  by (auto simp: kRecordSize_def Let_def)

end
