(* ===== verification/Stress.thy ===== *)
theory Stress
  imports Ring_Properties
begin

text \<open>
  The contention stress for the ring (\<^verbatim>\<open>src/ring_stress.cpp\<close>): writers publish frames that carry their own
  check, readers count what they get, frames that fail the check, and sequence numbers that go back. Writers
  and readers run on the step relation of \<open>Ring_Steps\<close>: a run is any sequence of their atomic accesses.
\<close>

section \<open>Frames and counters\<close>

definition kTearKey :: u64 where "kTearKey = 0x5A5AA5A5DEADBEEF"

definition make_frame :: "u8 \<Rightarrow> u64 \<Rightarrow> frame" where
  "make_frame producer counter =
     zero_frame\<lparr>t_ingest_ns := counter, t_kernel_ns := counter XOR kTearKey, can_id := ucast (counter AND 0x7FF),
       src_id := producer, len := 8, data := map (\<lambda>i. ucast (drop_bit (8 * i) counter AND 0xFF)) [0..<8]\<rparr>"

definition intact :: "frame \<Rightarrow> bool" where
  "intact f \<longleftrightarrow>
     (let c = t_ingest_ns f in
      t_kernel_ns f = c XOR kTearKey \<and> can_id f = ucast (c AND 0x7FF) \<and>
      list_all (\<lambda>i. data f ! i = ucast (drop_bit (8 * i) c AND 0xFF)) [0..<8])"

record reader_counts =
  rc_received :: u64
  rc_torn :: u64
  rc_regressions :: u64
  rc_last :: u64
  rc_have :: bool

definition reader_counts0 :: reader_counts where
  "reader_counts0 = \<lparr>rc_received = 0, rc_torn = 0, rc_regressions = 0, rc_last = 0, rc_have = False\<rparr>"

text \<open>One frame of a batch a reader has got.\<close>

definition count_frame :: "frame \<Rightarrow> reader_counts \<Rightarrow> reader_counts" where
  "count_frame f c =
     (let c = c\<lparr>rc_received := rc_received c + 1\<rparr>;
          c = (if \<not> intact f then c\<lparr>rc_torn := rc_torn c + 1\<rparr> else c);
          c = (if rc_have c \<and> seq f \<le> rc_last c then c\<lparr>rc_regressions := rc_regressions c + 1\<rparr> else c)
      in c\<lparr>rc_last := seq f, rc_have := True\<rparr>)"

definition count_frames :: "frame list \<Rightarrow> reader_counts \<Rightarrow> reader_counts" where
  "count_frames fs c = fold count_frame fs c"

text \<open>The verdict: what the readers counted, added up, and \<open>inconsistent_reads\<close> of the ring.\<close>

definition stress_failed :: "reader_counts list \<Rightarrow> ring \<Rightarrow> bool" where
  "stress_failed cs r \<longleftrightarrow>
     sum_list (map rc_torn cs) \<noteq> 0 \<or> r_inconsistent_reads r \<noteq> 0 \<or> sum_list (map rc_regressions cs) \<noteq> 0"

text \<open>Writer \<open>p\<close> publishes \<open>make_frame p 0\<close>, \<open>make_frame p 1\<close>, \<dots>, one at a time: \<open>n p\<close> is its next counter.\<close>

fun writers_follow :: "(nat \<Rightarrow> u64) \<Rightarrow> action list \<Rightarrow> bool" where
  "writers_follow n [] \<longleftrightarrow> True"
| "writers_follow n (Call p fs # as) \<longleftrightarrow>
     fs = [make_frame (of_nat p AND 0xFF) (n p)] \<and> writers_follow (n(p := n p + 1)) as"
| "writers_follow n (a # as) \<longleftrightarrow> writers_follow n as"

section \<open>Proofs\<close>

lemma intact_make_frame: "intact (make_frame p c)"
  by (simp add: intact_def make_frame_def list_all_iff Let_def)

lemma intact_seq [simp]: "intact (f\<lparr>seq := x\<rparr>) = intact f"
  by (simp add: intact_def)

text \<open>Only intact frames are on their way into the ring.\<close>

definition intact_sys :: "ring_sys \<Rightarrow> bool" where
  "intact_sys s \<longleftrightarrow> list_all intact (s_log s) \<and> (\<forall>p fs. s_prod s p = PTake fs \<longrightarrow> list_all intact fs)"

lemma exec_producer_intact:
  assumes "intact_sys s" "exec_producer a s = Some t" "\<And>p fs. a = Call p fs \<Longrightarrow> list_all intact fs"
  shows "intact_sys t"
  using assms
proof (cases a)
  case (Call p fs)
  then show ?thesis using assms by (auto simp: intact_sys_def split: if_splits)
next
  case (Take p)
  then obtain fs where fs: "s_prod s p = PTake fs" using assms(2) by (auto split: ppc.splits)
  then have "list_all intact fs" using assms(1) by (auto simp: intact_sys_def)
  then show ?thesis using assms(1,2) Take fs by (auto simp: intact_sys_def split: prod.splits if_splits)
qed (use assms in \<open>auto simp: intact_sys_def Let_def split: ppc.splits prod.splits if_splits\<close>)

lemma exec_reader_intact: "intact_sys s \<Longrightarrow> exec_reader a s = Some t \<Longrightarrow> intact_sys t"
  by (cases a) (auto simp: intact_sys_def Let_def split: if_splits rpc.splits s1_verdict.splits s2_verdict.splits)

lemma exec_all_intact:
  "writers_follow n as \<Longrightarrow> intact_sys s \<Longrightarrow> exec_all as s = Some t \<Longrightarrow> intact_sys t"
proof (induction as arbitrary: n s)
  case (Cons a as)
  obtain u where u: "exec_producer a s = Some u \<or> exec_reader a s = Some u" "exec_all as u = Some t"
    using Cons.prems(3) by (auto split: option.splits)
  have "list_all intact fs" if "a = Call p fs" for p fs using Cons.prems(1) that by (simp add: intact_make_frame)
  then have "intact_sys u" using u(1) exec_producer_intact [OF Cons.prems(2)] exec_reader_intact [OF Cons.prems(2)] by blast
  moreover have "\<exists>m. writers_follow m as" using Cons.prems(1) by (cases a) auto
  ultimately show ?case using Cons.IH u(2) by blast
qed simp

lemma count_frames_clean:
  assumes "list_all intact fs" "sorted_wrt (<) (map seq fs)" "rc_have c \<Longrightarrow> \<forall>f \<in> set fs. rc_last c < seq f"
  shows "rc_torn (count_frames fs c) = rc_torn c \<and> rc_regressions (count_frames fs c) = rc_regressions c \<and>
    rc_received (count_frames fs c) = rc_received c + of_nat (length fs)"
  using assms
proof (induction fs arbitrary: c)
  case (Cons f fs)
  have r: "\<not> (rc_have c \<and> seq f \<le> rc_last c)" using Cons.prems(3) by (auto simp: not_le)
  have c: "rc_torn (count_frame f c) = rc_torn c" "rc_regressions (count_frame f c) = rc_regressions c"
      "rc_received (count_frame f c) = rc_received c + 1" "rc_last (count_frame f c) = seq f"
    using r Cons.prems(1) by (auto simp: count_frame_def Let_def)
  show ?case using Cons.IH [of "count_frame f c"] Cons.prems(1,2) c by (simp add: count_frames_def)
qed (simp add: count_frames_def)

text \<open>The stress cannot fail on the ring as modelled. For any ring capacity, any writers, any readers and
  any interleaving of their atomic accesses, no reader counts a torn frame or a sequence number that goes
  back, and the ring counts no inconsistent read: the verdict is \<open>OK\<close>, and each reader's count is the number
  of frames it was given.\<close>

theorem stress_reports_ok:
  assumes "ring_new capacity = Some r" "writers_follow (\<lambda>_. 0) as" "exec_all as (ring_init r) = Some s"
    and "length (s_log s) \<le> 2 ^ 62"
  shows "\<not> stress_failed (map (\<lambda>b. count_frames (s_out s b) reader_counts0) readers) (s_ring s) \<and>
    rc_received (count_frames (s_out s b) reader_counts0) = of_nat (length (s_out s b))"
proof -
  have reach: "ring_reachable capacity s" by (rule exec_all_reachable [OF ring_reachable.start [OF assms(1)] assms(3)])
  note inv = ring_reachable_inv [OF reach assms(4)]
  have "intact_sys (ring_init r)" by (simp add: intact_sys_def ring_init_def)
  then have log: "list_all intact (s_log s)" using exec_all_intact [OF assms(2) _ assms(3)] by (simp add: intact_sys_def)
  have out: "sorted_wrt (<) (map seq (s_out s b))" "list_all intact (s_out s b)" for b
  proof -
    have o: "sorted_wrt (<) (map seq (s_out s b))"
        "\<forall>f \<in> set (s_out s b). unat (seq f) < length (s_log s) \<and> f = (s_log s ! unat (seq f))\<lparr>seq := seq f\<rparr>"
      using ring_invD(8) [OF inv, of b] by (auto simp: reader_out_ok_def word_less_nat_alt)
    show "sorted_wrt (<) (map seq (s_out s b))" by (rule o(1))
    have "intact f" if "f \<in> set (s_out s b)" for f
    proof -
      have "intact (s_log s ! unat (seq f))" using o(2) that log by (auto simp: list_all_length)
      then have "intact ((s_log s ! unat (seq f))\<lparr>seq := seq f\<rparr>)" by simp
      then show ?thesis using o(2) that by metis
    qed
    then show "list_all intact (s_out s b)" by (simp add: list_all_iff)
  qed
  have clean: "rc_torn (count_frames (s_out s b) reader_counts0) = 0 \<and> rc_regressions (count_frames (s_out s b) reader_counts0) = 0 \<and>
      rc_received (count_frames (s_out s b) reader_counts0) = of_nat (length (s_out s b))" for b
    using count_frames_clean [OF out(2,1), of reader_counts0 b] by (simp add: reader_counts0_def)
  moreover have "r_inconsistent_reads (s_ring s) = 0" using ring_invD(3) [OF inv] .
  ultimately show ?thesis by (simp add: stress_failed_def comp_def)
qed

theorem stress_reports_ok_witness:
  "\<exists>r s. ring_new 2 = Some r \<and> exec_all (demo_schedule (make_frame 0 0)) (ring_init r) = Some s \<and> length (s_out s 7) = 1 \<and>
     \<not> stress_failed (map (\<lambda>b. count_frames (s_out s b) reader_counts0) [7, 8]) (s_ring s)"
proof -
  have "map_option (\<lambda>s. (length (s_log s), length (s_out s 7)))
     (Option.bind (ring_new 2) (\<lambda>r. exec_all (demo_schedule (make_frame 0 0)) (ring_init r))) = Some (1, 1)" by code_simp
  then obtain r s where rs: "ring_new 2 = Some r" "exec_all (demo_schedule (make_frame 0 0)) (ring_init r) = Some s"
      "length (s_log s) = 1" "length (s_out s 7) = 1"
    by (auto simp: bind_eq_Some_conv)
  have w: "writers_follow (\<lambda>_. 0) (demo_schedule (make_frame 0 0))" by (simp add: demo_schedule_def)
  have "length (s_log s) \<le> 2 ^ 62" using rs(3) by simp
  from stress_reports_ok [OF rs(1) w rs(2) this, of "[7, 8]"] rs show ?thesis by blast
qed

end
