(* ===== verification/Summaries.thy ===== *)
theory Summaries
  imports Cadence_Program Generator Stress Options Printing
begin

text \<open>
  What the recorder, the probe, the generator, the cadence program and the stress test print: the lines while they run
  and the summaries in the end (\<^verbatim>\<open>src/record_main.cpp\<close>, \<^verbatim>\<open>src/probe_main.cpp\<close>, \<^verbatim>\<open>src/gen_main.cpp\<close>,
  \<^verbatim>\<open>src/cadence_main.cpp\<close>, \<^verbatim>\<open>src/ring_stress.cpp\<close>). \<open>now\<close> is the clock reading in the end.
\<close>

section \<open>Shared pieces\<close>

definition elapsed_s :: "u64 \<Rightarrow> u64 \<Rightarrow> rat" where
  "elapsed_s now start = rnd (rnd (of_nat (unat (now - start))) / 1000000000)"

definition per_second :: "u64 \<Rightarrow> rat \<Rightarrow> rat" where
  "per_second n secs = (if secs > 0 then rnd (rnd (of_nat (unat n)) / secs) else 0)"

definition frames_line :: "u64 \<Rightarrow> rat \<Rightarrow> string" where
  "frames_line frames secs = ''frames        '' @ dec_u frames @ '' in '' @ fixed 3 secs @ ''s = '' @
     fixed 1 (per_second frames secs) @ ''/s'' @ newline"

definition marker_lines :: "u64 \<Rightarrow> u64 \<Rightarrow> string" where
  "marker_lines markers lost = ''markers       '' @ dec_u markers @ ''  ('' @ dec_u lost @ '' frames, gateway-reported)'' @ newline"

definition silent_lines :: "u64 \<Rightarrow> u64 \<Rightarrow> string" where
  "silent_lines jumps lost =
     ''silent jumps  '' @ dec_u jumps @ ''  ('' @ dec_u lost @ '' frames, no marker: a protocol fault)'' @ newline"

definition order_statistics :: "percentiles \<Rightarrow> string" where
  "order_statistics p = ''min '' @ dec_i (pc_min p) @ ''  p50 '' @ dec_i (pc_p50 p) @ ''  p90 '' @ dec_i (pc_p90 p) @
     ''  p99 '' @ dec_i (pc_p99 p) @ ''  p99.9 '' @ dec_i (pc_p999 p) @ ''  max '' @ dec_i (pc_max p)"

section \<open>The recorder\<close>

definition rec_report_line :: "recorder \<Rightarrow> string" where
  "rec_report_line s = dec_u (rd_frames s - rd_last_frames s) @ ''/s total='' @ dec_u (rd_frames s) @ '' bytes='' @
     dec_u (rd_bytes s) @ '' lost='' @ dec_u (total_lost (co_gaps s)) @ newline"

definition rec_summary :: "u64 \<Rightarrow> u64 \<Rightarrow> recorder \<Rightarrow> string" where
  "rec_summary now start s =
     (let secs = elapsed_s now start; p = samples_compute (rd_write_ns s); g = gt_s (co_gaps s) in
      newline @ frames_line (rd_frames s) secs @
      ''bytes         '' @ dec_u (rd_bytes s) @ newline @
      ''batches       '' @ dec_u (rd_batches s) @ newline @
      marker_lines (gs_markers g) (gs_reported_lost g) @ silent_lines (gs_silent_jumps g) (gs_silent_lost g) @
      ''write_errors  '' @ dec_u (rd_write_errors s) @ newline @
      ''protocol_errs '' @ dec_u (co_protocol_errs s) @ newline @ newline @
      ''write duration, nanoseconds:'' @ newline @
      ''  n='' @ dec_u (pc_count p) @ ''  '' @ order_statistics p @ newline)"

text \<open>\<open>can_write\<close>: the CSV file can be opened.\<close>

definition rec_csv :: "string \<Rightarrow> bool \<Rightarrow> recorder \<Rightarrow> string \<times> string option" where
  "rec_csv path can_write s =
     (if path = [] then ([], None)
      else case write_csv can_write ''write_duration_ns'' (rd_write_ns s) of
        (ok, file) \<Rightarrow> (if ok then [] else ''failed to write '' @ path @ newline, file))"

section \<open>The probe\<close>

definition samples_report :: "string \<Rightarrow> samples \<Rightarrow> string" where
  "samples_report label s =
     (let p = samples_compute s in
      if pc_count p = 0 then pad_right 8 label @ '' no samples'' @ newline
      else pad_right 8 label @ '' n='' @ dec_u (pc_count p) @ '' (retained '' @ to_dec (length (sm_values s)) @
        '', stride '' @ dec_u (sm_stride s) @ '')'' @ newline @ ''         '' @ order_statistics p @
        ''  mean '' @ fixed 0 (pc_mean p) @ newline)"

definition probe_report_line :: "probe \<Rightarrow> i64 \<Rightarrow> string" where
  "probe_report_line s live_p50 = dec_u (pb_frames s - pb_last_frames s) @ ''/s total='' @ dec_u (pb_frames s) @
     '' lost='' @ dec_u (total_lost (co_gaps s)) @ '' gw_p50='' @ dec_i live_p50 @ ''ns'' @ newline"

definition probe_summary :: "u64 \<Rightarrow> u64 \<Rightarrow> int \<Rightarrow> probe \<Rightarrow> string" where
  "probe_summary now start warmup s =
     (let secs = elapsed_s now start; g = gt_s (co_gaps s) in
      newline @ frames_line (pb_frames s) secs @
      ''batches       '' @ dec_u (pb_batches s) @ '' (mean '' @
        fixed 1 (if pb_batches s > 0 then rnd (rnd (of_nat (unat (pb_frames s))) / rnd (of_nat (unat (pb_batches s)))) else 0) @
        '' frames/batch)'' @ newline @
      marker_lines (gs_markers g) (gs_reported_lost g) @
      ''absent        '' @ dec_u (gs_absent_markers g) @ ''  ('' @ dec_u (gs_absent_frames g) @
        '' frames passed while disconnected)'' @ newline @
      silent_lines (gs_silent_jumps g) (gs_silent_lost g) @
      ''connections   '' @ dec_u (pb_reconnects s) @ newline @
      ''protocol_errs '' @ dec_u (co_protocol_errs s) @ newline @
      ''warmup        '' @ dec_u (pb_warmup_discarded s) @ '' samples discarded (first '' @ dec_i warmup @ ''s)'' @ newline @ newline @
      ''latency, nanoseconds ('' @
        (if pb_cross s then ''CLOCK_REALTIME across hosts: accurate only to the clock discipline''
         else ''CLOCK_MONOTONIC, valid only within one machine'') @ ''):'' @ newline @
      samples_report ''gateway'' (pb_latency s) @
      (if sm_total (pb_first_frame s) > 0 then samples_report ''connect'' (pb_first_frame s) else []) @
      (if pb_e2e s then samples_report ''e2e'' (pb_e2e_latency s) else []))"

text \<open>The probe and the generator say what became of their file.\<close>

definition csv_outcome :: "(nat \<Rightarrow> string) \<Rightarrow> nat \<Rightarrow> string \<Rightarrow> string \<Rightarrow> bool \<Rightarrow> samples \<Rightarrow> string \<times> string option" where
  "csv_outcome strerror errno header path can_write s =
     (if path = [] then ([], None)
      else case write_csv can_write header s of
        (ok, file) \<Rightarrow>
          (if ok then newline @ ''wrote '' @ path @ newline
           else newline @ ''failed to write '' @ path @ '': '' @ strerror errno @ newline, file))"

definition probe_csv :: "(nat \<Rightarrow> string) \<Rightarrow> nat \<Rightarrow> string \<Rightarrow> bool \<Rightarrow> probe \<Rightarrow> string \<times> string option" where
  "probe_csv strerror errno path can_write s = csv_outcome strerror errno ''gateway_latency_ns'' path can_write (pb_latency s)"

section \<open>The generator\<close>

definition gen_csv :: "(nat \<Rightarrow> string) \<Rightarrow> nat \<Rightarrow> string \<Rightarrow> bool \<Rightarrow> generator \<Rightarrow> string \<times> string option" where
  "gen_csv strerror errno path can_write s = csv_outcome strerror errno ''pacing_error_ns'' path can_write (gr_jitter s)"

definition gen_summary :: "u64 \<Rightarrow> u64 \<Rightarrow> u64 \<Rightarrow> u64 \<Rightarrow> generator \<Rightarrow> string" where
  "gen_summary now start requested rate s =
     (let secs = elapsed_s now start; achieved = per_second (gr_sent s) secs; p = samples_compute (gr_jitter s) in
      newline @ ''requested   '' @ dec_u requested @ '' frames at '' @ dec_u rate @ ''/s'' @ newline @
      ''sent        '' @ dec_u (gr_sent s) @ '' in '' @ fixed 3 secs @ ''s = '' @ fixed 1 achieved @ ''/s ('' @
        fixed 2 (rnd (rnd (100 * achieved) / rnd (of_nat (unat rate)))) @ ''% of requested)'' @ newline @
      ''enobufs     '' @ dec_u (gr_enobufs s) @ newline @
      ''send_errors '' @ dec_u (gr_send_errors s) @ newline @ newline @
      ''pacing error vs the absolute schedule, nanoseconds:'' @ newline @
      ''  samples '' @ dec_u (pc_count p) @ '' (retained '' @ to_dec (length (sm_values (gr_jitter s))) @ '', stride '' @
        dec_u (sm_stride (gr_jitter s)) @ '')'' @ newline @
      ''  '' @ order_statistics p @ ''  mean '' @ fixed 0 (pc_mean p) @ newline)"

section \<open>The cadence program\<close>

definition id_line :: "u32 \<Rightarrow> id_stats \<Rightarrow> string" where
  "id_line i st = ''0x'' @ pad_right 6 (to_hex (unat i)) @ '' '' @ pad_left 10 (dec_u (is_frames st)) @ '' '' @
     pad_left 10 (fixed 2 (rnd (rnd (of_nat (unat (is_expected_ns st))) / 1000000))) @ ''ms '' @
     pad_left 10 (dec_u (is_anomalies st)) @ '' '' @
     pad_left 10 (fixed 2 (rnd (rnd (of_nat (unat (is_worst_ns st))) / 1000000))) @ ''ms'' @ newline"

text \<open>The loop over \<open>per_id()\<close>, a map ordered by identifier.\<close>

definition id_lines :: "monitor \<Rightarrow> string list" where
  "id_lines m = map (\<lambda>i. id_line i (the (per_id m i))) (sorted_list_of_set (dom (per_id m)))"

definition cadence_summary :: "u64 \<Rightarrow> u64 \<Rightarrow> bool \<Rightarrow> monitor \<Rightarrow> gap_tracker \<Rightarrow> u64 \<Rightarrow> string" where
  "cadence_summary now start gap_blind m gaps protocol_errs =
     (let g = gt_s gaps; ids = id_lines m in
      newline @ ''mode          '' @ (if gap_blind then ''gap-blind (control arm)'' else ''gap-aware'') @ newline @
      ''frames        '' @ dec_u (cm_frames m) @ '' in '' @ fixed 3 (elapsed_s now start) @ ''s'' @ newline @
      ''ids           '' @ to_dec (length ids) @ newline @
      marker_lines (cm_markers m) (cm_reported_lost m) @ silent_lines (gs_silent_jumps g) (gs_silent_lost g) @
      ''suppressed    '' @ dec_u (cm_suppressed m) @ ''  (interval checks skipped across known loss)'' @ newline @
      ''anomalies     '' @ dec_u (cm_anomalies m) @ newline @
      ''protocol_errs '' @ dec_u protocol_errs @ newline @
      (if ids = [] then []
       else newline @ pad_right 8 ''id'' @ '' '' @ pad_left 10 ''frames'' @ '' '' @ pad_left 12 ''period'' @ '' '' @
         pad_left 10 ''anomalies'' @ '' '' @ pad_left 12 ''worst gap'' @ newline @
         concat ids))"

section \<open>The stress test\<close>

text \<open>\<open>missed\<close> is the sum of the cursors' counters, \<open>secs\<close> a double.\<close>

definition stress_text :: "stress_options \<Rightarrow> rat \<Rightarrow> reader_counts list \<Rightarrow> u64 \<Rightarrow> ring \<Rightarrow> string" where
  "stress_text o1 secs cs missed r =
     (let published = r_write_pos r in
      ''producers='' @ dec_u (so_producers o1) @ '' readers='' @ dec_u (so_readers o1) @ '' capacity='' @
      dec_u (so_capacity o1) @ '' seconds='' @ dec_i (so_seconds o1) @ newline @ newline @
      ''published      '' @ dec_u published @ ''  ('' @ fixed 0 (per_second published secs) @ ''/s)'' @ newline @
      ''received       '' @ dec_u (sum_list (map rc_received cs)) @ newline @
      ''missed         '' @ dec_u missed @ newline @
      ''claim_retries  '' @ dec_u (r_claim_retries r) @ newline @ newline @
      ''torn           '' @ dec_u (sum_list (map rc_torn cs)) @ ''   (two producers in one cell)'' @ newline @
      ''inconsistent   '' @ dec_u (r_inconsistent_reads r) @ ''   (payload from the wrong position)'' @ newline @
      ''regressions    '' @ dec_u (sum_list (map rc_regressions cs)) @ ''   (a reader's sequence went backwards)'' @ newline @
      newline @ (if stress_failed cs r then ''FAIL'' else ''OK'') @ newline)"

definition stress_exit :: "reader_counts list \<Rightarrow> ring \<Rightarrow> nat" where
  "stress_exit cs r = (if stress_failed cs r then 1 else 0)"

section \<open>Reading a summary\<close>

text \<open>The numbers of a text, as a script that evaluates a run gets them.\<close>

fun numbers_from :: "nat option \<Rightarrow> string \<Rightarrow> nat list" where
  "numbers_from None [] = []"
| "numbers_from (Some n) [] = [n]"
| "numbers_from st (c # s) =
     (case digit_value 10 c of
        Some d \<Rightarrow> numbers_from (Some (case st of None \<Rightarrow> d | Some n \<Rightarrow> n * 10 + d)) s
      | None \<Rightarrow> (case st of None \<Rightarrow> [] | Some n \<Rightarrow> [n]) @ numbers_from None s)"

definition no_digits :: "string \<Rightarrow> bool" where
  "no_digits s \<longleftrightarrow> list_all (\<lambda>c. digit_value 10 c = None) s"

lemma numbers_words: "no_digits w \<Longrightarrow> numbers_from None (w @ s) = numbers_from None s"
  by (induction w) (simp_all add: no_digits_def)

lemma numbers_digits:
  "\<forall>c \<in> set ds. digit_value 10 c \<noteq> None \<Longrightarrow> no_digits w \<Longrightarrow> w \<noteq> [] \<Longrightarrow>
   numbers_from (Some n) (ds @ w @ s) = digits 10 n ds # numbers_from None s"
proof (induction ds arbitrary: n)
  case Nil
  then obtain c v where "w = c # v" by (cases w) auto
  then show ?case using Nil.prems numbers_words [of v s] by (simp add: no_digits_def)
qed auto

lemma numbers_dec:
  assumes "no_digits w" "w \<noteq> []"
  shows "numbers_from None (to_dec n @ w @ s) = n # numbers_from None s"
proof -
  have all: "\<forall>c \<in> set (to_dec n). digit_value 10 c \<noteq> None" using to_dec_is_digit by (auto simp: is_digit_def)
  obtain c ds where ds: "to_dec n = c # ds" by (cases "to_dec n") auto
  then obtain d where d: "digit_value 10 c = Some d" using all by auto
  have "digits 10 d ds = n" using digits_to_dec_acc [of 0 n] ds d by simp
  then show ?thesis using numbers_digits [of ds w d s] all assms ds d by simp
qed

lemma numbers_dec_u:
  "no_digits w \<Longrightarrow> w \<noteq> [] \<Longrightarrow> numbers_from None (dec_u x @ w @ s) = unat x # numbers_from None s"
  by (simp add: dec_u_def numbers_dec)

lemma numbers_dec_i:
  "no_digits w \<Longrightarrow> w \<noteq> [] \<Longrightarrow> numbers_from None (dec_i x @ w @ s) = nat \<bar>x\<bar> # numbers_from None s"
  using numbers_words [of "''-''" "to_dec (nat (- x)) @ w @ s"]
  by (simp add: dec_i_def numbers_dec no_digits_def digit_value_def)

lemma numbers_fixed0:
  "no_digits w \<Longrightarrow> w \<noteq> [] \<Longrightarrow> numbers_from None (fixed 0 x @ w @ s) = nat (round_even \<bar>x\<bar>) # numbers_from None s"
  using numbers_words [of "''-''" "to_dec (nat (round_even \<bar>x\<bar>)) @ w @ s"]
  by (simp add: fixed_def Let_def numbers_dec no_digits_def digit_value_def)

lemma no_digits_append [simp]: "no_digits (a @ b) \<longleftrightarrow> no_digits a \<and> no_digits b"
  by (simp add: no_digits_def)

lemmas numbers_simps = numbers_words numbers_dec_u numbers_dec_i numbers_fixed0

lemma stress_words:
  "no_digits newline" "no_digits ''producers=''" "no_digits '' readers=''" "no_digits '' capacity=''" "no_digits '' seconds=''"
  "no_digits ''published      ''" "no_digits ''  (''" "no_digits ''/s)''" "no_digits ''received       ''" "no_digits ''missed         ''"
  "no_digits ''claim_retries  ''" "no_digits ''torn           ''" "no_digits ''   (two producers in one cell)''"
  "no_digits ''inconsistent   ''" "no_digits ''   (payload from the wrong position)''" "no_digits ''regressions    ''"
  "no_digits ''   (a reader's sequence went backwards)''" "no_digits ''OK''" "no_digits ''FAIL''" "newline \<noteq> []"
  by (simp_all add: no_digits_def digit_value_def newline_def)

text \<open>The output of the stress test is its result: reading the numbers of the text gives back the options, what was
  published, received and missed, and the three failure counts in their places; and the program exits with 0
  exactly when those three are 0.\<close>

theorem stress_text_reads_back:
  "numbers_from None (stress_text o1 secs cs missed r) =
     [unat (so_producers o1), unat (so_readers o1), unat (so_capacity o1), nat \<bar>so_seconds o1\<bar>, unat (r_write_pos r),
      nat (round_even \<bar>per_second (r_write_pos r) secs\<bar>), unat (sum_list (map rc_received cs)), unat missed,
      unat (r_claim_retries r), unat (sum_list (map rc_torn cs)), unat (r_inconsistent_reads r),
      unat (sum_list (map rc_regressions cs))] \<and>
   (stress_exit cs r = 0) = list_all (\<lambda>n. n = 0) (drop 9 (numbers_from None (stress_text o1 secs cs missed r)))"
proof -
  have verdict: "numbers_from None (newline @ (if stress_failed cs r then ''FAIL'' else ''OK'') @ newline) = []"
    using numbers_words [of "newline @ (if stress_failed cs r then ''FAIL'' else ''OK'') @ newline" "[]"] stress_words by simp
  have n: "numbers_from None (stress_text o1 secs cs missed r) =
     [unat (so_producers o1), unat (so_readers o1), unat (so_capacity o1), nat \<bar>so_seconds o1\<bar>, unat (r_write_pos r),
      nat (round_even \<bar>per_second (r_write_pos r) secs\<bar>), unat (sum_list (map rc_received cs)), unat missed,
      unat (r_claim_retries r), unat (sum_list (map rc_torn cs)), unat (r_inconsistent_reads r),
      unat (sum_list (map rc_regressions cs))]"
    unfolding stress_text_def Let_def
    by (simp only: numbers_simps stress_words list.distinct not_False_eq_True verdict)
  show ?thesis unfolding n by (auto simp: stress_exit_def stress_failed_def unat_eq_zero)
qed

end
