(* ===== verification/Recorder.thy ===== *)
theory Recorder
  imports Summaries
begin

text \<open>
  The recorder as a whole program (\<^verbatim>\<open>src/record_main.cpp\<close>): options, opening and closing the capture file, the loop that
  connects, and the exit status; and what its file holds at the end and after a loss of power, over any number of connections.
\<close>

section \<open>Runs\<close>

text \<open>Attempts to connect, with the batches that a connection carries.\<close>

type_synonym attempt = "(u64 \<times> frame list list \<times> turn_env list) option"

definition on_wire :: "attempt \<Rightarrow> (u64 \<times> u8 list \<times> turn_env list) option" where
  "on_wire = map_option (\<lambda>(now, bs, envs). (now, concat (map batch_bytes bs), envs))"

definition carried :: "attempt \<Rightarrow> frame list list" where
  "carried c = (case c of None \<Rightarrow> [] | Some (now, bs, envs) \<Rightarrow> bs)"

definition attempt_ok :: "(turn_env \<Rightarrow> bool) \<Rightarrow> attempt \<Rightarrow> bool" where
  "attempt_ok good c \<longleftrightarrow> (case c of None \<Rightarrow> True
     | Some (now, bs, envs) \<Rightarrow> list_all batch_ok_wire bs \<and> [] \<notin> set bs \<and> list_all good envs)"

text \<open>Of each attempt that was made, some first batches.\<close>

definition first_batches :: "nat list \<Rightarrow> attempt list \<Rightarrow> frame list list" where
  "first_batches ns cs = concat (map2 (\<lambda>n c. take n (carried c)) ns cs)"

lemma length_first_batches: "length (first_batches ns cs) \<le> length (concat (map carried cs))"
proof (induction ns arbitrary: cs)
  case (Cons n ns)
  show ?case using Cons.IH [of "tl cs"] by (cases cs) (simp_all add: first_batches_def le_diff_conv2 min.coboundedI1 add_mono)
qed (simp add: first_batches_def)



context recording
begin

lemma run_writes:
  assumes "list_all (attempt_ok good) cs" "P s" "rec_run reconnect (map on_wire cs) s = (gave_up, s')"
  shows "\<exists>ns. rd_done s' = rd_done s @ first_batches ns cs \<and> P s'"
  using assms
proof (induction cs arbitrary: s)
  case Nil
  then show ?case by (auto simp: rec_run_def first_batches_def)
next
  case (Cons c cs)
  have more: "\<exists>ns. rd_done s' = rd_done s @ first_batches ns (c # cs) \<and> P s'"
    if "P t" "rd_done t = rd_done s @ take n (carried c)" "rec_run reconnect (map on_wire cs) t = (gave_up, s') \<or> s' = t" for t n
  proof (cases "s' = t")
    case True
    then show ?thesis using that by (intro exI [of _ "[n]"]) (simp add: first_batches_def)
  next
    case False
    then have "rec_run reconnect (map on_wire cs) t = (gave_up, s')" "list_all (attempt_ok good) cs" using that(3) Cons.prems(1) by auto
    from Cons.IH [OF this(2) that(1) this(1)] obtain ns where "rd_done s' = rd_done t @ first_batches ns cs" "P s'" by blast
    then show ?thesis using that by (intro exI [of _ "n # ns"]) (simp add: first_batches_def)
  qed
  show ?case
  proof (cases c)
    case None
    then show ?thesis using more [of s 0] Cons.prems by (simp add: rec_run_def on_wire_def split: if_splits)
  next
    case (Some a)
    obtain now bs envs where a: "a = (now, bs, envs)" by (metis prod_cases3)
    let ?s0 = "rec_connected now (new_link (concat (map batch_bytes bs)) s)"
    have ok: "list_all batch_ok_wire bs" "[] \<notin> set bs" "list_all good envs" using Cons.prems(1) by (simp_all add: Some a attempt_ok_def)
    have p: "P ?s0" "rd_done ?s0 = rd_done s" using Cons.prems(2) on_other by (simp_all add: rec_connected_def new_link_def)
    have "follows (ln_stream (co_link ?s0)) (ln_in (co_link ?s0)) bs"
      using follows_new [OF ok(1)] by (simp add: rec_connected_def new_link_def no_link_def)
    from session_writes [OF this ok(2,3) p(1)] obtain n where
      n: "rd_done (session rec_turn envs ?s0) = rd_done s @ take n bs" "P (session rec_turn envs ?s0)" using p(2) by auto
    show ?thesis using more [OF n(2), of n] n(1) Cons.prems(3)
      by (auto simp: Some a carried_def on_wire_def rec_run_def Let_def split: if_splits)
  qed
qed

end

lemma run_gave_up:
  "rec_run reconnect (map on_wire cs) s = (gave_up, s') \<Longrightarrow> gave_up \<longleftrightarrow> \<not> reconnect \<and> cs \<noteq> [] \<and> hd cs = None"
proof (induction cs arbitrary: s)
  case (Cons c cs)
  show ?case using Cons.IH Cons.prems by (cases c) (auto simp: rec_run_def on_wire_def Let_def split: if_splits)
qed (simp add: rec_run_def)

section \<open>The file\<close>

text \<open>\<^verbatim>\<open>fflush\<close> and \<^verbatim>\<open>fclose\<close> at the end; nobody looks at their results.\<close>

definition rec_close :: "flush_result \<Rightarrow> flush_result \<Rightarrow> recorder \<Rightarrow> u8 list" where
  "rec_close flushing closing s = file_fclose closing (file_fflush flushing (rd_out s))"

text \<open>\<open>main\<close>. The environment: whether the file can be opened, the clock in the beginning and in the end, the attempts to
  connect, the results of the operations at the end, and whether the CSV file can be written. The result: exit status, what is printed in the end, the file,
  and the CSV file. Without \<^verbatim>\<open>--reconnect\<close> a failing attempt closes the file and ends the program.\<close>

record rec_env =
  pe_open :: "nat option"
  pe_start :: u64
  pe_end :: u64
  pe_attempts :: "(u64 \<times> u8 list \<times> turn_env list) option list"
  pe_flush :: flush_result
  pe_close :: flush_result
  pe_csv :: bool

definition rec_main :: "(nat \<Rightarrow> string) \<Rightarrow> rec_env \<Rightarrow> string list \<Rightarrow> nat \<times> string \<times> u8 list option \<times> string option" where
  "rec_main strerror env args =
     (case record_options_of args of
        Inl status \<Rightarrow> (status, [], None, None)
      | Inr o1 \<Rightarrow>
          (case pe_open env of
             Some errno \<Rightarrow> (1, ''cannot open '' @ ro_out o1 @ '': '' @ strerror errno @ newline, None, None)
           | None \<Rightarrow>
               (case rec_run (ro_reconnect o1) (pe_attempts env) (recorder_new (ro_fsync_every o1) (pe_start env)) of
                  (True, s) \<Rightarrow> (1, [], Some (file_fclose (pe_close env) (rd_out s)), None)
                | (False, s) \<Rightarrow>
                    (let capture = rec_close (pe_flush env) (pe_close env) s; (failure, csv) = rec_csv (ro_csv o1) (pe_csv env) s
                     in (rec_exit s, rec_summary (pe_end env) (pe_start env) s @ failure, Some capture, csv)))))"

text \<open>A turn whose file operations all succeed.\<close>

definition reliable :: "turn_env \<Rightarrow> bool" where
  "reliable env \<longleftrightarrow> full_write env \<and> te_flush env = Flushed \<and> te_fsync env"

definition recorder_logged :: "u64 \<Rightarrow> recorder \<Rightarrow> bool" where
  "recorder_logged k s \<longleftrightarrow> rd_fsync_every s = k \<and> rd_batches s = of_nat (length (rd_done s)) \<and> rd_write_errors s = 0 \<and>
     co_protocol_errs s = 0 \<and> (length (rd_done s) < 2 ^ 64 \<longrightarrow> file_ok (rd_out s) \<and>
       logged file_whole file_durable (unat k) (map batch_bytes (rd_done s)) (rd_out s))"

lemma sync_due:
  assumes "Suc n < 2 ^ 64"
  shows "k \<noteq> 0 \<and> (of_nat n + 1 :: u64) mod k = 0 \<longleftrightarrow> commit_due (unat k) (Suc n)"
proof -
  have "unat (of_nat n + 1 :: u64) = Suc n" using assms unat_of_nat_small [of "Suc n"] by (simp add: add.commute)
  then have "unat ((of_nat n + 1 :: u64) mod k) = Suc n mod unat k" by (simp add: unat_mod_distrib)
  then show ?thesis unfolding commit_due_def unat_eq_0 [symmetric] by simp
qed

lemma rec_write_out:
  assumes "reliable env" "batch_ok_wire batch"
  defines "f \<equiv> file_fwrite (te_spill env) (batch_bytes batch)"
  shows "rd_out (rec_write env batch s) =
    (if rd_fsync_every s \<noteq> 0 \<and> (rd_batches s + 1) mod rd_fsync_every s = 0 then file_fsync True (file_fflush Flushed (f (rd_out s))) else f (rd_out s))"
    "rd_batches (rec_write env batch s) = rd_batches s + 1" "rd_fsync_every (rec_write env batch s) = rd_fsync_every s"
proof -
  have ok: "list_all frame_ok batch" using assms(2) by (auto simp: batch_ok_wire_def wire_ok_def list_all_iff)
  have "take (min (te_written env) (length (batch_bytes batch))) (batch_bytes batch) = batch_bytes batch"
    using assms(1) length_batch_bytes [of batch] assms(2) by (simp add: reliable_def full_write_def batch_ok_wire_def kRecordSize_def)
  moreover have "te_flush env = Flushed" "te_fsync env" using assms(1) by (simp_all add: reliable_def)
  ultimately show "rd_out (rec_write env batch s) =
    (if rd_fsync_every s \<noteq> 0 \<and> (rd_batches s + 1) mod rd_fsync_every s = 0 then file_fsync True (file_fflush Flushed (f (rd_out s))) else f (rd_out s))"
    by (simp add: rec_write_def Let_def rec_encode_bytes [OF ok] f_def)
qed (simp_all add: rec_write_def Let_def)

lemma rec_write_logged:
  assumes "reliable env" "batch_ok_wire batch" "recorder_logged k s"
  shows "recorder_logged k (rec_write env batch s)"
proof -
  note out = rec_write_out [OF assms(1,2), of s]
  have k: "rd_fsync_every s = k" "rd_batches s = of_nat (length (rd_done s))" using assms(3) by (simp_all add: recorder_logged_def)
  have "file_ok (rd_out (rec_write env batch s)) \<and>
      logged file_whole file_durable (unat k) (map batch_bytes (rd_done s) @ [batch_bytes batch]) (rd_out (rec_write env batch s))"
    if l: "Suc (length (rd_done s)) < 2 ^ 64"
  proof -
    have "file_ok (rd_out s)" "logged file_whole file_durable (unat k) (map batch_bytes (rd_done s)) (rd_out s)"
      using assms(3) l by (simp_all add: recorder_logged_def)
    from file_log.append_logged [OF this, of "te_spill env" "batch_bytes batch"] show ?thesis
      unfolding out k sync_due [OF l] Let_def length_map by simp
  qed
  moreover have "full_write env" using assms(1) by (simp add: reliable_def)
  ultimately show ?thesis using assms(3) rec_write_full(2,3) [OF assms(2)] out(2,3)
    by (simp add: recorder_logged_def rec_write_keeps)
qed

interpretation durable: recording reliable "recorder_logged k"
  by unfold_locales (simp_all add: rec_write_logged, simp_all add: recorder_logged_def rec_report_def)

lemma recorder_new_logged: "recorder_logged k (recorder_new k start)"
  by (simp add: recorder_logged_def recorder_new_def file_new_logged)

lemma rec_run_captured:
  assumes "list_all (attempt_ok reliable) cs" "length (concat (map carried cs)) < 2 ^ 64"
    and "rec_run reconnect (map on_wire cs) (recorder_new k start) = (gave_up, s)"
  obtains ns where "rec_exit s = 0" "file_whole (rd_out s) = concat (map batch_bytes (first_batches ns cs))"
    "file_durable (rd_out s) = concat (map batch_bytes (take (length (first_batches ns cs) div unat k * unat k) (first_batches ns cs)))"
proof -
  obtain ns where n: "rd_done s = first_batches ns cs" "recorder_logged k s"
    using durable.run_writes [OF assms(1) recorder_new_logged assms(3)] by (auto simp: recorder_new_def)
  have "length (rd_done s) < 2 ^ 64" using length_first_batches [of ns cs] assms(2) n(1) by simp
  then show thesis using that [of ns] n by (simp add: recorder_logged_def rec_exit_def logged_def take_map)
qed

lemma rec_close_whole: "rec_close Flushed Flushed s = file_whole (rd_out s)"
  by (simp add: rec_close_def file_close_whole(1))



text \<open>Nothing that \<^verbatim>\<open>fflush\<close> or \<^verbatim>\<open>fclose\<close> report at the end reaches the exit status: a batch that is still in the buffer of the
  stream can be lost while the recorder counts it as written and reports success.\<close>

lemma unchecked_close_loses:
  "let s = rec_write capture_env [zero_frame] (recorder_new 0 0)
   in rec_exit s = 0 \<and> rd_batches s = 1 \<and> rd_file s = batch_bytes [zero_frame] \<and> rec_close (FlushFailed 0 False) Flushed s = []"
proof -
  have ok: "batch_ok_wire [zero_frame]" by (simp add: batch_ok_wire_def wire_ok_def zero_frame_ok) (simp add: zero_frame_def is_control_def)
  have rel: "reliable capture_env" "full_write capture_env"
    by (simp_all add: reliable_def full_write_def capture_env_def kHeaderSize_def kRecordSize_def)
  define s where "s = rec_write capture_env [zero_frame] (recorder_new 0 0)"
  have "rd_out s = file_fwrite 0 (batch_bytes [zero_frame]) file_new" "rd_batches s = 1"
    using rec_write_out [OF rel(1) ok, of "recorder_new 0 0"] by (simp_all add: s_def recorder_new_def capture_env_def)
  moreover have "rd_file s = batch_bytes [zero_frame]" "rd_write_errors s = 0" "co_protocol_errs s = 0"
    using rec_write_full [OF ok rel(2), of "recorder_new 0 0"] rec_write_keeps(3) [of capture_env "[zero_frame]" "recorder_new 0 0"]
    by (simp_all add: s_def recorder_new_def)
  ultimately show ?thesis unfolding s_def [symmetric] Let_def
    by (simp add: rec_exit_def rec_close_def file_fclose_def file_fflush_def file_fwrite_def file_new_def)
qed

text \<open>The exit status of the program: 2 or 0 from its command line, 1 when there is no file or no connection, and otherwise that of the run.\<close>

lemma rec_main_status:
  assumes "record_options_of args = Inr o1" "pe_open env = None" "pe_attempts env = map on_wire cs"
    and "pe_flush env = Flushed" "pe_close env = Flushed" "list_all (attempt_ok reliable) cs" "length (concat (map carried cs)) < 2 ^ 64"
  shows "\<exists>ns text csv. rec_main strerror env args =
    ((if \<not> ro_reconnect o1 \<and> cs \<noteq> [] \<and> hd cs = None then 1 else 0), text, Some (concat (map batch_bytes (first_batches ns cs))), csv)"
proof -
  let ?s0 = "recorder_new (ro_fsync_every o1) (pe_start env)"
  obtain gave_up s where r: "rec_run (ro_reconnect o1) (map on_wire cs) ?s0 = (gave_up, s)" by fastforce
  obtain ns where l: "rec_exit s = 0" "file_whole (rd_out s) = concat (map batch_bytes (first_batches ns cs))"
    by (rule rec_run_captured [OF assms(6,7) r])
  have g: "gave_up \<longleftrightarrow> \<not> ro_reconnect o1 \<and> cs \<noteq> [] \<and> hd cs = None"
    using r by (rule run_gave_up)
  show ?thesis using assms(1-5) r l by (cases gave_up)
    (auto simp: rec_main_def rec_close_whole file_close_whole(2) g [symmetric] Let_def split: prod.split)
qed

end
