(* ===== verification/Ring_System.thy ===== *)
theory Ring_System
  imports Shutdown
begin

text \<open>
  The gateway over its ring, as one state that all its threads share: the ingest threads, an egress thread per consumer,
  and the main thread, which in the end raises the ingest threads' event, joins them, and then stops one egress after
  the other. The tap, which reads the ring with a cursor of its own and writes nothing there, is left out. A step is a turn of a thread or an action of the main thread; steps come in any order that the
  threads' states allow. Inside a turn nothing else happens; what may happen there is the subject of \<open>Ring_Steps\<close>
  for the accesses to a cell, and of \<open>Feed\<close> for a call of \<open>pop_batch\<close>.
\<close>

section \<open>State and steps\<close>

text \<open>A consumer's thread: whether it has returned, its egress, and its feed, whose ring is the shared one.\<close>

type_synonym ring_consumer = "bool \<times> egress \<times> ring_feed"

record ring_system =
  sy_ingest :: ring_ingest
  sy_consumers :: "ring_consumer list"
  sy_stopping :: bool
  sy_joined :: bool
  sy_closing :: nat

definition ring_system_new :: "source list \<Rightarrow> tuning list \<Rightarrow> ring \<Rightarrow> ring_system" where
  "ring_system_new sources tunings r =
     \<lparr>sy_ingest = ring_ingest_new sources r, sy_consumers = map (\<lambda>t. (False, egress_new t, ring_feed_new r)) tunings,
      sy_stopping = False, sy_joined = False, sy_closing = 0\<rparr>"

definition on_ring :: "ring \<Rightarrow> ring_feed \<Rightarrow> ring_feed" where
  "on_ring r fd = fd\<lparr>rf_ring := r, rf_arrivals := []\<rparr>"

text \<open>\<open>sy_closing\<close> egresses have had their event raised. A thread whose event is raised sees it in every \<^verbatim>\<open>poll\<close>; the main
  thread stops an egress when the one before has been joined.\<close>

inductive ring_system_step :: "ring_system \<Rightarrow> ring_system \<Rightarrow> bool" where
  ingest: "i < length (ri_sources (sy_ingest s)) \<Longrightarrow> \<not> ri_stopped (sy_ingest s) ! i \<Longrightarrow> sy_stopping s \<longrightarrow> event_seen p \<Longrightarrow>
     ring_turn i p (sy_ingest s) = Some ing \<Longrightarrow> ring_system_step s (s\<lparr>sy_ingest := ing\<rparr>)"
| serve: "j < length (sy_consumers s) \<Longrightarrow> sy_consumers s ! j = (False, e, fd) \<Longrightarrow> j < sy_closing s \<longrightarrow> stop_seen (ev_wait env) \<Longrightarrow>
     run_turn ring_feed_pop ring_feed_closed env e (on_ring (ri_ring (sy_ingest s)) fd) = Some (stop, e', fd') \<Longrightarrow>
     ring_system_step s (s\<lparr>sy_consumers := (sy_consumers s)[j := (stop, e', fd')],
       sy_ingest := (sy_ingest s)\<lparr>ri_ring := rf_ring fd'\<rparr>\<rparr>)"
| raise: "ring_system_step s (s\<lparr>sy_stopping := True\<rparr>)"
| join: "sy_stopping s \<Longrightarrow> list_all id (ri_stopped (sy_ingest s)) \<Longrightarrow> ring_system_step s (s\<lparr>sy_joined := True\<rparr>)"
| close: "sy_joined s \<Longrightarrow> sy_closing s < length (sy_consumers s) \<Longrightarrow> \<forall>j < sy_closing s. fst (sy_consumers s ! j) \<Longrightarrow>
     ring_system_step s (s\<lparr>sy_closing := sy_closing s + 1,
       sy_ingest := (sy_ingest s)\<lparr>ri_ring := ring_close (ri_ring (sy_ingest s))\<rparr>\<rparr>)"

inductive ring_system_reachable :: "u64 \<Rightarrow> source list \<Rightarrow> tuning list \<Rightarrow> ring_system \<Rightarrow> bool" for capacity sources tunings where
  start: "ring_new capacity = Some r \<Longrightarrow> ring_system_reachable capacity sources tunings (ring_system_new sources tunings r)"
| step: "ring_system_reachable capacity sources tunings s \<Longrightarrow> ring_system_step s t \<Longrightarrow> ring_system_reachable capacity sources tunings t"

inductive_cases ring_system_stepE: "ring_system_step s t"

definition sy_log :: "ring_system \<Rightarrow> frame list" where
  "sy_log s = log_frames (ri_log (sy_ingest s))"

section \<open>Turns\<close>

lemma ring_pop_alone:
  assumes "ring_feeds L lo s" "rf_arrivals s = []" "ring_feed_pop n s = Some (fs, s')"
  shows "rf_ring s' = rf_ring s \<and> rf_arrivals s' = []"
proof (cases "n = 0")
  case True
  have r: "feed_read 0 t = Some ([], t)" if "rf_arrivals t = []" for t
    using that by (simp add: feed_read_def read_loop.simps)
  have "rf_ring (feed_wait s) = rf_ring s" "rf_arrivals (feed_wait s) = []"
    using assms(2) by (simp_all add: feed_wait_def wait_for_data_def Let_def)
  then show ?thesis using assms(2,3) r True by (auto simp: ring_feed_pop_def publish_stats_def split: if_splits)
next
  case False
  obtain gs c where g: "feed_read n s = Some (gs, s\<lparr>rf_cursor := c\<rparr>)" "ring_feeds L (resume_at lo gs) (s\<lparr>rf_cursor := c\<rparr>)"
    using feed_read_alone [OF assms(1,2), of n] False by blast
  let ?w = "feed_wait (s\<lparr>rf_cursor := c\<rparr>)"
  have w: "?w = s\<lparr>rf_cursor := c\<rparr>" using assms(2) by (simp add: feed_wait_def wait_for_data_def Let_def)
  have arr: "rf_arrivals (s\<lparr>rf_cursor := c\<rparr>) = []" "0 < n" using False assms(2) by simp_all
  obtain hs d where h: "feed_read n ?w = Some (hs, ?w\<lparr>rf_cursor := d\<rparr>)"
    unfolding w by (rule feed_read_alone [OF g(2) arr])
  show ?thesis using assms(2,3) g(1) h w by (auto simp: ring_feed_pop_def publish_stats_def split: if_splits)
qed

interpretation alone: contained_feed ring_feed_pop "\<lambda>s. (\<exists>lo. ring_feeds L lo s) \<and> rf_arrivals s = [] \<and> rf_ring s = r" "of_log L"
proof
  fix n and s s' :: ring_feed and fs
  assume a: "(\<exists>lo. ring_feeds L lo s) \<and> rf_arrivals s = [] \<and> rf_ring s = r" and p: "ring_feed_pop n s = Some (fs, s')"
  then show "list_all (of_log L) fs \<and> (\<exists>lo. ring_feeds L lo s') \<and> rf_arrivals s' = [] \<and> rf_ring s' = r"
    using rc.pop_contained [OF _ p, of L] ring_pop_alone [OF _ _ p] by blast
qed

lemma publish_batch_closed: "publish_batch fs r = Some (n, r') \<Longrightarrow> r_closed r' = r_closed r"
proof -
  have store: "r_closed (fold (\<lambda>k. store_word pos k (g k)) ks x) = r_closed x" for pos g ks x
    by (induction ks arbitrary: x) (simp_all add: store_word_def set_cell_def)
  have "write_at pos f x = Some x' \<Longrightarrow> r_closed x' = r_closed x" for pos f x x'
    by (auto simp: write_at_def publish_cell_def set_cell_def cas_claim_def store split: if_splits)
  then have "write_all pos fs x = Some x' \<Longrightarrow> r_closed x' = r_closed x" for pos x x'
    by (induction fs arbitrary: pos x) (auto simp: bind_eq_Some_conv; metis)+
  then show "publish_batch fs r = Some (n, r') \<Longrightarrow> r_closed r' = r_closed r"
    by (auto simp: publish_batch_def take_tickets_def Let_def split: if_splits)
qed

section \<open>The invariant\<close>

text \<open>The ring holds the log of the ingest; every egress is at the head of its loop, in front of what it has not sent yet;
  and a thread that has returned with a client has sent everything, after the end of the ingest.\<close>

definition consumer_inv :: "frame list \<Rightarrow> ring \<Rightarrow> bool \<Rightarrow> ring_consumer \<Rightarrow> bool" where
  "consumer_inv L r joined = (\<lambda>(returned, e, fd).
     head_inv e \<and> ring_feeds L (unat (e_next_seq e)) (on_ring r fd) \<and> sent_from (of_log L) e \<and>
     (returned \<and> e_client e \<longrightarrow> joined \<and> unat (e_next_seq e) = length L))"

definition ring_system_inv :: "ring_system \<Rightarrow> bool" where
  "ring_system_inv s \<longleftrightarrow> ring_holds (ri_ring (sy_ingest s)) (sy_log s) \<and> list_all bus_frame (sy_log s) \<and>
     length (sy_log s) \<le> 2 ^ 62 \<and> ring_ready (sy_ingest s) \<and> (r_closed (ri_ring (sy_ingest s)) \<longrightarrow> sy_joined s) \<and>
     (sy_joined s \<longrightarrow> list_all id (ri_stopped (sy_ingest s))) \<and>
     list_all (consumer_inv (sy_log s) (ri_ring (sy_ingest s)) (sy_joined s)) (sy_consumers s)"

lemma of_log_append: "of_log L f \<Longrightarrow> of_log (L @ fs) f"
  by (auto simp: of_log_def frame_at_def nth_append)

lemma consumer_inv_publish:
  assumes "consumer_inv L r joined c" "publish_batch fs r = Some (n, r')" "list_all bus_frame fs" "length (L @ fs) \<le> 2 ^ 62" "\<not> joined"
  shows "consumer_inv (L @ fs) r' joined c"
proof -
  obtain returned e fd where c: "c = (returned, e, fd)" by (metis prod_cases3)
  have "reads_from (L @ fs) (unat (e_next_seq e)) (rf_cursor fd) r [fs]"
    using assms(1,3,4) by (auto simp: c consumer_inv_def ring_feeds_def on_ring_def reads_from_def)
  then have "reads_from (L @ fs) (unat (e_next_seq e)) (rf_cursor fd) r' []"
    by (rule publish_reads_from) (use assms(2) in simp)
  moreover have "sent_from (of_log (L @ fs)) e"
    using assms(1) of_log_append by (auto simp: c consumer_inv_def intro: sent_from_mono)
  ultimately show ?thesis using assms(1,5) by (auto simp: c consumer_inv_def ring_feeds_def on_ring_def)
qed

text \<open>A turn of an ingest thread publishes a batch of bus frames, or nothing.\<close>

lemma ring_turn_batch:
  assumes "ring_turn i p s = Some s'" "i < length (ri_sources s)"
  obtains fs n where "publish_batch fs (ri_ring s) = Some (n, ri_ring s')" "log_frames (ri_log s') = log_frames (ri_log s) @ fs"
    "list_all bus_frame fs"
proof -
  have "\<exists>fs n. publish_batch fs (ri_ring s) = Some (n, ri_ring s1) \<and> log_frames (ri_log s1) = log_frames (ri_log s) @ fs \<and> list_all bus_frame fs"
    if "ring_source i env s = Some s1" for env s1
  proof -
    obtain fs src where d: "drain env kDrainBatch (ri_sources s ! i) = (fs, src)" by fastforce
    then show ?thesis using any_source.drain_promise [OF d] that
      by (intro exI [of _ fs]) (auto simp: ring_source_def Let_def publish_batch_def [of "[]"] split: if_splits)
  qed
  moreover have "publish_batch [] (ri_ring s) = Some (r_write_pos (ri_ring s), ri_ring s)" by (simp add: publish_batch_def)
  ultimately have "\<exists>fs n. publish_batch fs (ri_ring s) = Some (n, ri_ring s') \<and> log_frames (ri_log s') = log_frames (ri_log s) @ fs \<and> list_all bus_frame fs"
    using assms(1) by (auto simp: ring_turn_def split: ingest_poll.splits list.splits option.splits if_splits; fastforce)
  then show thesis using that by blast
qed

text \<open>A turn of an egress thread leaves the ring alone.\<close>

lemma consumer_inv_turn:
  assumes "consumer_inv L r joined (False, e, fd)" "r_closed r \<longrightarrow> joined"
    and t: "run_turn ring_feed_pop ring_feed_closed env e (on_ring r fd) = Some (stop, e', fd')"
  shows "consumer_inv L r joined (stop, e', fd') \<and> rf_ring fd' = r"
proof -
  have c: "head_inv e" "ring_feeds L (unat (e_next_seq e)) (on_ring r fd)" "sent_from (of_log L) e"
    using assms(1) by (simp_all add: consumer_inv_def)
  have a: "head_inv e'" "ring_feeds L (unat (e_next_seq e')) fd'"
    using rs.run_turn_inv [OF c(1,2), of ring_feed_closed env] t by auto
  have "(\<exists>lo. ring_feeds L lo (on_ring r fd)) \<and> rf_arrivals (on_ring r fd) = [] \<and> rf_ring (on_ring r fd) = r"
    using c(2) by (auto simp: on_ring_def)
  from alone.run_turn_contained [OF this c(3) t] have b: "sent_from (of_log L) e'" "rf_arrivals fd' = []" "rf_ring fd' = r" by auto
  then have fd: "on_ring r fd' = fd'" by (simp add: on_ring_def)
  have "joined \<and> unat (e_next_seq e') = length L" if "stop" "e_client e'"
  proof -
    note ret = run_turn_returned [OF t [unfolded \<open>stop\<close> [THEN eqTrueI]] \<open>e_client e'\<close>]
    then have closed: "r_closed r" using b(3) by (simp add: ring_feed_closed_def)
    have shut: "ring_shut (on_ring r fd)" using c(2) closed by (auto simp: ring_shut_def on_ring_def)
    obtain u where u: "take_batch ring_feed_pop env u (on_ring r fd) = Some ([], e', fd')" using ret(2) by blast
    then have "e_tuning e' = e_tuning u" by (rule take_batch_tuning)
    then have "0 < tn_max_frames (e_tuning u)" using a(1) by (simp add: head_inv_def)
    from closed_ring.take_batch_shut [OF shut this, of env] have "ring_left fd' = 0" using u by (metis option.inject prod.inject)
    then show ?thesis using ring_left_held [OF a(2) b(2)] a(2) b(2) closed assms(2) by (auto simp: ring_feeds_def reads_from_def)
  qed
  then show ?thesis using a b fd by (simp add: consumer_inv_def)
qed

lemma ring_system_step_grows: "ring_system_step s t \<Longrightarrow> length (sy_log s) \<le> length (sy_log t)"
proof (induction rule: ring_system_step.induct)
  case (ingest i s p ing)
  then show ?case by (auto simp: sy_log_def elim: ring_turn_batch)
qed (simp_all add: sy_log_def)

lemma ring_system_step_inv:
  assumes "ring_system_step s t" "ring_system_inv s" "length (sy_log t) \<le> 2 ^ 62"
  shows "ring_system_inv t"
  using assms
proof (induction rule: ring_system_step.induct)
  case (ingest i s p ing)
  obtain fs n where p: "publish_batch fs (ri_ring (sy_ingest s)) = Some (n, ri_ring ing)"
      "log_frames (ri_log ing) = sy_log s @ fs" "list_all bus_frame fs"
    using ring_turn_batch [OF ingest(4,1)] unfolding sy_log_def by blast
  have j: "\<not> sy_joined s" using ingest(1,2,5) by (auto simp: ring_system_inv_def ring_ready_def list_all_length)
  have len: "length (sy_log s @ fs) \<le> 2 ^ 62" using ingest(6) p(2) by (simp add: sy_log_def)
  have c: "list_all (consumer_inv (sy_log s @ fs) (ri_ring ing) False) (sy_consumers s)"
    using ingest(5) j consumer_inv_publish [OF _ p(1,3) len, of False] by (auto simp: ring_system_inv_def list_all_iff)
  have h: "ring_holds (ri_ring ing) (sy_log s @ fs)"
    using publish_batch_appends [of "ri_ring (sy_ingest s)" "sy_log s" fs] ingest(5) p len
    by (auto simp: ring_system_inv_def bus_frames_ok)
  have k: "r_closed (ri_ring ing) = r_closed (ri_ring (sy_ingest s))" by (rule publish_batch_closed [OF p(1)])
  have "ring_ready ing" using ring_turn_stopped [OF ingest(4)] ingest(1,5) by (auto simp: ring_system_inv_def ring_ready_def)
  then show ?case using ingest(5) p(2,3) j c h k len by (simp add: ring_system_inv_def sy_log_def)
next
  case (serve j s e fd env stop e' fd')
  have c: "consumer_inv (sy_log s) (ri_ring (sy_ingest s)) (sy_joined s) (False, e, fd)" "r_closed (ri_ring (sy_ingest s)) \<longrightarrow> sy_joined s"
    using serve(1,2,5) nth_mem [OF serve(1)] by (auto simp: ring_system_inv_def list_all_iff)
  from consumer_inv_turn [OF c serve(4)]
  have "consumer_inv (sy_log s) (ri_ring (sy_ingest s)) (sy_joined s) (stop, e', fd')" "rf_ring fd' = ri_ring (sy_ingest s)" by auto
  then show ?case using serve(5) by (auto simp: ring_system_inv_def sy_log_def list_all_iff dest!: set_update_subset_insert [THEN subsetD])
next
  case (close s)
  have "consumer_inv L (ring_close r) j = consumer_inv L r j" for L r j
    using ring_holds_cong [of "ring_close r" r] by (auto simp: fun_eq_iff consumer_inv_def ring_feeds_def reads_from_def on_ring_def ring_close_def)
  then show ?case using close ring_holds_cong [of "ring_close (ri_ring (sy_ingest s))" "ri_ring (sy_ingest s)"]
    by (simp add: ring_system_inv_def sy_log_def ring_close_def ring_ready_def)
qed (auto simp: ring_system_inv_def sy_log_def list_all_iff consumer_inv_def)

lemma ring_system_inv_new:
  assumes "ring_new capacity = Some r" "list_all (\<lambda>t. 0 < tn_max_frames t \<and> tn_max_frames t \<le> kMaxBatch) tunings"
  shows "ring_system_inv (ring_system_new sources tunings r)"
proof -
  note holds = ring_holds_new [OF assms(1)]
  have "\<not> r_closed r" using assms(1) by (auto simp: ring_new_def)
  moreover have "ring_feeds [] 0 (on_ring r (ring_feed_new r))"
    using ring_feed_new_feeds [OF holds, of "[]"] by (simp add: on_ring_def ring_feed_new_def)
  moreover have "sent_from (of_log []) (egress_new t)" "unat (e_next_seq (egress_new t)) = 0" for t
    by (simp_all add: egress_new_def sent_from_def)
  ultimately show ?thesis using holds assms(2) head_inv_new
    by (auto simp: ring_system_inv_def ring_system_new_def sy_log_def ring_ingest_new_def ring_ready_def consumer_inv_def list_all_iff)
qed

lemma ring_system_reachable_inv:
  assumes "ring_system_reachable capacity sources tunings s" "length (sy_log s) \<le> 2 ^ 62"
    and "list_all (\<lambda>t. 0 < tn_max_frames t \<and> tn_max_frames t \<le> kMaxBatch) tunings"
  shows "ring_system_inv s"
  using assms(1,2)
proof (induction rule: ring_system_reachable.induct)
  case (start r)
  then show ?case using ring_system_inv_new assms(3) by blast
next
  case (step s t)
  then show ?case using ring_system_step_inv ring_system_step_grows le_trans by blast
qed

end
