(* ===== verification/Queue_System.thy ===== *)
theory Queue_System
  imports Shutdown
begin

text \<open>
  The gateway over queues, as one state that all its threads share: the fan-out thread with the queues it pushes to, an
  egress thread per consumer, which pops from its queue, and the main thread, which pops from the queue of the tap, if
  there is one, and in the end stops the others. A step is a turn of a thread or an action of the main thread.
\<close>

section \<open>State and steps\<close>

text \<open>\<open>qy_consumers\<close>: whether the thread has returned, and its egress; the queue of consumer \<open>j\<close> is sink \<open>j\<close> of the
  fan-out. The queue of the tap comes after those of the consumers.\<close>

record queue_system =
  qy_fan :: fanout
  qy_returned :: bool
  qy_consumers :: "(bool \<times> egress) list"
  qy_stopping :: bool
  qy_joined :: bool
  qy_closing :: nat

definition queue_system_new :: "nat \<Rightarrow> source list \<Rightarrow> tuning list \<Rightarrow> bool \<Rightarrow> queue_system" where
  "queue_system_new capacity sources tunings tap =
     \<lparr>qy_fan = fanout_new sources (replicate (length tunings + (if tap then 1 else 0)) (bq_new zero_frame capacity)),
      qy_returned = False, qy_consumers = map (\<lambda>t. (False, egress_new t)) tunings, qy_stopping = False, qy_joined = False, qy_closing = 0\<rparr>"

definition set_sink :: "nat \<Rightarrow> frame bqueue \<Rightarrow> fanout \<Rightarrow> fanout" where
  "set_sink j q fan = fan\<lparr>fo_sinks := (fo_sinks fan)[j := q]\<rparr>"

inductive queue_system_step :: "queue_system \<Rightarrow> queue_system \<Rightarrow> bool" where
  fan: "\<not> qy_returned s \<Longrightarrow> qy_stopping s \<longrightarrow> event_seen p \<Longrightarrow> fan_turn p (qy_fan s) = (stop, fan) \<Longrightarrow>
     queue_system_step s (s\<lparr>qy_fan := fan, qy_returned := stop\<rparr>)"
| serve: "j < length (qy_consumers s) \<Longrightarrow> qy_consumers s ! j = (False, e) \<Longrightarrow> j < qy_closing s \<longrightarrow> stop_seen (ev_wait env) \<Longrightarrow>
     run_turn queue_feed_pop queue_feed_closed env e ([], fo_sinks (qy_fan s) ! j) = Some (stop, e', arr, q) \<Longrightarrow>
     queue_system_step s (s\<lparr>qy_consumers := (qy_consumers s)[j := (stop, e')], qy_fan := set_sink j q (qy_fan s)\<rparr>)"
| tap: "\<not> qy_stopping s \<Longrightarrow> length (qy_consumers s) \<le> j \<Longrightarrow> j < length (fo_sinks (qy_fan s)) \<Longrightarrow>
     queue_system_step s (s\<lparr>qy_fan := set_sink j (snd (pop_batch n (fo_sinks (qy_fan s) ! j))) (qy_fan s)\<rparr>)"
| raise: "queue_system_step s (s\<lparr>qy_stopping := True\<rparr>)"
| join: "qy_stopping s \<Longrightarrow> qy_returned s \<Longrightarrow> queue_system_step s (s\<lparr>qy_joined := True\<rparr>)"
| close: "qy_joined s \<Longrightarrow> qy_closing s < length (qy_consumers s) \<Longrightarrow> \<forall>j < qy_closing s. fst (qy_consumers s ! j) \<Longrightarrow>
     queue_system_step s (s\<lparr>qy_closing := qy_closing s + 1,
       qy_fan := set_sink (qy_closing s) (q_close (fo_sinks (qy_fan s) ! qy_closing s)) (qy_fan s)\<rparr>)"

inductive queue_system_reachable :: "nat \<Rightarrow> source list \<Rightarrow> tuning list \<Rightarrow> bool \<Rightarrow> queue_system \<Rightarrow> bool" for capacity sources tunings tap where
  start: "queue_system_reachable capacity sources tunings tap (queue_system_new capacity sources tunings tap)"
| step: "queue_system_reachable capacity sources tunings tap s \<Longrightarrow> queue_system_step s t \<Longrightarrow>
     queue_system_reachable capacity sources tunings tap t"

inductive_cases queue_system_stepE: "queue_system_step s t"

definition qy_log :: "queue_system \<Rightarrow> frame list" where
  "qy_log s = log_frames (fo_log (qy_fan s))"

section \<open>The invariant\<close>

text \<open>A consumer with its queue: everything that the egress has not sent yet and that was not dropped is in the queue.\<close>

definition queue_consumer_inv :: "frame list \<Rightarrow> bool \<Rightarrow> frame bqueue \<Rightarrow> bool \<times> egress \<Rightarrow> bool" where
  "queue_consumer_inv L joined q = (\<lambda>(returned, e).
     head_inv e \<and> queue_span (length L) (unat (e_next_seq e)) ([], q) \<and> queue_within (set L) ([], q) \<and>
     sent_from (\<lambda>f. f \<in> set L) e \<and> (q_closed q \<longrightarrow> joined) \<and>
     (returned \<and> e_client e \<longrightarrow> joined \<and> unat (e_next_seq e) = length L))"

definition queue_system_inv :: "queue_system \<Rightarrow> bool" where
  "queue_system_inv s \<longleftrightarrow> fan_counted (qy_fan s) \<and> length (qy_log s) \<le> 2 ^ 62 \<and> (qy_joined s \<longrightarrow> qy_returned s) \<and>
     length (qy_consumers s) \<le> length (fo_sinks (qy_fan s)) \<and>
     (\<forall>j < length (qy_consumers s). queue_consumer_inv (qy_log s) (qy_joined s) (fo_sinks (qy_fan s) ! j) (qy_consumers s ! j))"

text \<open>New batches in front of an open queue.\<close>

lemma queue_span_extends:
  assumes "queue_span (length L) lo ([], q)" "\<not> q_closed q" "counted (L @ concat bs)" "length (L @ concat bs) \<le> 2 ^ 62"
  shows "queue_span (length (L @ concat bs)) lo (bs, q)"
proof -
  define new where "new = concat bs"
  note assms = assms(1,2) assms(3,4) [folded new_def]
  let ?hi = "length L" and ?new = "new"
  have "[0..<length (L @ ?new)] = [0..<?hi] @ [?hi..<?hi + length ?new]" by (simp add: upt_add_eq_append [OF le0])
  then have seqs: "map seq ?new = map of_nat [?hi..<?hi + length ?new]" "list_all bus_frame ?new"
    using assms(3) by (simp_all add: counted_def)
  from ascends_numbered [OF seqs(1)] have asc: "ascends ?hi ?new" "list_all numbered ?new"
    using assms(4) seqs(2) by (auto simp: list_all_iff numbered_def)
  have old: "bq_inv q" "ascends lo (bq_view q)" "list_all numbered (bq_view q)" "resume_at lo (bq_view q) = ?hi"
    using assms(1) by (auto simp: queue_span_def queue_from_def resume_at_def Let_def split: if_splits)
  have "Suc (unat (seq (last ?new))) = length (L @ ?new)" if "?new \<noteq> []"
  proof -
    have "seq (last ?new) = last (map of_nat [?hi..<?hi + length ?new])" using that by (simp add: last_map flip: seqs(1))
    also have "\<dots> = of_nat (?hi + length ?new - 1)" using that by (simp add: last_map)
    finally have "unat (seq (last ?new)) = ?hi + length ?new - 1" using assms(4) by (simp add: unat_of_nat_small)
    then show ?thesis using that by (cases ?new) auto
  qed
  then show ?thesis using assms(1,2) old asc
    by (cases "new = []") (auto simp: queue_span_def queue_from_def ascends_append bq_open_def Let_def resume_at_def split: if_splits simp flip: new_def)
qed

lemma push_all_closed: "bq_inv q \<Longrightarrow> q_closed (fold (\<lambda>b q. snd (push_batch b q)) bs q) = q_closed q"
  by (induction bs arbitrary: q) (simp_all add: push_batch_facts)

lemma queue_consumer_inv_push:
  assumes "queue_consumer_inv L joined q c" "\<not> joined" "counted (L @ concat bs)" "length (L @ concat bs) \<le> 2 ^ 62"
  shows "queue_consumer_inv (L @ concat bs) joined (fold (\<lambda>b q. snd (push_batch b q)) bs q) c"
proof -
  obtain returned e where c: "c = (returned, e)" by fastforce
  have i: "head_inv e" "queue_span (length L) (unat (e_next_seq e)) ([], q)" "queue_within (set L) ([], q)" "sent_from (\<lambda>f. f \<in> set L) e"
      "\<not> q_closed q" "\<not> (returned \<and> e_client e)"
    using assms(1,2) by (auto simp: c queue_consumer_inv_def)
  have "queue_span (length (L @ concat bs)) (unat (e_next_seq e)) (bs, q)" by (rule queue_span_extends [OF i(2,5) assms(3,4)])
  moreover have "queue_within (set (L @ concat bs)) (bs, q)" using i(3) by (auto simp: queue_within_def)
  moreover have "bq_inv q" using i(3) by (simp add: queue_within_def)
  moreover have "sent_from (\<lambda>f. f \<in> set (L @ concat bs)) e" using i(4) by (rule sent_from_mono) simp
  ultimately show ?thesis using i queue_settles [of _ _ bs q "set (L @ concat bs)"] push_all_closed [of q bs]
    by (auto simp: c queue_consumer_inv_def)
qed

text \<open>Pops from a queue that nobody pushes to meanwhile do not close it.\<close>

interpretation alone_queue: contained_feed queue_feed_pop "\<lambda>s. queue_within G s \<and> fst s = [] \<and> q_closed (snd s) = b" "\<lambda>f. f \<in> G"
proof
  fix n and s s' :: queue_feed and fs
  assume a: "queue_within G s \<and> fst s = [] \<and> q_closed (snd s) = b" and p: "queue_feed_pop n s = Some (fs, s')"
  then have "fst s' = []" "snd s' = snd (pop_batch n (snd s))"
    by (auto simp: queue_feed_pop_def split: prod.splits)
  then show "list_all (\<lambda>f. f \<in> G) fs \<and> queue_within G s' \<and> fst s' = [] \<and> q_closed (snd s') = b"
    using qc.pop_contained [OF _ p, of G] a pop_batch_facts(3) by (auto simp: queue_within_def)
qed

lemma queue_consumer_inv_turn:
  assumes "queue_consumer_inv L joined q (False, e)"
    and t: "run_turn queue_feed_pop queue_feed_closed env e ([], q) = Some (stop, e', arr, q')"
  shows "queue_consumer_inv L joined q' (stop, e')"
proof -
  have c: "head_inv e" "queue_span (length L) (unat (e_next_seq e)) ([], q)" "queue_within (set L) ([], q)" "sent_from (\<lambda>f. f \<in> set L) e"
      "q_closed q \<longrightarrow> joined"
    using assms(1) by (simp_all add: queue_consumer_inv_def)
  have a: "head_inv e'" "queue_span (length L) (unat (e_next_seq e')) (arr, q')"
    using qs.run_turn_inv [OF c(1,2), of queue_feed_closed env] t by auto
  have "queue_within (set L) ([], q) \<and> fst ([], q) = [] \<and> q_closed (snd ([], q)) = q_closed q" using c(3) by simp
  from alone_queue.run_turn_contained [OF this c(4) t]
  have b: "sent_from (\<lambda>f. f \<in> set L) e'" "queue_within (set L) (arr, q')" "arr = []" "q_closed q' = q_closed q" by auto
  have "joined \<and> unat (e_next_seq e') = length L" if "stop" "e_client e'"
  proof -
    note ret = run_turn_returned [OF t [unfolded \<open>stop\<close> [THEN eqTrueI]] \<open>e_client e'\<close>]
    then have closed: "q_closed q" using b(4) by (simp add: queue_feed_closed_def)
    have shut: "queue_shut ([], q)" using c(3) closed by (auto simp: queue_shut_def queue_within_def)
    obtain u where u: "take_batch queue_feed_pop env u ([], q) = Some ([], e', arr, q')" using ret(2) by blast
    then have "e_tuning e' = e_tuning u" by (rule take_batch_tuning)
    then have "0 < tn_max_frames (e_tuning u)" using a(1) by (simp add: head_inv_def)
    from closed_queue.take_batch_shut [OF shut this, of env] have "queue_left (arr, q') = 0" using u by (metis option.inject prod.inject)
    then show ?thesis using a(2) b(3) closed c(5) by (auto simp: queue_span_def queue_left_def Let_def)
  qed
  then show ?thesis using a b c(5) by (simp add: queue_consumer_inv_def)
qed

lemma fan_turn_pushes:
  assumes "fan_turn p s = (stop, s')" "fan_counted s"
  obtains bs where "log_frames (fo_log s') = log_frames (fo_log s) @ concat bs" "fan_counted s'"
    "fo_sinks s' = map (fold (\<lambda>b q. snd (push_batch b q)) bs) (fo_sinks s)"
proof -
  have run: "fan_run [p] s = s'" using assms(1) by simp
  obtain new where "fo_log s' = fo_log s @ new" "fo_sinks s' = map (fold (\<lambda>b q. snd (push_batch b q)) (map snd new)) (fo_sinks s)"
    using fans_run [of s "[p]"] unfolding run by (auto simp: fans_def)
  then show thesis using that [of "map snd new"] fan_counted_run [OF assms(2), of "[p]"] run by (simp add: log_frames_def)
qed

lemma set_sink_log [simp]: "fo_log (set_sink j q fan) = fo_log fan" "fan_counted (set_sink j q fan) = fan_counted fan"
    "length (fo_sinks (set_sink j q fan)) = length (fo_sinks fan)"
  by (simp_all add: set_sink_def fan_counted_def)

lemma nth_set_sink: "i < length (fo_sinks fan) \<Longrightarrow> fo_sinks (set_sink j q fan) ! i = (if i = j then q else fo_sinks fan ! i)"
  by (simp add: set_sink_def nth_list_update)

lemma queue_consumer_inv_close: "queue_consumer_inv L True q c \<Longrightarrow> queue_consumer_inv L True (q_close q) c"
  using close_queue_span [of "length L" _ q] close_queue_within [of "set L" "([], q)"]
  by (auto simp: queue_consumer_inv_def queue_feed_close_def split: prod.splits)

lemma queue_system_step_inv:
  assumes "queue_system_step s t" "queue_system_inv s" "length (qy_log t) \<le> 2 ^ 62"
  shows "queue_system_inv t"
  using assms
proof (induction rule: queue_system_step.induct)
  case (fan s p stop fan)
  obtain bs where p: "log_frames (fo_log fan) = qy_log s @ concat bs" "fan_counted fan"
      "fo_sinks fan = map (fold (\<lambda>b q. snd (push_batch b q)) bs) (fo_sinks (qy_fan s))"
    using fan_turn_pushes [OF fan(3)] fan(4) unfolding queue_system_inv_def qy_log_def by blast
  have j: "\<not> qy_joined s" using fan(1,4) by (auto simp: queue_system_inv_def)
  have l: "length (qy_log s @ concat bs) \<le> 2 ^ 62" "counted (qy_log s @ concat bs)"
    using fan(5) p(1,2) by (simp_all add: qy_log_def fan_counted_def)
  show ?case using fan(4) j p l queue_consumer_inv_push [OF _ _ l(2,1), of False]
    by (auto simp: queue_system_inv_def qy_log_def)
next
  case (serve j s e env stop e' arr q)
  have "queue_consumer_inv (qy_log s) (qy_joined s) (fo_sinks (qy_fan s) ! j) (False, e)"
    using serve(1,2,5) by (auto simp: queue_system_inv_def)
  from queue_consumer_inv_turn [OF this serve(4)] show ?case
    using serve(1,5) by (auto simp: queue_system_inv_def qy_log_def nth_set_sink nth_list_update)
next
  case (tap s j n)
  then show ?case by (auto simp: queue_system_inv_def qy_log_def nth_set_sink)
next
  case (close s)
  then show ?case using queue_consumer_inv_close
    by (auto simp: queue_system_inv_def qy_log_def nth_set_sink)
qed (auto simp: queue_system_inv_def qy_log_def queue_consumer_inv_def split: prod.splits)

lemma queue_system_step_grows:
  "queue_system_step s t \<Longrightarrow> fan_counted (qy_fan s) \<Longrightarrow> fan_counted (qy_fan t) \<and> length (qy_log s) \<le> length (qy_log t)"
proof (induction rule: queue_system_step.induct)
  case (fan s p stop fan)
  obtain bs where "log_frames (fo_log fan) = log_frames (fo_log (qy_fan s)) @ concat bs" "fan_counted fan"
    using fan_turn_pushes [OF fan(3,4)] by blast
  then show ?case by (simp add: qy_log_def)
qed (simp_all add: qy_log_def)

lemma queue_system_inv_new:
  assumes "list_all (\<lambda>t. 0 < tn_max_frames t \<and> tn_max_frames t \<le> kMaxBatch) tunings"
  shows "queue_system_inv (queue_system_new capacity sources tunings tap)"
proof -
  have "\<not> q_closed (bq_new zero_frame capacity)" by (simp add: bq_new_def)
  then have "queue_consumer_inv [] False (bq_new zero_frame capacity) (False, egress_new t)" if "t \<in> set tunings" for t
    using that assms head_inv_new bq_inv_new bq_view_new [of zero_frame capacity]
    by (auto simp: queue_consumer_inv_def queue_span_def queue_from_def queue_within_def list_all_iff sent_from_def egress_new_def)
  then show ?thesis using fan_counted_new
    by (auto simp: queue_system_inv_def queue_system_new_def qy_log_def fanout_new_def)
qed

lemma queue_system_reachable_counted: "queue_system_reachable capacity sources tunings tap s \<Longrightarrow> fan_counted (qy_fan s)"
proof (induction rule: queue_system_reachable.induct)
  case start
  then show ?case by (simp add: queue_system_new_def fan_counted_new)
next
  case (step s t)
  then show ?case using queue_system_step_grows by blast
qed

lemma queue_system_reachable_inv:
  assumes "queue_system_reachable capacity sources tunings tap s" "length (qy_log s) \<le> 2 ^ 62"
    and "list_all (\<lambda>t. 0 < tn_max_frames t \<and> tn_max_frames t \<le> kMaxBatch) tunings"
  shows "queue_system_inv s"
  using assms(1,2)
proof (induction rule: queue_system_reachable.induct)
  case start
  then show ?case using queue_system_inv_new assms(3) by blast
next
  case (step s t)
  have "length (qy_log s) \<le> 2 ^ 62"
    using queue_system_step_grows [OF step(2)] queue_system_reachable_counted [OF step(1)] step(4) by linarith
  then show ?case using queue_system_step_inv [OF step(2) step(3)] step(4) by blast
qed

end
