(* ===== verification/Isolation.thy ===== *)
theory Isolation
  imports Ring_System Queue_System
begin

text \<open>
  A slow consumer slows down nobody else. The steps of \<open>Queue_System\<close> and \<open>Ring_System\<close> as functions of an explicit schedule; and the
  proof that, until the main thread stops the egresses, a schedule without the turns of one consumer leaves everything
  else exactly as the schedule with them: the frames and their numbers, every other consumer, and what it has sent.
  The contract \<open>unwinding\<close> has the two conditions for that on single actions, one for actions of the consumer that is left
  out and one for all others.
\<close>

section \<open>Schedules\<close>

text \<open>\<open>None\<close>: an action of the schedule is not possible in its state.\<close>

fun schedule :: "('a \<Rightarrow> 's \<Rightarrow> 's option) \<Rightarrow> 'a list \<Rightarrow> 's \<Rightarrow> 's option" where
  "schedule act [] s = Some s"
| "schedule act (a # as) s = (case act a s of None \<Rightarrow> None | Some s' \<Rightarrow> schedule act as s')"

lemma schedule_append: "schedule act (as @ bs) s = Option.bind (schedule act as s) (schedule act bs)"
  by (induction as arbitrary: s) (simp_all split: option.splits)

text \<open>\<open>good\<close> is kept by every action, \<open>small\<close> by going back.\<close>

locale unwinding =
  fixes act :: "'a \<Rightarrow> 's \<Rightarrow> 's option" and hidden allowed :: "'a \<Rightarrow> bool" and agree :: "'s \<Rightarrow> 's \<Rightarrow> bool" and good small :: "'s \<Rightarrow> bool"
  assumes good_step: "good s \<Longrightarrow> act a s = Some s' \<Longrightarrow> good s'"
    and small_step: "good s \<Longrightarrow> act a s = Some s' \<Longrightarrow> small s' \<Longrightarrow> small s"
    and hidden_step: "good s \<Longrightarrow> small s \<Longrightarrow> agree s t \<Longrightarrow> allowed a \<Longrightarrow> hidden a \<Longrightarrow> act a s = Some s' \<Longrightarrow> agree s' t"
    and visible_step: "good s \<Longrightarrow> small s \<Longrightarrow> agree s t \<Longrightarrow> allowed a \<Longrightarrow> \<not> hidden a \<Longrightarrow> act a s = Some s' \<Longrightarrow>
      \<exists>t'. act a t = Some t' \<and> agree s' t'"
begin

lemma schedule_small: "good s \<Longrightarrow> schedule act as s = Some s' \<Longrightarrow> small s' \<Longrightarrow> small s"
proof (induction as arbitrary: s)
  case (Cons a as)
  then show ?case by (auto split: option.splits intro: good_step small_step)
qed simp

lemma purged_schedule:
  assumes "good s" "agree s t" "list_all allowed as" "schedule act as s = Some s'" "small s'"
  shows "\<exists>t'. schedule act (filter (\<lambda>a. \<not> hidden a) as) t = Some t' \<and> agree s' t'"
  using assms
proof (induction as arbitrary: s t)
  case (Cons a as)
  then obtain s1 where s1: "act a s = Some s1" "schedule act as s1 = Some s'" by (auto split: option.splits)
  have g: "good s1" "small s" using good_step [OF Cons.prems(1) s1(1)] schedule_small [OF Cons.prems(1,4,5)] by simp_all
  have al: "allowed a" "list_all allowed as" using Cons.prems(3) by simp_all
  show ?case
  proof (cases "hidden a")
    case True
    then show ?thesis using Cons.IH [OF g(1) hidden_step [OF Cons.prems(1) g(2) Cons.prems(2) al(1) True s1(1)] al(2) s1(2) Cons.prems(5)] by simp
  next
    case False
    obtain t1 where "act a t = Some t1" "agree s1 t1"
      using visible_step [OF Cons.prems(1) g(2) Cons.prems(2) al(1) False s1(1)] by blast
    then show ?thesis using False Cons.IH [OF g(1) _ al(2) s1(2) Cons.prems(5)] by auto
  qed
qed simp

end

section \<open>Over queues\<close>

datatype queue_action = QFan ingest_poll | QServe nat run_env | QTap nat nat | QRaise | QJoin | QClose

fun queue_act :: "queue_action \<Rightarrow> queue_system \<Rightarrow> queue_system option" where
  "queue_act (QFan p) s =
     (if \<not> qy_returned s \<and> (qy_stopping s \<longrightarrow> event_seen p)
      then (case fan_turn p (qy_fan s) of (stop, fan) \<Rightarrow> Some (s\<lparr>qy_fan := fan, qy_returned := stop\<rparr>)) else None)"
| "queue_act (QServe j env) s =
     (if j < length (qy_consumers s) \<and> \<not> fst (qy_consumers s ! j) \<and> (j < qy_closing s \<longrightarrow> stop_seen (ev_wait env))
      then map_option (\<lambda>(stop, e, arr, q). s\<lparr>qy_consumers := (qy_consumers s)[j := (stop, e)], qy_fan := set_sink j q (qy_fan s)\<rparr>)
        (run_turn queue_feed_pop queue_feed_closed env (snd (qy_consumers s ! j)) ([], fo_sinks (qy_fan s) ! j)) else None)"
| "queue_act (QTap j n) s =
     (if \<not> qy_stopping s \<and> length (qy_consumers s) \<le> j \<and> j < length (fo_sinks (qy_fan s))
      then Some (s\<lparr>qy_fan := set_sink j (snd (pop_batch n (fo_sinks (qy_fan s) ! j))) (qy_fan s)\<rparr>) else None)"
| "queue_act QRaise s = Some (s\<lparr>qy_stopping := True\<rparr>)"
| "queue_act QJoin s = (if qy_stopping s \<and> qy_returned s then Some (s\<lparr>qy_joined := True\<rparr>) else None)"
| "queue_act QClose s =
     (if qy_joined s \<and> qy_closing s < length (qy_consumers s) \<and> list_all fst (take (qy_closing s) (qy_consumers s))
      then Some (s\<lparr>qy_closing := qy_closing s + 1,
        qy_fan := set_sink (qy_closing s) (q_close (fo_sinks (qy_fan s) ! qy_closing s)) (qy_fan s)\<rparr>) else None)"

lemma take_returned: "n \<le> length cs \<Longrightarrow> list_all fst (take n cs) = (\<forall>j < n. fst (cs ! j))"
  by (auto simp: list_all_length)

text \<open>The actions are the steps.\<close>

lemma queue_act_step: "queue_act a s = Some t \<Longrightarrow> queue_system_step s t"
proof (cases a)
  case (QFan p)
  then show "queue_act a s = Some t \<Longrightarrow> queue_system_step s t"
    by (auto split: if_splits prod.splits intro: queue_system_step.fan)
next
  case (QServe j env)
  assume "queue_act a s = Some t"
  then show ?thesis using QServe queue_system_step.serve [of j s "snd (qy_consumers s ! j)" env]
    by (cases "qy_consumers s ! j") (auto split: if_splits)
next
  case (QTap j n)
  then show "queue_act a s = Some t \<Longrightarrow> queue_system_step s t" by (auto split: if_splits intro: queue_system_step.tap)
next
  case QRaise
  then show "queue_act a s = Some t \<Longrightarrow> queue_system_step s t" by (auto intro: queue_system_step.raise)
next
  case QJoin
  then show "queue_act a s = Some t \<Longrightarrow> queue_system_step s t" by (auto split: if_splits intro: queue_system_step.join)
next
  case QClose
  then show "queue_act a s = Some t \<Longrightarrow> queue_system_step s t"
    using take_returned [of "qy_closing s" "qy_consumers s"] queue_system_step.close [of s] by (auto split: if_splits)
qed

lemma queue_step_act: "queue_system_step s t \<Longrightarrow> \<exists>a. queue_act a s = Some t"
proof (induction rule: queue_system_step.induct)
  case (fan s p stop fan)
  then show ?case by (intro exI [of _ "QFan p"]) simp
next
  case (serve j s e env stop e' arr q)
  then show ?case by (intro exI [of _ "QServe j env"]) simp
next
  case (tap s j n)
  then show ?case by (intro exI [of _ "QTap j n"]) simp
next
  case (raise s)
  show ?case by (intro exI [of _ QRaise]) simp
next
  case (join s)
  then show ?case by (intro exI [of _ QJoin]) simp
next
  case (close s)
  then show ?case using take_returned [of "qy_closing s" "qy_consumers s"] by (intro exI [of _ QClose]) simp
qed

text \<open>Lists that differ at most at \<open>j\<close>; then fan-outs that differ in sink \<open>j\<close>, and states that differ in consumer \<open>j\<close> and its queue.\<close>

definition same_but :: "nat \<Rightarrow> 'a list \<Rightarrow> 'a list \<Rightarrow> bool" where
  "same_but j xs ys \<longleftrightarrow> length ys = length xs \<and> (\<forall>i < length xs. i \<noteq> j \<longrightarrow> ys ! i = xs ! i)"

lemma same_but_refl: "same_but j xs xs"
  by (simp add: same_but_def)

lemma same_but_map: "same_but j xs ys \<Longrightarrow> same_but j (map f xs) (map f ys)"
  by (simp add: same_but_def)

lemma same_but_hidden: "same_but j xs ys \<Longrightarrow> same_but j (xs[j := x]) ys"
  by (simp add: same_but_def)

lemma same_but_visible: "same_but j xs ys \<Longrightarrow> same_but j (xs[i := x]) (ys[i := x])"
  by (cases "i < length xs") (auto simp: same_but_def nth_list_update)

definition fan_same :: "nat \<Rightarrow> fanout \<Rightarrow> fanout \<Rightarrow> bool" where
  "fan_same j s t \<longleftrightarrow> t = s\<lparr>fo_sinks := fo_sinks t\<rparr> \<and> same_but j (fo_sinks s) (fo_sinks t)"

definition queue_same :: "nat \<Rightarrow> queue_system \<Rightarrow> queue_system \<Rightarrow> bool" where
  "queue_same j s t \<longleftrightarrow> t = s\<lparr>qy_fan := qy_fan t, qy_consumers := qy_consumers t\<rparr> \<and> fan_same j (qy_fan s) (qy_fan t) \<and>
     same_but j (qy_consumers s) (qy_consumers t)"

lemma fan_sameE:
  assumes "fan_same j s t"
  obtains qs where "t = s\<lparr>fo_sinks := qs\<rparr>" "same_but j (fo_sinks s) qs"
  using assms by (auto simp: fan_same_def)

lemma fan_sameI: "same_but j (fo_sinks s) qs \<Longrightarrow> fan_same j s (s\<lparr>fo_sinks := qs\<rparr>)"
  by (simp add: fan_same_def)

lemma fan_source_same: "fan_same j s t \<Longrightarrow> fan_same j (fan_source i env s) (fan_source i env t)"
  by (erule fan_sameE) (auto simp: fan_source_def fan_same_def Let_def same_but_map split: prod.split)

lemma fan_sources_same: "fan_same j s t \<Longrightarrow> fan_same j (fan_sources i rs s) (fan_sources i rs t)"
proof (induction rs arbitrary: i s t)
  case (Cons r rs)
  have "fo_sources t = fo_sources s" using Cons.prems by (auto elim: fan_sameE)
  then show ?case using Cons.IH fan_source_same Cons.prems by (cases r) simp_all
qed simp

lemma fan_turn_same:
  assumes "fan_same j s t" "fan_turn p s = (stop, s')"
  shows "\<exists>t'. fan_turn p t = (stop, t') \<and> fan_same j s' t'"
proof (cases p)
  case InError
  obtain qs where "t = s\<lparr>fo_sinks := qs\<rparr>" "same_but j (fo_sinks s) qs" using assms(1) by (rule fan_sameE)
  then show ?thesis using assms(2) InError by (auto simp: fan_same_def)
qed (use assms fan_sources_same in auto)

lemma fan_turn_shape: "fan_turn p s = (stop, s') \<Longrightarrow> length (fo_sinks s') = length (fo_sinks s)"
  using fans_turn [of p s stop s'] by (auto simp: fans_def)

lemma set_sink_hidden: "fan_same j s t \<Longrightarrow> fan_same j (set_sink j q s) t"
  by (erule fan_sameE) (auto simp: fan_same_def set_sink_def same_but_hidden)

lemma set_sink_visible: "fan_same j s t \<Longrightarrow> fan_same j (set_sink i q s) (set_sink i q t)"
  by (erule fan_sameE) (auto simp: fan_same_def set_sink_def same_but_visible)

fun queue_action_of :: "nat \<Rightarrow> queue_action \<Rightarrow> bool" where
  "queue_action_of j (QServe i env) = (i = j)"
| "queue_action_of j _ = False"

lemma queue_hidden:
  assumes "queue_same j s t" "queue_action_of j a" "queue_act a s = Some s'"
  shows "queue_same j s' t"
proof -
  obtain env where "a = QServe j env" using assms(2) by (cases a) auto
  then show ?thesis using assms(1,3) by (auto simp: queue_same_def set_sink_hidden same_but_hidden split: if_splits)
qed

lemma queue_sameD:
  assumes "queue_same j s t"
  shows "qy_returned t = qy_returned s" "qy_stopping t = qy_stopping s" "qy_joined t = qy_joined s" "qy_closing t = qy_closing s"
    "length (qy_consumers t) = length (qy_consumers s)" "length (fo_sinks (qy_fan t)) = length (fo_sinks (qy_fan s))"
    "i < length (qy_consumers s) \<Longrightarrow> i \<noteq> j \<Longrightarrow> qy_consumers t ! i = qy_consumers s ! i"
    "i < length (fo_sinks (qy_fan s)) \<Longrightarrow> i \<noteq> j \<Longrightarrow> fo_sinks (qy_fan t) ! i = fo_sinks (qy_fan s) ! i"
    "qy_log t = qy_log s"
proof -
  obtain fan cs where "t = s\<lparr>qy_fan := fan, qy_consumers := cs\<rparr>" "fan_same j (qy_fan s) fan" "same_but j (qy_consumers s) cs"
    using assms by (auto simp: queue_same_def)
  then show "qy_returned t = qy_returned s" "qy_stopping t = qy_stopping s" "qy_joined t = qy_joined s" "qy_closing t = qy_closing s"
    "length (qy_consumers t) = length (qy_consumers s)" "length (fo_sinks (qy_fan t)) = length (fo_sinks (qy_fan s))"
    "i < length (qy_consumers s) \<Longrightarrow> i \<noteq> j \<Longrightarrow> qy_consumers t ! i = qy_consumers s ! i"
    "i < length (fo_sinks (qy_fan s)) \<Longrightarrow> i \<noteq> j \<Longrightarrow> fo_sinks (qy_fan t) ! i = fo_sinks (qy_fan s) ! i"
    "qy_log t = qy_log s"
    by (auto simp: same_but_def qy_log_def elim!: fan_sameE)
qed

lemma queue_visible:
  assumes "queue_same j s t" "\<not> queue_action_of j a" "a \<noteq> QClose" "queue_act a s = Some s'" "length (qy_consumers s) \<le> length (fo_sinks (qy_fan s))"
    and "j < length (qy_consumers s)"
  shows "\<exists>t'. queue_act a t = Some t' \<and> queue_same j s' t'"
proof -
  obtain fan' cs where t: "t = s\<lparr>qy_fan := fan', qy_consumers := cs\<rparr>"
    and up: "fan_same j (qy_fan s) fan'" "same_but j (qy_consumers s) cs"
    using assms(1) by (auto simp: queue_same_def)
  show ?thesis
  proof (cases a)
    case (QFan p)
    obtain stop fan where f: "fan_turn p (qy_fan s) = (stop, fan)" by fastforce
    then obtain fan1 where "fan_turn p fan' = (stop, fan1)" "fan_same j fan fan1" using fan_turn_same up(1) by blast
    then show ?thesis using QFan assms(4) f up by (auto simp: queue_same_def t split: if_splits)
  next
    case (QServe i env)
    then have i: "i \<noteq> j" "i < length (qy_consumers s)" "i < length (fo_sinks (qy_fan s))" using assms(2,4,5) by (auto split: if_splits)
    have "cs ! i = qy_consumers s ! i" "fo_sinks fan' ! i = fo_sinks (qy_fan s) ! i" "length cs = length (qy_consumers s)"
      using i up by (auto simp: same_but_def elim!: fan_sameE)
    then show ?thesis using QServe assms(4) set_sink_visible [OF up(1), of i] same_but_visible [OF up(2), of i]
      by (auto simp: queue_same_def t split: if_splits)
  next
    case (QTap i n)
    then have i: "i \<noteq> j" "i < length (fo_sinks (qy_fan s))" using assms(4,6) by (auto split: if_splits)
    have "fo_sinks fan' ! i = fo_sinks (qy_fan s) ! i" "length (fo_sinks fan') = length (fo_sinks (qy_fan s))" "length cs = length (qy_consumers s)"
      using i up by (auto simp: same_but_def elim!: fan_sameE)
    then show ?thesis using QTap assms(4) up set_sink_visible [OF up(1), of i] by (auto simp: queue_same_def t split: if_splits)
  next
    case QRaise
    then show ?thesis using assms(4) up by (auto simp: queue_same_def t)
  next
    case QJoin
    then show ?thesis using assms(4) up by (auto simp: queue_same_def t split: if_splits)
  qed (use assms(3) in simp)
qed

lemma queue_act_shape: "queue_act a s = Some s' \<Longrightarrow> length (qy_consumers s') = length (qy_consumers s) \<and>
    length (fo_sinks (qy_fan s')) = length (fo_sinks (qy_fan s))"
  by (cases a) (auto split: if_splits prod.splits simp: fan_turn_shape)

text \<open>Every sink after those of the consumers is the tap's; that and the number of consumers never change.\<close>

interpretation queue_isolation: unwinding queue_act "queue_action_of j" "\<lambda>a. a \<noteq> QClose" "queue_same j"
  "\<lambda>s. j < length (qy_consumers s) \<and> length (qy_consumers s) \<le> length (fo_sinks (qy_fan s))" "\<lambda>_. True"
  by unfold_locales (use queue_act_shape queue_hidden queue_visible in \<open>metis+\<close>)

section \<open>Over the ring\<close>

datatype ring_action = RIngest nat ingest_poll | RServe nat run_env | RRaise | RJoin | RClose

fun ring_act :: "ring_action \<Rightarrow> ring_system \<Rightarrow> ring_system option" where
  "ring_act (RIngest i p) s =
     (if i < length (ri_sources (sy_ingest s)) \<and> \<not> ri_stopped (sy_ingest s) ! i \<and> (sy_stopping s \<longrightarrow> event_seen p)
      then map_option (\<lambda>ing. s\<lparr>sy_ingest := ing\<rparr>) (ring_turn i p (sy_ingest s)) else None)"
| "ring_act (RServe j env) s =
     (if j < length (sy_consumers s) \<and> \<not> fst (sy_consumers s ! j) \<and> (j < sy_closing s \<longrightarrow> stop_seen (ev_wait env))
      then case sy_consumers s ! j of (_, e, fd) \<Rightarrow>
        map_option (\<lambda>(stop, e', fd'). s\<lparr>sy_consumers := (sy_consumers s)[j := (stop, e', fd')], sy_ingest := (sy_ingest s)\<lparr>ri_ring := rf_ring fd'\<rparr>\<rparr>)
          (run_turn ring_feed_pop ring_feed_closed env e (on_ring (ri_ring (sy_ingest s)) fd)) else None)"
| "ring_act RRaise s = Some (s\<lparr>sy_stopping := True\<rparr>)"
| "ring_act RJoin s = (if sy_stopping s \<and> list_all id (ri_stopped (sy_ingest s)) then Some (s\<lparr>sy_joined := True\<rparr>) else None)"
| "ring_act RClose s =
     (if sy_joined s \<and> sy_closing s < length (sy_consumers s) \<and> list_all fst (take (sy_closing s) (sy_consumers s))
      then Some (s\<lparr>sy_closing := sy_closing s + 1, sy_ingest := (sy_ingest s)\<lparr>ri_ring := ring_close (ri_ring (sy_ingest s))\<rparr>\<rparr>) else None)"


lemma ring_step_act: "ring_system_step s t \<Longrightarrow> \<exists>a. ring_act a s = Some t"
proof (induction rule: ring_system_step.induct)
  case (ingest i s p ing)
  then show ?case by (intro exI [of _ "RIngest i p"]) simp
next
  case (serve j s e fd env stop e' fd')
  then show ?case by (intro exI [of _ "RServe j env"]) simp
next
  case (raise s)
  show ?case by (intro exI [of _ RRaise]) simp
next
  case (join s)
  then show ?case by (intro exI [of _ RJoin]) simp
next
  case (close s)
  then show ?case using take_returned [of "sy_closing s" "sy_consumers s"] by (intro exI [of _ RClose]) simp
qed







section \<open>Consumers are isolated\<close>

text \<open>(C11) A slow consumer over queues. Take any schedule of the gateway up to the point where the main thread starts to stop the
  egresses, with any behaviour of the network, and leave out every turn of consumer \<open>j\<close>, as if its thread never got to run: what
  is left can be run, it ingests and numbers the same frames, and every other consumer ends in the same state, with the same bytes on
  its connection, the same counters and the same queue.\<close>

theorem queue_consumers_isolated:
  assumes "schedule queue_act as (queue_system_new capacity sources tunings tap) = Some s" "QClose \<notin> set as" "j < length tunings"
  shows "\<exists>t. schedule queue_act (filter (\<lambda>a. \<not> queue_action_of j a) as) (queue_system_new capacity sources tunings tap) = Some t \<and>
    qy_log t = qy_log s \<and> (\<forall>i < length (qy_consumers s). i \<noteq> j \<longrightarrow> qy_consumers t ! i = qy_consumers s ! i) \<and>
    (\<forall>i < length (fo_sinks (qy_fan s)). i \<noteq> j \<longrightarrow> fo_sinks (qy_fan t) ! i = fo_sinks (qy_fan s) ! i)"
proof -
  let ?s0 = "queue_system_new capacity sources tunings tap"
  have "j < length (qy_consumers ?s0) \<and> length (qy_consumers ?s0) \<le> length (fo_sinks (qy_fan ?s0))"
    using assms(3) by (simp add: queue_system_new_def fanout_new_def)
  moreover have "queue_same j ?s0 ?s0" by (simp add: queue_same_def fan_same_def same_but_refl)
  moreover have "list_all (\<lambda>a. a \<noteq> QClose) as" using assms(2) by (auto simp: list_all_iff)
  ultimately obtain t where "schedule queue_act (filter (\<lambda>a. \<not> queue_action_of j a) as) ?s0 = Some t" "queue_same j s t"
    using queue_isolation.purged_schedule [of j ?s0 ?s0 as s] assms(1) by blast
  then show ?thesis using queue_sameD [of j s t] by auto
qed

theorem queue_consumers_isolated_witness:
  "\<exists>s t. schedule queue_act [QServe 1 quiet_env, QFan InError] (queue_system_new 4 [] (replicate 2 \<lparr>tn_max_frames = 8, tn_linger_us = 0, tn_echo_ms = 0\<rparr>) False) = Some s \<and>
     schedule queue_act [QFan InError] (queue_system_new 4 [] (replicate 2 \<lparr>tn_max_frames = 8, tn_linger_us = 0, tn_echo_ms = 0\<rparr>) False) = Some t \<and>
     e_client (snd (qy_consumers s ! 1)) \<and> qy_log t = qy_log s \<and> qy_consumers t ! 0 = qy_consumers s ! 0"
proof -
  let ?t = "\<lparr>tn_max_frames = 8, tn_linger_us = 0, tn_echo_ms = 0\<rparr>"
  let ?s0 = "queue_system_new 4 [] (replicate 2 ?t) False"
  have p: "queue_feed_pop n ([], bq_new zero_frame 4) = Some ([], [], bq_new zero_frame 4)" for n
    by (simp add: queue_feed_pop_def pop_batch_def pop_locked_def bq_new_def)
  have turn: "run_turn queue_feed_pop queue_feed_closed quiet_env (egress_new ?t) ([], bq_new zero_frame 4) =
      Some (False, (egress_new ?t)\<lparr>e_client := True, e_connected := True, e_connects := 1\<rparr>, [], bq_new zero_frame 4)"
    using first_turn_empty [of queue_feed_pop ?t, OF p, of queue_feed_closed] by (simp add: queue_feed_closed_def bq_new_def)
  obtain s where s: "schedule queue_act [QServe 1 quiet_env, QFan InError] ?s0 = Some s" "e_client (snd (qy_consumers s ! 1))" "length (qy_consumers s) = 2"
    using turn by (simp add: queue_system_new_def fanout_new_def numeral_2_eq_2)
  show ?thesis using queue_consumers_isolated [OF s(1), of 1] s by auto
qed



end
