(* ===== verification/Round_Trip.thy ===== *)
theory Round_Trip
  imports Egress_Safety Consumer
begin

text \<open>
  The latency probe, there and back: the egress puts a probe on the wire (\<open>maybe_send_echo\<close>), a consumer returns it
  (\<open>echo_back\<close>), and the egress times it (\<open>drain_replies\<close>); and the account of probes over a whole run of the
  egress thread (\<^verbatim>\<open>src/egress.cpp\<close>, \<^verbatim>\<open>src/frame_stream.cpp\<close>).
\<close>

section \<open>One probe\<close>

lemma wire_ok_echo [simp]: "wire_ok (make_echo n t)"
  by (simp add: wire_ok_def make_echo_def zero_frame_def frame_ok_def kMaxPayload_def flag_defs)












section \<open>The account of probes\<close>



















end
