(* ===== verification/Cadence_Options.thy ===== *)
theory Cadence_Options
  imports Options Printing
begin

text \<open>
  The command line of the cadence program (\<^verbatim>\<open>src/cadence_main.cpp\<close>). Its factor is read by \<^verbatim>\<open>strtod\<close>, which is modelled
  with all its forms: decimal and hexadecimal numerals with exponents, infinities and \<^verbatim>\<open>nan\<close>.
\<close>

section \<open>Doubles as values\<close>

text \<open>Negative zero is not told from zero: the programs only compare and multiply.\<close>

datatype double = Finite rat | Infinite bool | NaN

fun double_negate :: "double \<Rightarrow> double" where
  "double_negate (Finite x) = Finite (- x)"
| "double_negate (Infinite n) = Infinite (\<not> n)"
| "double_negate NaN = NaN"

text \<open>The nearest double of a rational that is not negative, with the limits of the exponent.\<close>

definition to_double :: "rat \<Rightarrow> double" where
  "to_double x =
     (if x = 0 then Finite 0
      else if ilog2 x < - 1022 then Finite (of_int (round_even (x * 2 ^ 1074)) / 2 ^ 1074)
      else if rnd x \<ge> 2 ^ 1024 then Infinite False else Finite (rnd x))"

text \<open>\<^verbatim>\<open>x <= y\<close> for a finite \<open>y\<close>; false for \<^verbatim>\<open>nan\<close>.\<close>

fun double_le :: "double \<Rightarrow> rat \<Rightarrow> bool" where
  "double_le (Finite x) y \<longleftrightarrow> x \<le> y"
| "double_le (Infinite negative) y \<longleftrightarrow> negative"
| "double_le NaN y \<longleftrightarrow> False"

section \<open>Reading\<close>

definition lower :: "char \<Rightarrow> char" where
  "lower c = (let k = of_char c :: nat in if 65 \<le> k \<and> k \<le> 90 then char_of (k + 32) else c)"

definition spells :: "string \<Rightarrow> string \<Rightarrow> bool" where
  "spells word s \<longleftrightarrow> map lower (take (length word) s) = word"

fun sign :: "string \<Rightarrow> bool \<times> string" where
  "sign [] = (False, [])"
| "sign (c # s) = (if c = CHR ''-'' then (True, s) else if c = CHR ''+'' then (False, s) else (False, c # s))"

text \<open>Digits with at most one point, and at least one digit; the rest of the text.\<close>

definition mantissa :: "nat \<Rightarrow> string \<Rightarrow> (rat \<times> string) option" where
  "mantissa base s =
     (let a = takeWhile (is_digit base) s;
          r = dropWhile (is_digit base) s;
          r = (if r \<noteq> [] \<and> hd r = CHR ''.'' then (takeWhile (is_digit base) (tl r), dropWhile (is_digit base) (tl r)) else ([], r))
      in if a @ fst r = [] then None
         else Some (of_nat (digits base 0 (a @ fst r)) / of_nat base ^ length (fst r), snd r))"

text \<open>The exponent, when its mark is followed by a number.\<close>

definition exponent :: "char \<Rightarrow> string \<Rightarrow> int" where
  "exponent mark s =
     (case s of
        [] \<Rightarrow> 0
      | c # t \<Rightarrow>
          if lower c \<noteq> mark then 0
          else case sign t of (negative, u) \<Rightarrow>
            let e = int (digits 10 0 u) in if negative then - e else e)"

definition strtod_unsigned :: "string \<Rightarrow> double" where
  "strtod_unsigned s =
     (if spells ''inf'' s then Infinite False
      else if spells ''nan'' s then NaN
      else case (if spells ''0x'' s then mantissa 16 (drop 2 s) else None) of
        Some (m, t) \<Rightarrow> to_double (m * 2 powi exponent CHR ''p'' t)
      | None \<Rightarrow>
          (case mantissa 10 s of
             Some (m, t) \<Rightarrow> to_double (m * 10 powi exponent CHR ''e'' t)
           | None \<Rightarrow> Finite 0))"

definition strtod :: "string \<Rightarrow> double" where
  "strtod s = (case sign (dropWhile is_space s) of (negative, t) \<Rightarrow>
     if negative then double_negate (strtod_unsigned t) else strtod_unsigned t)"

section \<open>Options\<close>

record cadence_options =
  ca_host :: string
  ca_port :: u16
  ca_seconds :: int
  ca_reconnect :: bool
  ca_gap_blind :: bool
  ca_calibrate :: u64
  ca_factor :: double
  ca_stall_us :: int

definition cadence_defaults :: cadence_options where
  "cadence_defaults = \<lparr>ca_host = ''127.0.0.1'', ca_port = 9004, ca_seconds = 0, ca_reconnect = False, ca_gap_blind = False,
     ca_calibrate = 32, ca_factor = Finite 4, ca_stall_us = 0\<rparr>"

definition cadence_table :: "string \<Rightarrow> cadence_options opt option" where
  "cadence_table arg =
     (if arg = ''--host'' then val_with (\<lambda>v o1. o1\<lparr>ca_host := v\<rparr>)
      else if arg = ''--port'' then val_with (\<lambda>v o1. o1\<lparr>ca_port := to_u16 v\<rparr>)
      else if arg = ''--seconds'' then val_with (\<lambda>v o1. o1\<lparr>ca_seconds := atoi v\<rparr>)
      else if arg = ''--calibrate'' then val_with (\<lambda>v o1. o1\<lparr>ca_calibrate := strtoul 10 v\<rparr>)
      else if arg = ''--factor'' then val_with (\<lambda>v o1. o1\<lparr>ca_factor := strtod v\<rparr>)
      else if arg = ''--stall-us'' then val_with (\<lambda>v o1. o1\<lparr>ca_stall_us := atoi v\<rparr>)
      else if arg = ''--reconnect'' then Some (Flag (\<lambda>o1. o1\<lparr>ca_reconnect := True\<rparr>))
      else if arg = ''--gap-blind'' then Some (Flag (\<lambda>o1. o1\<lparr>ca_gap_blind := True\<rparr>))
      else if arg = ''--help'' \<or> arg = ''-h'' then Some Help
      else None)"

definition cadence_options_of :: "string list \<Rightarrow> nat + cadence_options" where
  "cadence_options_of args =
     (case parse_args cadence_table args cadence_defaults of
        Inl e \<Rightarrow> Inl e
      | Inr o1 \<Rightarrow> if ca_calibrate o1 < 4 \<or> double_le (ca_factor o1) 1 then Inl 2 else Inr o1)"

section \<open>What is printed is read\<close>

lemma digits_pad_zero:
  assumes "length (to_dec n) \<le> k"
  shows "digits 10 acc (pad_zero k (to_dec n)) = acc * 10 ^ k + n"
proof -
  have z: "digits 10 acc (replicate m CHR ''0'' @ s) = digits 10 (acc * 10 ^ m) s" for m s
    by (induction m arbitrary: acc) (simp_all add: digit_value_def algebra_simps)
  show ?thesis unfolding pad_zero_def z digits_to_dec_acc using assms
    by (simp add: power_add [symmetric] mult.assoc)
qed

lemma length_pad_zero: "length (to_dec n) \<le> k \<Longrightarrow> length (pad_zero k (to_dec n)) = k"
  by (simp add: pad_zero_def)

lemma pad_zero_is_digit: "c \<in> set (pad_zero k (to_dec n)) \<Longrightarrow> is_digit 10 c"
  using to_dec_is_digit by (auto simp: pad_zero_def is_digit_def digit_value_def split: if_splits)

text \<open>The characters that \<^verbatim>\<open>strtod\<close> gives a meaning of its own are no digits.\<close>

lemma takeWhile_digits:
  assumes "\<forall>c \<in> set a. is_digit 10 c" "r = [] \<or> \<not> is_digit 10 (hd r)"
  shows "takeWhile (is_digit 10) (a @ r) = a" "dropWhile (is_digit 10) (a @ r) = r"
  using assms by (cases r; simp add: takeWhile_append2 dropWhile_append2)+

lemma digit_spelling:
  assumes "is_digit 10 c"
  shows "\<not> is_space c \<and> c \<noteq> CHR ''-'' \<and> c \<noteq> CHR ''+'' \<and> lower c \<noteq> CHR ''i'' \<and> lower c \<noteq> CHR ''n'' \<and> lower c \<noteq> CHR ''x''"
proof -
  have k: "48 \<le> (of_char c :: nat) \<and> (of_char c :: nat) \<le> 57"
    using assms by (auto simp: is_digit_def digit_value_def Let_def split: if_splits)
  then have "lower c = c" by (simp add: lower_def)
  moreover have "c \<noteq> d" if "(of_char d :: nat) < 48 \<or> 57 < (of_char d :: nat)" for d using k that by auto
  ultimately show ?thesis using k by (auto simp: is_space_def)
qed

lemma strtod_point:
  assumes "a \<noteq> []" "\<forall>c \<in> set (a @ b). is_digit 10 c"
  shows "strtod (a @ ''.'' @ b) = to_double (of_nat (digits 10 0 (a @ b)) / 10 ^ length b)"
proof -
  obtain c s where a: "a = c # s" "is_digit 10 c" using assms by (cases a) auto
  note c = digit_spelling [OF a(2)]
  have point: "\<not> is_digit 10 CHR ''.''" "lower CHR ''.'' \<noteq> CHR ''x''" by (simp_all add: is_digit_def digit_value_def lower_def)
  have sgn: "sign (dropWhile is_space (a @ ''.'' @ b)) = (False, a @ ''.'' @ b)" using a c by simp
  have x: "\<not> spells ''0x'' (a @ ''.'' @ b)"
  proof (cases s)
    case Nil
    then show ?thesis using a point by (simp add: spells_def)
  next
    case (Cons d t)
    then have "lower d \<noteq> CHR ''x''" using assms(2) a digit_spelling [of d] by simp
    then show ?thesis using a Cons by (simp add: spells_def)
  qed
  have "\<not> spells ''inf'' (a @ ''.'' @ b)" "\<not> spells ''nan'' (a @ ''.'' @ b)" using a c by (simp_all add: spells_def)
  moreover have "mantissa 10 (a @ ''.'' @ b) = Some (of_nat (digits 10 0 (a @ b)) / 10 ^ length b, [])"
    using assms takeWhile_digits [of a "''.'' @ b"] takeWhile_digits [of b "[]"] point(1) unfolding append_Nil2
    by (simp add: mantissa_def takeWhile_eq_all_conv [THEN iffD2] ball_Un)
  ultimately have "strtod_unsigned (a @ ''.'' @ b) = to_double (of_nat (digits 10 0 (a @ b)) / 10 ^ length b)"
    using x unfolding strtod_unsigned_def by (simp add: exponent_def)
  then show ?thesis using sgn by (simp add: strtod_def)
qed

lemma strtod_fixed:
  assumes "0 < k" "0 \<le> x"
  shows "strtod (fixed k x) = to_double (of_nat (nat (round_even (x * 10 ^ k))) / 10 ^ k)"
proof -
  define n where "n = nat (round_even (x * 10 ^ k))"
  have "n mod 10 ^ k < 10 ^ Suc (k - 1)" using assms(1) by simp
  then have l: "length (to_dec (n mod 10 ^ k)) \<le> k" using length_to_dec [of "n mod 10 ^ k" "k - 1"] assms(1) by simp
  let ?a = "to_dec (n div 10 ^ k)" and ?b = "pad_zero k (to_dec (n mod 10 ^ k))"
  have "fixed k x = ?a @ ''.'' @ ?b" using assms by (simp add: fixed_def n_def Let_def)
  moreover have dig: "\<forall>c \<in> set (?a @ ?b). is_digit 10 c" using to_dec_is_digit pad_zero_is_digit by auto
  moreover have "digits 10 0 (?a @ ?b) = n"
    using dig digits_append [of ?a 0 ?b] digits_to_dec_acc [of 0] digits_pad_zero [OF l] div_mult_mod_eq [of n "10 ^ k"]
    by (simp add: is_digit_def)
  ultimately show ?thesis using strtod_point [of ?a ?b] length_pad_zero [OF l] by (simp add: n_def)
qed

text \<open>The options of the cadence program. A calibration and a factor, written as numbers with \<open>k\<close> decimals, are
  accepted exactly when at least 4 intervals are to be learned and the factor, as the nearest double, is more than 1;
  then they are the program's settings. A number that is not one (\<^verbatim>\<open>nan\<close>) passes the check as well.\<close>

theorem cadence_options_checked:
  assumes "0 < k" "0 \<le> x" "c < 2 ^ 64"
  defines "factor \<equiv> to_double (of_nat (nat (round_even (x * 10 ^ k))) / 10 ^ k)"
  shows "cadence_options_of [''--calibrate'', to_dec c, ''--factor'', fixed k x] =
      (if 4 \<le> c \<and> \<not> double_le factor 1 then Inr (cadence_defaults\<lparr>ca_calibrate := of_nat c, ca_factor := factor\<rparr>) else Inl 2) \<and>
    cadence_options_of [''--factor'', ''nan''] = Inr (cadence_defaults\<lparr>ca_factor := NaN\<rparr>)"
proof -
  have "unat (of_nat c :: u64) = c" using assms(3) by (simp add: unat_of_nat_small)
  then have c: "(of_nat c :: u64) < 4 \<longleftrightarrow> \<not> 4 \<le> c" by (auto simp: word_less_nat_alt)
  have "strtod ''nan'' = NaN" by code_simp
  then show ?thesis
    using c by (simp add: cadence_options_of_def cadence_table_def val_with_def strtod_fixed [OF assms(1,2)] factor_def
        strtoul_to_dec [OF assms(3)] cadence_defaults_def)
qed

theorem cadence_options_checked_witness:
  "cadence_options_of [''--calibrate'', ''8'', ''--factor'', ''2.5''] =
      Inr (cadence_defaults\<lparr>ca_calibrate := 8, ca_factor := Finite (5 / 2)\<rparr>)"
proof -
  have "to_double (of_nat (nat (round_even (5 / 2 * 10 ^ 1))) / 10 ^ 1) = Finite (5 / 2)" "to_dec 8 = ''8''" "fixed 1 (5 / 2) = ''2.5''"
    by code_simp+
  then show ?thesis using cadence_options_checked [of 1 "5 / 2" 8] by simp
qed

end
