(* ===== verification/View.thy ===== *)
theory View
  imports Consumer Http Printing
begin

text \<open>
  The live view (\<^verbatim>\<open>src/view_main.cpp\<close>): a consumer that keeps bounded aggregates of what it sees and serves
  them as JSON. \<open>std::map\<close> is an association list in key order, \<open>std::deque\<close> and \<open>std::vector\<close> are lists. The HTTP
  thread takes the mutex twice, so \<open>json_stats\<close> gets the state as it is at each of the two moments. The page
  itself is a constant text and a parameter.
\<close>

section \<open>Rolling latency\<close>

definition kWindowNs :: u64 where "kWindowNs = 10000000000"
definition kMaxSamples :: nat where "kMaxSamples = 65536"

type_synonym rolling = "(u64 \<times> i64) list"

fun trim :: "u64 \<Rightarrow> rolling \<Rightarrow> rolling" where
  "trim cutoff [] = []"
| "trim cutoff (x # xs) =
     (if fst x < cutoff \<or> length (x # xs) > kMaxSamples then trim cutoff xs else x # xs)"

definition rolling_add :: "u64 \<Rightarrow> i64 \<Rightarrow> rolling \<Rightarrow> rolling" where
  "rolling_add now v xs =
     trim (if now > kWindowNs then now - kWindowNs else 0) (xs @ [(now, v)])"

definition rolling_values :: "rolling \<Rightarrow> i64 list" where
  "rolling_values xs = map snd xs"

definition span_s :: "rolling \<Rightarrow> rat" where
  "span_s xs =
     (if length xs < 2 then 0
      else rnd (rnd (of_nat (unat (fst (last xs) - fst (hd xs)))) / 1000000000))"

section \<open>State\<close>

definition kRateWindow :: nat where "kRateWindow = 60"
definition kRecentFrames :: nat where "kRecentFrames = 40"
definition kMaxIds :: nat where "kMaxIds = 256"

record id_stat =
  iv_count :: u64
  iv_last_seen_ns :: u64
  iv_src_id :: u8
  iv_len :: u8
  iv_data :: "u8 list"

definition id_stat0 :: id_stat where
  "id_stat0 = \<lparr>iv_count = 0, iv_last_seen_ns = 0, iv_src_id = 0, iv_len = 0, iv_data = replicate 8 0\<rparr>"

record view = consumer +
  vw_connected :: bool
  vw_frames :: u64
  vw_batches :: u64
  vw_reconnects :: u64
  vw_first_seq :: u64
  vw_last_seq :: u64
  vw_have_seq :: bool
  vw_ids :: "(u32 \<times> id_stat) list"
  vw_recent :: "frame list"
  vw_rate :: "u64 list"
  vw_rate_pos :: nat
  vw_frames_at_tick :: u64
  vw_latency :: rolling
  vw_off_domain :: u64
  vw_started_ns :: u64
  vw_next_tick :: u64

definition view_new :: "u64 \<Rightarrow> u64 \<Rightarrow> view" where
  "view_new started now = \<lparr>co_link = no_link, co_gaps = gap_tracker0, co_protocol_errs = 0, vw_connected = False,
     vw_frames = 0, vw_batches = 0, vw_reconnects = 0, vw_first_seq = 0, vw_last_seq = 0, vw_have_seq = False,
     vw_ids = [], vw_recent = [], vw_rate = replicate kRateWindow 0, vw_rate_pos = 0, vw_frames_at_tick = 0,
     vw_latency = [], vw_off_domain = 0, vw_started_ns = started, vw_next_tick = now + 1000000000\<rparr>"

section \<open>Consuming\<close>

text \<open>Insertion into and update of the ordered map.\<close>

fun id_put :: "u32 \<Rightarrow> id_stat \<Rightarrow> (u32 \<times> id_stat) list \<Rightarrow> (u32 \<times> id_stat) list" where
  "id_put k v [] = [(k, v)]"
| "id_put k v ((k', v') # m) =
     (if k = k' then (k, v) # m else if k < k' then (k, v) # (k', v') # m else (k', v') # id_put k v m)"

definition id_seen :: "u64 \<Rightarrow> frame \<Rightarrow> id_stat \<Rightarrow> id_stat" where
  "id_seen now f s = s\<lparr>iv_count := iv_count s + 1, iv_last_seen_ns := now, iv_src_id := src_id f, iv_len := len f,
     iv_data := data f\<rparr>"

definition view_ids :: "u64 \<Rightarrow> frame \<Rightarrow> (u32 \<times> id_stat) list \<Rightarrow> (u32 \<times> id_stat) list" where
  "view_ids now f ids =
     (case map_of ids (can_id f) of
        Some s \<Rightarrow> id_put (can_id f) (id_seen now f s) ids
      | None \<Rightarrow> if length ids < kMaxIds then id_put (can_id f) (id_seen now f id_stat0) ids else ids)"

definition view_recent :: "frame \<Rightarrow> frame list \<Rightarrow> frame list" where
  "view_recent f fs = (let fs = fs @ [f] in if length fs > kRecentFrames then tl fs else fs)"

text \<open>One record of a batch.\<close>

definition view_record :: "u64 \<Rightarrow> frame \<Rightarrow> view \<Rightarrow> view" where
  "view_record now f s =
     (if is_echo f then s\<lparr>co_link := echo_back f (co_link s)\<rparr>
      else case observe f (co_gaps s) of
        (is_data, g) \<Rightarrow>
          let s = s\<lparr>co_gaps := g\<rparr> in
          if \<not> is_data then s
          else
            let s = (if \<not> vw_have_seq s then s\<lparr>vw_first_seq := seq f\<rparr> else s);
                s = s\<lparr>vw_last_seq := seq f, vw_have_seq := True, vw_frames := vw_frames s + 1\<rparr>;
                delay = sint now - sint (t_ingest_ns f);
                s = (if \<not> same_clock_domain delay then s\<lparr>vw_off_domain := vw_off_domain s + 1\<rparr>
                     else s\<lparr>vw_latency := rolling_add now delay (vw_latency s)\<rparr>)
            in s\<lparr>vw_ids := view_ids now f (vw_ids s), vw_recent := view_recent f (vw_recent s)\<rparr>)"

definition view_tick :: "u64 \<Rightarrow> view \<Rightarrow> view" where
  "view_tick now s =
     (if now \<ge> vw_next_tick s
      then s\<lparr>vw_next_tick := now + 1000000000,
             vw_rate := (vw_rate s)[vw_rate_pos s := vw_frames s - vw_frames_at_tick s],
             vw_frames_at_tick := vw_frames s, vw_rate_pos := (vw_rate_pos s + 1) mod kRateWindow\<rparr>
      else s)"

definition view_turn :: "turn_env \<Rightarrow> view \<Rightarrow> bool \<times> view" where
  "view_turn env s =
     (case consumer_read env s of
        (st, batch, s) \<Rightarrow>
          if st = StClosed then (True, s)
          else
            let now = te_now env;
                s = (if st = StProtocolError then s\<lparr>co_protocol_errs := co_protocol_errs s + 1\<rparr>
                     else if st = StOk \<and> batch \<noteq> []
                     then fold (view_record now) batch (s\<lparr>vw_batches := vw_batches s + 1\<rparr>) else s)
            in (st = StProtocolError, view_tick now s))"

definition view_connected :: "u64 \<Rightarrow> view \<Rightarrow> view" where
  "view_connected now s = s\<lparr>vw_connected := True, vw_reconnects := vw_reconnects s + 1, co_gaps := tracker_reset (co_gaps s)\<rparr>"

definition view_ended :: "view \<Rightarrow> view" where
  "view_ended s = s\<lparr>vw_connected := False\<rparr>"

definition view_run :: "(u64 \<times> u8 list \<times> turn_env list) option list \<Rightarrow> view \<Rightarrow> view" where
  "view_run cs s = snd (run_consumer True view_connected view_turn view_ended cs s)"

section \<open>Serving\<close>

text \<open>Conversions of \<^verbatim>\<open>printf\<close>. \<open>%.1f\<close> and \<open>%.0f\<close> are only applied to values that are not negative.\<close>

definition fixed1 :: "rat \<Rightarrow> string" where
  "fixed1 x = (let n = nat (round_even (x * 10)) in to_dec (n div 10) @ ''.'' @ to_dec (n mod 10))"

definition fixed0 :: "rat \<Rightarrow> string" where
  "fixed0 x = to_dec (nat (round_even x))"

text \<open>\<^verbatim>\<open>snprintf\<close> into \<^verbatim>\<open>char buf[512]\<close>.\<close>

definition into_buf :: "string \<Rightarrow> string" where
  "into_buf s = take 511 s"

definition kHex :: string where "kHex = ''0123456789ABCDEF''"

definition hex_bytes :: "u8 \<Rightarrow> u8 list \<Rightarrow> string" where
  "hex_bytes n bs =
     concat (map (\<lambda>i. [kHex ! unat (drop_bit 4 (bs ! i)), kHex ! unat (bs ! i AND 0x0F)]) [0..<unat n])"

definition hex_payload :: "frame \<Rightarrow> string" where
  "hex_payload f = hex_bytes (len f) (data f)"

fun comma :: "string list \<Rightarrow> string" where
  "comma [] = []"
| "comma [x] = x"
| "comma (x # y # xs) = x @ '','' @ comma (y # xs)"

definition json_id :: "u64 \<Rightarrow> u32 \<times> id_stat \<Rightarrow> string" where
  "json_id now = (\<lambda>(i, s).
     into_buf (''{\"id\":'' @ dec_u i @ '',\"count\":'' @ dec_u (iv_count s) @ '',\"src\":'' @ dec_u (iv_src_id s) @
       '',\"len\":'' @ dec_u (iv_len s) @ '',\"age_ms\":'' @
       fixed0 (rnd (rnd (of_nat (unat (now - iv_last_seen_ns s))) / 1000000)) @ '',\"data\":\"'') @
     hex_bytes (iv_len s) (iv_data s) @ ''\"}'')"

definition json_recent :: "frame \<Rightarrow> string" where
  "json_recent f =
     into_buf (''{\"seq\":'' @ dec_u (seq f) @ '',\"id\":'' @ dec_u (can_id f) @ '',\"src\":'' @ dec_u (src_id f) @
       '',\"len\":'' @ dec_u (len f) @ '',\"data\":\"'' @ hex_payload f @ ''\"}'')"

definition json_head :: "view \<Rightarrow> u16 \<Rightarrow> u64 \<Rightarrow> string" where
  "json_head st port now =
     ''{\"connected\":'' @ (if vw_connected st then ''true'' else ''false'') @ '',\"port\":'' @ dec_u port @
     '',\"uptime_s\":'' @ fixed1 (rnd (rnd (of_nat (unat (now - vw_started_ns st))) / 1000000000)) @
     '',\"frames\":'' @ dec_u (vw_frames st) @ '',\"batches\":'' @ dec_u (vw_batches st) @
     '',\"markers\":'' @ dec_u (gs_markers (gt_s (co_gaps st))) @ '',\"missing\":'' @ dec_u (total_lost (co_gaps st)) @
     '',\"silent\":'' @ dec_u (gs_silent_jumps (gt_s (co_gaps st))) @ '',\"reconnects\":'' @ dec_u (vw_reconnects st) @
     '',\"protocol_errs\":'' @ dec_u (co_protocol_errs st) @ '',\"first_seq\":'' @ dec_u (vw_first_seq st) @
     '',\"last_seq\":'' @ dec_u (vw_last_seq st) @ '',''"

definition json_latency :: "view \<Rightarrow> percentiles \<Rightarrow> rat \<Rightarrow> string" where
  "json_latency st p sp =
     ''\"latency\":{\"n\":'' @ dec_u (pc_count p) @ '',\"off_domain\":'' @ dec_u (vw_off_domain st) @
     '',\"shared_clock\":'' @ (if vw_off_domain st > vw_frames st div 2 then ''false'' else ''true'') @
     '',\"span_s\":'' @ fixed1 sp @ '',\"min\":'' @ dec_i (pc_min p) @ '',\"p50\":'' @ dec_i (pc_p50 p) @
     '',\"p90\":'' @ dec_i (pc_p90 p) @ '',\"p99\":'' @ dec_i (pc_p99 p) @ '',\"p999\":'' @ dec_i (pc_p999 p) @
     '',\"max\":'' @ dec_i (pc_max p) @ ''},''"

text \<open>\<open>snap\<close> is the state under the first lock, \<open>st\<close> the state under the second.\<close>

definition json_stats :: "view \<Rightarrow> view \<Rightarrow> u16 \<Rightarrow> u64 \<Rightarrow> string" where
  "json_stats snap st port now =
     (let p = fst (percentiles_of (rolling_values (vw_latency snap))); sp = span_s (vw_latency snap)
      in into_buf (json_head st port now) @ into_buf (json_latency st p sp) @
         ''\"rate\":['' @ comma (map (\<lambda>i. dec_u (vw_rate st ! ((vw_rate_pos st + i) mod kRateWindow))) [0..<kRateWindow]) @
         ''],\"ids\":['' @ comma (map (json_id now) (vw_ids st)) @
         ''],\"recent\":['' @ comma (map json_recent (rev (vw_recent st))) @ '']}'')"

text \<open>The handler given to the server.\<close>

definition view_handler :: "string \<Rightarrow> view \<Rightarrow> view \<Rightarrow> u16 \<Rightarrow> u64 \<Rightarrow> string \<Rightarrow> response" where
  "view_handler page snap st port now path =
     (if path = ''/stats.json''
      then \<lparr>rs_status = 200, rs_content_type = ''application/json'', rs_body = json_stats snap st port now\<rparr>
      else if path = ''/'' \<or> path = ''/index.html''
      then \<lparr>rs_status = 200, rs_content_type = ''text/html; charset=utf-8'', rs_body = page\<rparr>
      else \<lparr>rs_status = 404, rs_content_type = ''text/plain'', rs_body = ''not found''\<rparr>)"

section \<open>What a stream delivers\<close>

text \<open>Whatever the peer sends, the records that come out of the decoder satisfy the rules of the format.\<close>

lemma decode_frame_wire_ok: "decode_frame p = Inr f \<Longrightarrow> wire_ok f"
  by (auto simp: decode_frame_def Let_def wire_ok_def frame_ok_def split: if_splits)

lemma decode_records_wire_ok:
  "decode_records k i buf out = (e, out') \<Longrightarrow> list_all wire_ok out \<Longrightarrow> list_all wire_ok out'"
  by (induction k i buf out rule: decode_records.induct) (auto split: sum.splits dest: decode_frame_wire_ok)

lemma read_payload_wire_ok: "read_payload es inc s = (st, out, s', inc') \<Longrightarrow> list_all wire_ok out"
  by (auto simp: read_payload_def Let_def split: prod.splits if_splits dest: decode_records_wire_ok)

lemma stream_read_wire_ok: "stream_read_batch es inc s = (st, out, s', inc') \<Longrightarrow> list_all wire_ok out"
  by (auto simp: stream_read_batch_def Let_def split: prod.splits if_splits sum.splits dest: read_payload_wire_ok)

section \<open>The view stays bounded\<close>

definition id_ok :: "u32 \<times> id_stat \<Rightarrow> bool" where
  "id_ok x \<longleftrightarrow> unat (iv_len (snd x)) \<le> kMaxPayload \<and> length (iv_data (snd x)) = kMaxPayload"

definition view_inv :: "view \<Rightarrow> bool" where
  "view_inv s \<longleftrightarrow>
     length (vw_ids s) \<le> kMaxIds \<and> sorted_wrt (<) (map fst (vw_ids s)) \<and> list_all id_ok (vw_ids s) \<and>
     length (vw_recent s) \<le> kRecentFrames \<and> list_all wire_ok (vw_recent s) \<and>
     length (vw_rate s) = kRateWindow \<and> vw_rate_pos s < kRateWindow \<and>
     length (vw_latency s) \<le> kMaxSamples \<and> list_all (\<lambda>x. same_clock_domain (snd x)) (vw_latency s) \<and>
     vw_frames s = gs_frames (gt_s (co_gaps s))"

lemma length_trim: "length (trim c xs) \<le> kMaxSamples"
  by (induction xs) (auto simp: kMaxSamples_def)

lemma set_trim: "set (trim c xs) \<subseteq> set xs"
  by (induction xs) auto

lemma rolling_add_ok:
  "list_all P xs \<Longrightarrow> P (now, v) \<Longrightarrow> list_all P (rolling_add now v xs)"
  "length (rolling_add now v xs) \<le> kMaxSamples"
  using set_trim by (fastforce simp: rolling_add_def list_all_iff Let_def length_trim)+

lemma set_id_put: "set (id_put k v m) \<subseteq> insert (k, v) (set m)"
  by (induction m) (auto split: if_splits)

lemma sorted_id_put: "sorted_wrt (<) (map fst m) \<Longrightarrow> sorted_wrt (<) (map fst (id_put k v m))"
proof (induction m)
  case (Cons x m)
  have "k' \<in> insert k (fst ` set m)" if "(k', v') \<in> set (id_put k v m)" for k' v'
    using set_id_put that by force
  then show ?case using Cons by (cases x) (fastforce dest: less_trans)
qed simp

lemma length_id_put: "map_of m k = Some s \<Longrightarrow> sorted_wrt (<) (map fst m) \<Longrightarrow> length (id_put k v m) = length m"
proof (induction m)
  case (Cons x m)
  obtain k' s' where x: "x = (k', s')" by fastforce
  have "k' < k" if "k \<noteq> k'"
    using Cons.prems that x by (auto dest!: map_of_SomeD)
  then have "\<not> k < k'" by (cases "k = k'") auto
  then show ?case using Cons x by auto
qed simp

lemma length_id_put_le: "length (id_put k v m) \<le> Suc (length m)"
  by (induction m) auto

lemma view_ids_inv:
  assumes "wire_ok f" "length m \<le> kMaxIds" "sorted_wrt (<) (map fst m)" "list_all id_ok m"
  shows "length (view_ids now f m) \<le> kMaxIds" "sorted_wrt (<) (map fst (view_ids now f m))" "list_all id_ok (view_ids now f m)"
proof -
  have new: "id_ok (can_id f, id_seen now f s)" for s
    using assms(1) by (simp add: id_ok_def id_seen_def wire_ok_def frame_ok_def)
  have put: "list_all id_ok (id_put (can_id f) (id_seen now f s) m)" for s
    using set_id_put [of "can_id f" "id_seen now f s" m] new assms(4) by (auto simp: list_all_iff)
  show "list_all id_ok (view_ids now f m)" using put assms(4) by (simp add: view_ids_def split: option.splits)
  show "sorted_wrt (<) (map fst (view_ids now f m))"
    using sorted_id_put [OF assms(3)] assms(3) by (simp add: view_ids_def split: option.splits)
  show "length (view_ids now f m) \<le> kMaxIds"
    using length_id_put [OF _ assms(3)] length_id_put_le [of "can_id f" "id_seen now f id_stat0" m] assms(2)
    by (auto simp: view_ids_def split: option.splits)
qed

lemma view_recent_inv:
  assumes "wire_ok f" "length fs \<le> kRecentFrames" "list_all wire_ok fs"
  shows "length (view_recent f fs) \<le> kRecentFrames" "list_all wire_ok (view_recent f fs)"
  using assms by (auto simp: view_recent_def Let_def list_all_iff dest: list.set_sel(2) [rotated] split: if_splits)
    (metis Nil_is_append_conv insert_iff list.set_sel(2) list.simps(15) not_Cons_self2 set_append Un_iff empty_iff empty_set)

lemma view_record_inv:
  assumes "view_inv s" "wire_ok f"
  shows "view_inv (view_record now f s)"
proof (cases "is_echo f")
  case True
  then show ?thesis using assms(1) by (simp add: view_record_def view_inv_def)
next
  case False
  obtain b g where o: "observe f (co_gaps s) = (b, g)" by fastforce
  show ?thesis
  proof (cases b)
    case True
    then show ?thesis using assms False o observe_frames [OF o] rolling_add_ok
        view_ids_inv [OF assms(2)] view_recent_inv [OF assms(2)]
      by (simp add: view_record_def view_inv_def Let_def)
  next
    case f: False
    then show ?thesis using assms(1) False o observe_frames [OF o] by (simp add: view_record_def view_inv_def)
  qed
qed

lemma view_batch_inv: "list_all wire_ok batch \<Longrightarrow> view_inv s \<Longrightarrow> view_inv (fold (view_record now) batch s)"
  by (induction batch arbitrary: s) (simp_all add: view_record_inv)

lemma view_tick_inv: "view_inv s \<Longrightarrow> view_inv (view_tick now s)"
  by (simp add: view_tick_def view_inv_def kRateWindow_def)

lemma view_turn_inv:
  assumes inv: "view_inv s" and t: "view_turn env s = (stop, s')"
  shows "view_inv s'"
proof -
  obtain st out str inc where r: "stream_read_batch (te_reads env) (ln_in (co_link s)) (ln_stream (co_link s)) = (st, out, str, inc)"
    by (metis prod_cases4)
  let ?s1 = "s\<lparr>co_link := (co_link s)\<lparr>ln_stream := str, ln_in := inc, ln_sends := te_sends env\<rparr>\<rparr>"
  have i: "view_inv ?s1" "view_inv (?s1\<lparr>co_protocol_errs := e\<rparr>)" "view_inv (?s1\<lparr>vw_batches := n\<rparr>)" for e n
    using inv by (simp_all add: view_inv_def)
  have b: "view_inv (fold (view_record (te_now env)) out (?s1\<lparr>vw_batches := vw_batches ?s1 + 1\<rparr>))"
    by (rule view_batch_inv [OF stream_read_wire_ok [OF r] i(3)])
  show ?thesis using t i b by (auto simp: view_turn_def consumer_read_Pair [OF r] Let_def view_tick_inv split: if_splits)
qed

text \<open>(C34) The view's state is bounded, whoever it is connected to. Over any number of connections that deliver any
  bytes: it keeps at most 256 identifiers in strictly increasing order, at most 40 recent frames, 60 rate
  slots with a write position inside them, and 65536 latency samples, each a plausible delay on one clock;
  every payload it keeps has a length of at most 8 and eight bytes behind it, so that printing it reads inside
  the array; and the frames it counts are the frames its tracker counts.\<close>

theorem view_stays_bounded: "view_inv (view_run cs (view_new started now))"
proof -
  have "view_inv (view_new started now)"
    by (simp add: view_inv_def view_new_def gap_tracker0_def gap_stats0_def kRateWindow_def)
  moreover have "view_inv (view_connected t (new_link inc s))" if "view_inv s" for t inc s
    using that by (simp add: view_inv_def view_connected_def new_link_def tracker_reset_def)
  moreover have "view_inv (view_ended s)" if "view_inv s" for s using that by (simp add: view_inv_def view_ended_def)
  ultimately show ?thesis unfolding view_run_def by (intro run_consumer_inv [of view_inv view_turn, OF view_turn_inv]) simp_all
qed

section \<open>The contract of consumers\<close>

interpretation view_rec: record_handler "view_record now"
proof
  fix f s
  show "is_echo f \<Longrightarrow> co_link (view_record now f s) = echo_back f (co_link s) \<and> co_gaps (view_record now f s) = co_gaps s"
    by (simp add: view_record_def)
  show "\<not> is_echo f \<Longrightarrow> co_link (view_record now f s) = co_link s \<and> co_gaps (view_record now f s) = snd (observe f (co_gaps s))"
    by (simp add: view_record_def Let_def split: prod.splits)
  show "co_protocol_errs (view_record now f s) = co_protocol_errs s"
    by (simp add: view_record_def Let_def split: prod.splits)
qed

interpretation viewer: tracking_consumer view_turn
proof
  fix env and s s' :: view and stop st out str inc
  assume t: "view_turn env s = (stop, s')"
    and r: "stream_read_batch (te_reads env) (ln_in (co_link s)) (ln_stream (co_link s)) = (st, out, str, inc)"
  have tick: "co_link (view_tick n u) = co_link u" "co_gaps (view_tick n u) = co_gaps u"
      "co_protocol_errs (view_tick n u) = co_protocol_errs u" for n u by (simp_all add: view_tick_def)
  show "sans_drops (ln_stream (co_link s')) = sans_drops str \<and> ln_in (co_link s') = inc \<and>
      co_gaps s' = (if st = StOk then observe_all (data_records out) (co_gaps s) else co_gaps s) \<and>
      co_protocol_errs s' = (if st = StProtocolError then co_protocol_errs s + 1 else co_protocol_errs s) \<and>
      stop = (st = StClosed \<or> st = StProtocolError)"
    using t by (cases st; cases "out = []")
      (auto simp: view_turn_def consumer_read_Pair [OF r] Let_def tick view_rec.handles data_records_def)
qed

section \<open>The document\<close>

text \<open>A JSON value and its text; a number is given by its text.\<close>

datatype json = JNum string | JBool bool | JStr string | JArr "json list" | JObj "(string \<times> json) list"

fun json_text :: "json \<Rightarrow> string" where
  "json_text (JNum s) = s"
| "json_text (JBool b) = (if b then ''true'' else ''false'')"
| "json_text (JStr s) = ''\"'' @ s @ ''\"''"
| "json_text (JArr js) = ''['' @ comma (map json_text js) @ '']''"
| "json_text (JObj kvs) = ''{'' @ comma (map (\<lambda>(k, v). ''\"'' @ k @ ''\":'' @ json_text v) kvs) @ ''}''"

text \<open>The document the page is meant to get.\<close>

definition num :: "'a::len word \<Rightarrow> json" where
  "num w = JNum (dec_u w)"

definition id_value :: "u64 \<Rightarrow> u32 \<times> id_stat \<Rightarrow> json" where
  "id_value now x =
     JObj [(''id'', num (fst x)), (''count'', num (iv_count (snd x))), (''src'', num (iv_src_id (snd x))),
       (''len'', num (iv_len (snd x))),
       (''age_ms'', JNum (fixed0 (rnd (rnd (of_nat (unat (now - iv_last_seen_ns (snd x)))) / 1000000)))),
       (''data'', JStr (hex_bytes (iv_len (snd x)) (iv_data (snd x))))]"

definition recent_value :: "frame \<Rightarrow> json" where
  "recent_value f =
     JObj [(''seq'', num (seq f)), (''id'', num (can_id f)), (''src'', num (src_id f)), (''len'', num (len f)),
       (''data'', JStr (hex_payload f))]"

definition latency_value :: "view \<Rightarrow> percentiles \<Rightarrow> rat \<Rightarrow> json" where
  "latency_value st p sp =
     JObj [(''n'', num (pc_count p)), (''off_domain'', num (vw_off_domain st)),
       (''shared_clock'', JBool (vw_off_domain st \<le> vw_frames st div 2)), (''span_s'', JNum (fixed1 sp)),
       (''min'', JNum (dec_i (pc_min p))), (''p50'', JNum (dec_i (pc_p50 p))), (''p90'', JNum (dec_i (pc_p90 p))),
       (''p99'', JNum (dec_i (pc_p99 p))), (''p999'', JNum (dec_i (pc_p999 p))), (''max'', JNum (dec_i (pc_max p)))]"

definition head_fields :: "view \<Rightarrow> u16 \<Rightarrow> u64 \<Rightarrow> (string \<times> json) list" where
  "head_fields st port now =
     [(''connected'', JBool (vw_connected st)), (''port'', num port),
      (''uptime_s'', JNum (fixed1 (rnd (rnd (of_nat (unat (now - vw_started_ns st))) / 1000000000)))),
      (''frames'', num (vw_frames st)), (''batches'', num (vw_batches st)),
      (''markers'', num (gs_markers (gt_s (co_gaps st)))), (''missing'', num (total_lost (co_gaps st))),
      (''silent'', num (gs_silent_jumps (gt_s (co_gaps st)))), (''reconnects'', num (vw_reconnects st)),
      (''protocol_errs'', num (co_protocol_errs st)), (''first_seq'', num (vw_first_seq st)),
      (''last_seq'', num (vw_last_seq st))]"

definition stats_value :: "view \<Rightarrow> view \<Rightarrow> u16 \<Rightarrow> u64 \<Rightarrow> json" where
  "stats_value snap st port now =
     JObj (head_fields st port now @
      [(''latency'', latency_value st (fst (percentiles_of (rolling_values (vw_latency snap)))) (span_s (vw_latency snap))),
       (''rate'', JArr (map num (drop (vw_rate_pos st) (vw_rate st) @ take (vw_rate_pos st) (vw_rate st)))),
       (''ids'', JArr (map (id_value now) (vw_ids st))),
       (''recent'', JArr (map recent_value (rev (vw_recent st))))])"

text \<open>How long the texts get.\<close>

lemma unat_below: "unat (w :: 'a::len word) < 2 ^ LENGTH('a)"
  by (rule unsigned_less)

lemma length_dec_word: "2 ^ LENGTH('a) \<le> (10 :: nat) ^ Suc k \<Longrightarrow> length (dec_u (w :: 'a::len word)) \<le> Suc k"
  unfolding dec_u_def by (intro length_to_dec order_less_le_trans [OF unat_below])

lemma length_dec_u:
  "length (dec_u (w :: 64 word)) \<le> 20" "length (dec_u (w1 :: 32 word)) \<le> 10" "length (dec_u (w2 :: 16 word)) \<le> 5"
  "length (dec_u (w3 :: 8 word)) \<le> 3"
  using length_dec_word [of 19 w] length_dec_word [of 9 w1] length_dec_word [of 4 w2] length_dec_word [of 2 w3]
  by simp_all

lemma length_dec_i: "0 \<le> i \<Longrightarrow> i \<le> kMaxPlausibleLatencyNs \<Longrightarrow> length (dec_i i) \<le> 13"
  using length_to_dec [of "nat i" 12] by (simp add: dec_i_def kMaxPlausibleLatencyNs_def)

lemma rnd_range: "0 \<le> x \<Longrightarrow> 0 \<le> rnd x \<and> rnd x \<le> 2 * x"
proof (cases "x = 0")
  case False
  assume "0 \<le> x"
  then have x: "0 < x" using False by simp
  have "\<bar>rnd x - x\<bar> * scale x \<le> 1 / 2" by (rule rnd_error [OF x])
  also have "\<dots> \<le> x * scale x" using scale_bounds(2) [OF x] by simp
  finally have "\<bar>rnd x - x\<bar> \<le> x" using scale_bounds(1) [OF x] by simp
  then show ?thesis by linarith
qed simp

lemma rnd_elapsed:
  assumes "0 < d"
  shows "0 \<le> rnd (rnd (of_nat (unat (t :: u64))) / d)" "rnd (rnd (of_nat (unat t)) / d) \<le> 2 ^ 66 / d"
proof -
  have "unat t \<le> 2 ^ LENGTH(64)" by (rule less_imp_le [OF unat_below])
  then have t: "rat_of_nat (unat t) \<le> 2 ^ LENGTH(64)" by (metis of_nat_le_iff of_nat_numeral of_nat_power)
  have r: "0 \<le> rnd (of_nat (unat t)) / d" "rnd (of_nat (unat t)) \<le> 2 ^ 65"
    using rnd_range [of "of_nat (unat t)", OF of_nat_0_le_iff] assms t by (simp_all del: of_nat_unat)
  show "0 \<le> rnd (rnd (of_nat (unat t)) / d)" using rnd_range [OF r(1)] by simp
  have "rnd (rnd (of_nat (unat t)) / d) \<le> 2 * (rnd (of_nat (unat t)) / d)" using rnd_range [OF r(1)] by simp
  also have "\<dots> \<le> 2 * (2 ^ 65 / d)" using r(2) assms by (simp add: divide_right_mono)
  finally show "rnd (rnd (of_nat (unat t)) / d) \<le> 2 ^ 66 / d" by simp
qed

lemma round_even_less: "0 \<le> x \<Longrightarrow> x + 1 \<le> of_nat n \<Longrightarrow> nat (round_even x) < n"
proof -
  assume x: "0 \<le> x" "x + 1 \<le> of_nat n"
  have "rat_of_int (round_even x) < of_nat n" using round_even_near [of x] x(2) by linarith
  then have "round_even x < int n" by (metis of_int_less_iff of_int_of_nat_eq)
  then show ?thesis using x by linarith
qed

lemma length_fixed1:
  assumes "0 \<le> x" "x \<le> 2 ^ 66 / 1000000000"
  shows "length (fixed1 x) \<le> 14"
proof -
  have "nat (round_even (x * 10)) < 10 ^ 12" using assms by (intro round_even_less) simp_all
  then have "nat (round_even (x * 10)) div 10 < 10 ^ Suc 10" by (simp add: less_mult_imp_div_less)
  then have "length (to_dec (nat (round_even (x * 10)) div 10)) \<le> Suc 10" by (rule length_to_dec)
  then show ?thesis by (simp add: fixed1_def Let_def to_dec.simps [of "_ mod 10"])
qed

lemma length_fixed0:
  assumes "0 \<le> x" "x \<le> 2 ^ 66 / 1000000"
  shows "length (fixed0 x) \<le> 15"
proof -
  have "nat (round_even x) < 10 ^ Suc 14" using assms by (intro round_even_less) simp_all
  then show ?thesis using length_to_dec [of _ 14] by (simp add: fixed0_def)
qed

lemma length_elapsed:
  "length (fixed1 (rnd (rnd (of_nat (unat (t :: u64))) / 1000000000))) \<le> 14"
  "length (fixed0 (rnd (rnd (of_nat (unat t)) / 1000000))) \<le> 15"
  by (intro length_fixed1 length_fixed0 rnd_elapsed; simp)+

lemma length_hex_bytes: "length (hex_bytes n bs) = 2 * unat n"
proof -
  have "length (concat (map (\<lambda>i. [f i, g i]) is)) = 2 * length is" for f g :: "nat \<Rightarrow> char" and "is"
    by (induction "is") simp_all
  then show ?thesis by (simp add: hex_bytes_def)
qed

lemma length_span_s: "length (fixed1 (span_s xs)) \<le> 14"
  unfolding span_s_def using length_elapsed(1) length_fixed1 [of 0] by simp

text \<open>Nothing is cut off.\<close>

lemma into_buf_id: "length s \<le> 511 \<Longrightarrow> into_buf s = s"
  by (simp add: into_buf_def)

lemma json_id_text: "json_id now x = json_text (id_value now x)"
proof -
  obtain i s where x: "x = (i, s)" by fastforce
  show ?thesis unfolding x json_id_def prod.case
    by (subst into_buf_id)
      (use length_dec_u(1) [of "iv_count s"] length_dec_u(2) [of i] length_dec_u(4) [of "iv_src_id s"]
        length_dec_u(4) [of "iv_len s"] length_elapsed(2) [of "now - iv_last_seen_ns s"]
       in \<open>simp_all add: id_value_def num_def\<close>)
qed

lemma json_recent_text:
  assumes "wire_ok f"
  shows "json_recent f = json_text (recent_value f)"
  unfolding json_recent_def
  by (subst into_buf_id)
    (use length_dec_u(1) [of "seq f"] length_dec_u(2) [of "can_id f"] length_dec_u(4) [of "src_id f"]
      length_dec_u(4) [of "len f"] assms
     in \<open>simp_all add: recent_value_def num_def hex_payload_def length_hex_bytes wire_ok_def kMaxPayload_def\<close>)

lemma json_head_fits: "length (json_head st port now) \<le> 511"
  using length_dec_u(1) [of "vw_frames st"] length_dec_u(1) [of "vw_batches st"] length_dec_u(3) [of port]
    length_dec_u(1) [of "gs_markers (gt_s (co_gaps st))"] length_dec_u(1) [of "total_lost (co_gaps st)"]
    length_dec_u(1) [of "gs_silent_jumps (gt_s (co_gaps st))"] length_dec_u(1) [of "vw_reconnects st"]
    length_dec_u(1) [of "co_protocol_errs st"] length_dec_u(1) [of "vw_first_seq st"] length_dec_u(1) [of "vw_last_seq st"]
    length_elapsed(1) [of "now - vw_started_ns st"]
  by (simp add: json_head_def)

lemma latency_figures:
  assumes "view_inv snap"
  shows "let p = fst (percentiles_of (rolling_values (vw_latency snap))) in
    \<forall>v \<in> {pc_min p, pc_p50 p, pc_p90 p, pc_p99 p, pc_p999 p, pc_max p}. 0 \<le> v \<and> v \<le> kMaxPlausibleLatencyNs"
proof (cases "rolling_values (vw_latency snap) = []")
  case True
  then show ?thesis by (simp add: percentiles_of_def percentiles0_def kMaxPlausibleLatencyNs_def)
next
  case False
  let ?p = "fst (percentiles_of (rolling_values (vw_latency snap)))"
  have "length (rolling_values (vw_latency snap)) \<le> 2 ^ 40"
    using assms by (simp add: view_inv_def rolling_values_def kMaxSamples_def)
  then have "{pc_min ?p, pc_p50 ?p, pc_p90 ?p, pc_p99 ?p, pc_p999 ?p, pc_max ?p} \<subseteq> set (rolling_values (vw_latency snap))"
    using percentile_values [OF False] by (simp add: Let_def)
  moreover have "0 \<le> v \<and> v \<le> kMaxPlausibleLatencyNs" if "v \<in> set (rolling_values (vw_latency snap))" for v
    using assms that by (auto simp: view_inv_def rolling_values_def list_all_iff same_clock_domain_def)
  ultimately show ?thesis unfolding Let_def by blast
qed

lemma json_latency_fits:
  assumes "view_inv snap"
  shows "length (json_latency st (fst (percentiles_of (rolling_values (vw_latency snap)))) (span_s (vw_latency snap))) \<le> 511"
proof -
  let ?p = "fst (percentiles_of (rolling_values (vw_latency snap)))"
  have "length (dec_i v) \<le> 13" if "v \<in> {pc_min ?p, pc_p50 ?p, pc_p90 ?p, pc_p99 ?p, pc_p999 ?p, pc_max ?p}" for v
    using latency_figures [OF assms] that length_dec_i unfolding Let_def by blast
  then have "length (dec_i (pc_min ?p)) \<le> 13" "length (dec_i (pc_p50 ?p)) \<le> 13" "length (dec_i (pc_p90 ?p)) \<le> 13"
      "length (dec_i (pc_p99 ?p)) \<le> 13" "length (dec_i (pc_p999 ?p)) \<le> 13" "length (dec_i (pc_max ?p)) \<le> 13" by blast+
  then show ?thesis
    using length_dec_u(1) [of "pc_count ?p"] length_dec_u(1) [of "vw_off_domain st"] length_span_s [of "vw_latency snap"]
    by (simp add: json_latency_def)
qed

lemma rotated:
  assumes "length xs = n" "k < n"
  shows "map (\<lambda>i. xs ! ((k + i) mod n)) [0..<n] = drop k xs @ take k xs"
  using assms by (intro nth_equalityI) (auto simp: nth_append mod_if add.commute)

lemma comma_append: "xs \<noteq> [] \<Longrightarrow> ys \<noteq> [] \<Longrightarrow> comma (xs @ ys) = comma xs @ '','' @ comma ys"
  by (induction xs rule: comma.induct) (auto simp: neq_Nil_conv)

definition field :: "string \<times> json \<Rightarrow> string" where
  "field x = ''\"'' @ fst x @ ''\":'' @ json_text (snd x)"

lemma json_text_obj: "json_text (JObj kvs) = ''{'' @ comma (map field kvs) @ ''}''"
  by (simp add: field_def [abs_def] case_prod_unfold)

text \<open>(C33) The page gets the document it is meant to get. For any two states of the bounded view, whatever their
  counters and at any time, the text that is put together from five formatted buffers of 512 bytes is the
  JSON text of \<open>stats_value\<close>: no buffer is ever too short, the rates come oldest first, the identifiers in
  increasing order and the frames newest first.\<close>

theorem json_stats_is_json:
  assumes "view_inv snap" "view_inv st"
  shows "json_stats snap st port now = json_text (stats_value snap st port now)"
proof -
  let ?p = "fst (percentiles_of (rolling_values (vw_latency snap)))" and ?sp = "span_s (vw_latency snap)"
  have rate: "map (\<lambda>i. dec_u (vw_rate st ! ((vw_rate_pos st + i) mod kRateWindow))) [0..<kRateWindow] =
      map (\<lambda>r. json_text (num r)) (drop (vw_rate_pos st) (vw_rate st) @ take (vw_rate_pos st) (vw_rate st))"
  proof -
    have "length (vw_rate st) = kRateWindow" "vw_rate_pos st < kRateWindow" using assms(2) by (simp_all add: view_inv_def)
    from arg_cong [OF rotated [OF this], of "map dec_u"] show ?thesis by (simp add: num_def comp_def)
  qed
  have recent: "map json_recent (rev (vw_recent st)) = map (\<lambda>f. json_text (recent_value f)) (rev (vw_recent st))"
    using assms(2) json_recent_text by (simp add: view_inv_def list_all_iff)
  have ids: "map (json_id now) (vw_ids st) = map (\<lambda>x. json_text (id_value now x)) (vw_ids st)"
    by (simp add: json_id_text)
  have latency: "json_latency st ?p ?sp = ''\"latency\":'' @ json_text (latency_value st ?p ?sp) @ '',''"
    by (simp add: json_latency_def latency_value_def num_def not_less linorder_not_le)
  have head: "json_head st port now = ''{'' @ comma (map field (head_fields st port now)) @ '',''"
    by (simp add: json_head_def head_fields_def field_def num_def)
  have ne: "map field (head_fields st port now) \<noteq> []" by (simp add: head_fields_def)
  show ?thesis unfolding json_stats_def Let_def into_buf_id [OF json_head_fits] into_buf_id [OF json_latency_fits [OF assms(1)]]
    unfolding rate recent ids latency head stats_value_def json_text_obj map_append list.map comma_append [OF ne list.distinct(2)]
    by (simp add: field_def comp_def)
qed

theorem json_stats_is_json_witness:
  "json_stats (view_new 0 0) (view_new 0 0) 7001 5 = json_text (stats_value (view_new 0 0) (view_new 0 0) 7001 5)"
  by (rule json_stats_is_json)
    (simp_all add: view_inv_def view_new_def gap_tracker0_def gap_stats0_def kRateWindow_def)

end
