(* ===== verification/Spec2Isabelle.thy ===== *)
theory Spec2Isabelle
  imports Gateway_Loop Recorder Isolation Round_Trip Ring_Properties Cadence_Options View
begin

text \<open>
  \<^bold>\<open>Edge Telemetry Gateway: a verification development.\<close>

  \<^bold>\<open>The program.\<close> The gateway reads CAN frames from a few sources and serves them to a few consumers over TCP,
  one port per consumer. A slow consumer never slows down the others: it loses frames, and is told how many.
  Sources (\<^verbatim>\<open>can_source.cpp\<close>, \<^verbatim>\<open>synthetic_source.cpp\<close>) are drained by ingest threads. In topology A one thread
  (\<^verbatim>\<open>fanout.cpp\<close>) numbers every frame and pushes it into one bounded, drop-oldest queue per consumer
  (\<^verbatim>\<open>bounded_queue.hpp\<close>); in topology B one thread per source (\<^verbatim>\<open>ring_ingest.cpp\<close>) publishes into one lock-free ring
  that every consumer reads with a cursor of its own (\<^verbatim>\<open>broadcast_ring.hpp\<close>). Behind the interface of \<^verbatim>\<open>feed.hpp\<close> one
  egress thread per consumer (\<^verbatim>\<open>egress.cpp\<close>) pops batches, puts a marker before a batch that does not continue the
  last one, adds latency probes and writes the wire format (\<^verbatim>\<open>wire.cpp\<close>). On the other side \<^verbatim>\<open>frame_stream.cpp\<close> parses
  the bytes and \<^verbatim>\<open>gap_tracker.hpp\<close> does the accounting, for four programs: the recorder (\<^verbatim>\<open>record_main.cpp\<close>), the latency
  probe (\<^verbatim>\<open>probe_main.cpp\<close>), the cadence monitor (\<^verbatim>\<open>cadence_main.cpp\<close> over \<^verbatim>\<open>cadence.hpp\<close>) and the live view
  (\<^verbatim>\<open>view_main.cpp\<close> over \<^verbatim>\<open>http.cpp\<close>). \<^verbatim>\<open>gen_main.cpp\<close> feeds a CAN interface on a fixed schedule and \<^verbatim>\<open>ring_stress.cpp\<close>
  attacks the ring. All paths are under \<^verbatim>\<open>src/\<close>.

  \<^bold>\<open>How code becomes definitions.\<close> A class is a record, a method a function that returns the record updated, an
  enumeration a datatype. Integers of the code are words of their width where they can wrap, or are written to the
  wire; indices into vectors are natural numbers. Anything that the operating system or another thread decides is an
  argument: a script of events (reads, writes, polls, timer ticks, system calls), a clock reading, or the portions in
  which frames arrive while a thread is waiting. The theorems quantify over all scripts. A call that can fail
  returns a sum, a loop that may not end is a \<open>partial_function\<close> into \<open>option\<close>, and where the theorems need its result
  they prove that there is one. Ghost fields (logs of what was published, sent or delivered) are never read by
  an operation.

  \<^bold>\<open>Theories, in the order of their imports.\<close>

  \<^item> \<open>Prelude\<close>: names of the machine types, theorem collections, facts on words, lists and indices.
  \<^item> \<open>Frame\<close> (\<^verbatim>\<open>frame.hpp\<close>) and \<open>Wire\<close> (\<^verbatim>\<open>wire.cpp\<close>): frames, flags, gap reasons; header and record codec. Encoding and
    decoding are inverse, and the headers and records accepted are exactly the described ones.
  \<^item> \<open>Bounded_Queue\<close>: the circular buffer. Its contract is the locale \<open>lossy_fifo\<close>, interpreted on \<open>push_batch\<close> and
    \<open>pop_batch\<close>; the buffer refines a drop-oldest list, and the counters reconcile when critical sections and
    counter updates of producer and consumer interleave.
  \<^item> \<open>Broadcast_Ring\<close>, \<open>Ring_Steps\<close>, \<open>Ring_Invariant\<close>, \<open>Ring_Safety\<close>, \<open>Ring_Properties\<close>: the ring, first as functions on
    a ring nobody else touches, then as one step per atomic access of any number of producers and readers
    (\<open>ring_step\<close>, \<open>ring_reachable\<close>). The invariant \<open>ring_inv\<close> gives: readers return whole frames, in ticket order, with
    every skipped position counted; a cell never has two writers; the oldest ticket can always be published. The
    functions are what the steps compute without interference.
  \<^item> \<open>Ring_Sequential\<close>: publishing appends to a log and reading returns a stretch of it; both return.
  \<^item> \<open>Stress\<close> (\<^verbatim>\<open>ring_stress.cpp\<close>): frames that prove their own integrity; on the step model the program reports OK.
  \<^item> \<open>Gap_Tracker\<close>: \<open>observe\<close> against an account of the stream over natural numbers.
  \<^item> \<open>Feed\<close>: both implementations of \<open>pop_batch\<close>, while producers interfere. The contracts \<open>consumer_feed\<close> (ascending
    numbered bus frames, and the call returns) and \<open>contained_feed\<close> (nothing but frames that were put in) are
    interpreted on both.
  \<^item> \<open>Frame_Stream\<close>: the resumable parser. Its result does not depend on how bytes are split or delayed, and it
    returns a batch as soon as the bytes are there; replies are written up to the first refusal.
  \<^item> \<open>Double\<close>, \<open>Samples\<close>: rounding of double operations on rationals (53 bits, ties to even, inside the normal
    exponent range), the decimating sample buffer and nearest-rank percentiles.
  \<^item> \<open>Egress\<close>, \<open>Egress_Safety\<close>: the thread function of the egress over any \<open>consumer_feed\<close>. What a connection has
    accepted is the encoding of the batches; batches are sent whole or the client is dropped; two lemmas show losses
    that go out without a marker (see the findings of the manifest).
  \<^item> \<open>Text\<close>, \<open>Options\<close>: C number parsing and printing, command lines of the programs, and a round trip for the gateway's.
  \<^item> \<open>Descriptors\<close> (\<^verbatim>\<open>tcp.cpp\<close> and the functions that open sockets, timers and events): over a scripted operating
    system. The contract \<open>opener\<close> says that a failing call leaves nothing open; it is interpreted on each of them.
  \<^item> \<open>Sources\<close>: both sources behind the locale \<open>frame_source\<close>; only bus frames, every tick owed or delivered, kernel
    drops counted across the wrap of the 32-bit counter.
  \<^item> \<open>Ingest\<close>: the fan-out thread and the ring ingest threads, with the order of their turns as a script.
  \<^item> \<open>Capture_File\<close>: the output stream of the recorder, as a buffer, a file and its synced part. The contract \<open>stable_log\<close> of a program that
    appends and commits is interpreted on it.
  \<^item> \<open>Consumer\<close>: connection, outer loop, recorder and probe. \<open>tracking_consumer\<close> is what every program does with its
    connection and its tracker, \<open>record_handler\<close> what it does per record; a whole session is proved once inside.
  \<^item> \<open>Cadence\<close>, \<open>Cadence_Program\<close>: the monitor flags exactly the faults of a specification over the whole history; no
    alarm spans a loss; the program's two counters agree.
  \<^item> \<open>Http\<close>, \<open>View\<close>: the server and the live view. Bounded state whatever the peers send; the statistics text is the
    JSON text of the intended document and is never cut by a buffer.
  \<^item> \<open>Generator\<close>: the absolute schedule, and the life of a timestamp from the generator to the probe.
  \<^item> \<open>Printing\<close>, \<open>Summaries\<close>: the conversions of \<^verbatim>\<open>printf\<close>, the CSV file of \<^verbatim>\<open>samples.cpp\<close>, and every line that recorder,
    probe, generator, cadence program and stress test print. Files and the stress test's output are read back.
  \<^item> \<open>Cadence_Options\<close>: \<^verbatim>\<open>strtod\<close> with all its forms, and the command line of the cadence program; what \<^verbatim>\<open>%.kf\<close> prints is
    read back as the nearest double.
  \<^item> \<open>Recorder\<close>: the recorder program as a whole, and what is in its file in the end and after a loss of power, over any number of connections.
  \<^item> \<open>Round_Trip\<close>: a latency probe from the egress to a consumer and back, and the account of probes over a run.
  \<^item> \<open>Delivery\<close>: what an egress that runs over a fed queue or ring has sent, and what a consumer makes of it.
  \<^item> \<open>Shutdown\<close>: \<open>start\<close>, \<open>stop\<close> and \<open>join\<close> of the four kinds of threads, and the shutdown of the gateway. The contract
    \<open>stoppable\<close> (a thread whose polls report the raised event returns) is interpreted on fan-out, ring ingest and
    server, and through \<open>closable_feed\<close> (a closed feed runs empty) on the egress over both feeds.
  \<^item> \<open>Ring_System\<close>, \<open>Queue_System\<close>: all threads of the gateway on one shared ring, or on shared queues, as a step relation whose
    steps are turns of threads and actions of the main thread; an invariant of the reachable states.
  \<^item> \<open>Isolation\<close>: the same steps as functions of a schedule. The contract \<open>unwinding\<close>, interpreted on both systems, gives that a schedule
    without the turns of one consumer leaves everything else unchanged.
  \<^item> \<open>Gateway\<close>, \<open>Gateway_Loop\<close> and this theory: the composition. \<open>gateway_start\<close> opens and wires all parts or cleans up;
    \<open>main_loop\<close> is the main thread with its tap and its reports, over \<open>faithful_feed\<close>, which joins both contracts of a
    feed; the theorems below follow frames from the sources to the four programs and to the disk of the recorder, and the gateway to its end.

  \<^bold>\<open>Bounds.\<close> Theorems on the ring and on sequence numbers hold for runs of up to \<open>2^62\<close> frames, where \<open>2 * pos + 2\<close> does
  not wrap. The exactness of percentile ranks covers up to \<open>2^40\<close> samples, far above the capacity of the buffer. The ring is always
  \<open>ring_new\<close> of the requested capacity; for a request above \<open>2^63\<close> its constructor does not return, and has the
  value \<open>None\<close>. No theorem rests on a fuel argument: scripts are finite, but of any length.

  \<^bold>\<open>Not modelled.\<close> Memory orders weaker than sequentially consistent ones (the payload accesses of a cell may take
  effect in any order, nothing else is reordered). Signal handlers: the flag they set is part of the scripts. Usage
  texts, the messages of the consumer programs on connections, the static page of the live view (a parameter of its handler), and the
  version text, which the build injects. Name resolution and \<^verbatim>\<open>strerror\<close> are parameters. In \<open>Ring_System\<close> and \<open>Queue_System\<close>
  a turn of a thread is one step; what other threads do inside a turn is a script of arrivals in \<open>Feed\<close>, \<open>Delivery\<close> and
  \<open>Shutdown\<close>, and interleaved access by access only in the ring's own step model.
\<close>

section \<open>End to end\<close>

text \<open>The four consumer programs, connected for the first time to what an egress has put on the wire.\<close>

definition recorder_on :: "egress \<Rightarrow> u64 \<Rightarrow> u64 \<Rightarrow> u64 \<Rightarrow> recorder" where
  "recorder_on e fsync_every start now = rec_connected now (new_link (e_wire e) (recorder_new fsync_every start))"

definition probe_on :: "egress \<Rightarrow> bool \<Rightarrow> bool \<Rightarrow> int \<Rightarrow> u64 \<Rightarrow> u64 \<Rightarrow> probe" where
  "probe_on e cross e2e warmup start now = probe_connected now (new_link (e_wire e) (probe_new cross e2e warmup now start))"

definition view_on :: "egress \<Rightarrow> u64 \<Rightarrow> u64 \<Rightarrow> view" where
  "view_on e started now = view_connected now (new_link (e_wire e) (view_new started now))"

definition cadence_on :: "egress \<Rightarrow> nat \<Rightarrow> rat \<Rightarrow> bool \<Rightarrow> u64 \<Rightarrow> cadence_program" where
  "cadence_on e calibrate factor gap_blind now = cadence_connected now (new_link (e_wire e) (cadence_new calibrate factor gap_blind))"

lemmas on_defs = recorder_on_def probe_on_def view_on_def cadence_on_def rec_connected_def probe_connected_def
  view_connected_def cadence_connected_def new_link_def no_link_def recorder_new_def probe_new_def view_new_def
  cadence_new_def tracker_reset_def gap_tracker0_def

text \<open>Every program, with any of its options and any reads, is in the position that \<open>delivered\<close> describes.\<close>

definition all_delivered :: "(frame \<Rightarrow> bool) \<Rightarrow> egress \<Rightarrow> turn_env list \<Rightarrow> u64 \<Rightarrow> bool" where
  "all_delivered good e envs now \<longleftrightarrow>
     (\<forall>fsync_every start. delivered good e (session rec_turn envs (recorder_on e fsync_every start now))) \<and>
     (\<forall>cross e2e warmup start. delivered good e (session probe_turn envs (probe_on e cross e2e warmup start now))) \<and>
     (\<forall>started. delivered good e (session view_turn envs (view_on e started now))) \<and>
     (\<forall>calibrate factor gap_blind. delivered good e (session cadence_turn envs (cadence_on e calibrate factor gap_blind now)))"

lemma all_programs:
  assumes "connection_ok e" "sent_from good e"
  shows "all_delivered good e envs now"
  unfolding all_delivered_def
  by (intro conjI allI; rule recorder.session_delivered [OF assms] prober.session_delivered [OF assms]
      tracking_consumer.session_delivered [OF viewer.tracking_consumer_axioms assms]
      tracking_consumer.session_delivered [OF cadencer.tracking_consumer_axioms assms])
    (simp_all add: on_defs)


text \<open>(C2) From the sources to the consumers, over queues. The fan-out thread drains its sources in any order, the
  frames it numbers reach a consumer's queue in portions of any size, and the egress thread of that consumer runs
  for any number of turns with any behaviour of the network: its calls return. While a client is connected, each
  of the four programs, reading the connection in any pieces, has read some first batches of it without a
  protocol error, and the bytes it has not yet made batches of are exactly those of the other batches; every frame it has got is, field by field, a frame that the fan-out thread numbered; and every
  sequence number from its first record to the one it expects next is accounted for exactly once, as a frame,
  as reported loss, as an absence, or as silent loss.\<close>

theorem queue_end_to_end:
  assumes "frames = log_frames (fo_log (fan_run polls (fanout_new sources sinks)))" "length frames \<le> 2 ^ 62"
    and "concat arrivals = frames" "0 < tn_max_frames t" "tn_max_frames t \<le> kMaxBatch"
  shows "\<exists>e q. egress_run queue_feed_pop closed_q turns (egress_new t) (arrivals, bq_new zero_frame capacity) = Some (e, q) \<and>
    (e_client e \<longrightarrow> all_delivered (\<lambda>f. f \<in> set frames) e envs now)"
proof -
  have "queue_span (length frames) 0 (arrivals, bq_new zero_frame capacity)" "queue_within (set frames) (arrivals, bq_new zero_frame capacity)"
    using fan_out_feeds [of frames arrivals capacity] fan_counted_run [OF fan_counted_new, of polls sources sinks] assms(1-3)
    by (simp_all add: fan_counted_def)
  from queue_egress [OF assms(4,5) this] all_programs show ?thesis unfolding head_inv_def by blast
qed

definition tick_env :: drain_env where
  "tick_env = \<lparr>de_timer = Ticks 2, de_recv = RecvAgain, de_realtime = 7, de_monotonic = 9\<rparr>"

theorem queue_end_to_end_witness:
  "let frames = log_frames (fo_log (fan_run [InReady [Some tick_env] True] (fanout_new [Synth (synth_new synth_config0)] [bq_new zero_frame 4])))
   in length frames = 2 \<and>
     (\<exists>e q. egress_run queue_feed_pop (\<lambda>_. False) [quiet_env] (egress_new \<lparr>tn_max_frames = 8, tn_linger_us = 0, tn_echo_ms = 0\<rparr>)
        ([frames], bq_new zero_frame 4) = Some (e, q) \<and> (e_client e \<longrightarrow> all_delivered (\<lambda>f. f \<in> set frames) e [capture_env] 0))"
proof -
  define frames where "frames = log_frames (fo_log (fan_run [InReady [Some tick_env] True] (fanout_new [Synth (synth_new synth_config0)] [bq_new zero_frame 4])))"
  have l: "length frames = 2" unfolding frames_def by code_simp
  then have "length frames \<le> 2 ^ 62" by simp
  from queue_end_to_end [OF frames_def this, of "[frames]" "\<lparr>tn_max_frames = 8, tn_linger_us = 0, tn_echo_ms = 0\<rparr>" "\<lambda>_. False" "[quiet_env]" 4 "[capture_env]" 0]
  show ?thesis unfolding Let_def frames_def [symmetric] using l by (simp add: kMaxBatch_def)
qed

text \<open>(C3) The same over the ring. The ingest threads publish in any order of their turns; every turn returns; the
  frames reach the ring in portions of any size, also while the egress thread is reading it. Every frame that a
  program has got is the published frame with the sequence number that is its place in the order of
  publication, and every sequence number is accounted for exactly once.\<close>

theorem ring_end_to_end:
  assumes "ring_new capacity = Some r" "kDrainBatch * length polls \<le> 2 ^ 62"
    and "ring_run polls (ring_ingest_new sources r) = Some ing"
    and "concat arrivals = log_frames (ri_log ing)" "0 < tn_max_frames t" "tn_max_frames t \<le> kMaxBatch"
  shows "\<exists>e r'. egress_run ring_feed_pop closed_r turns (egress_new t) ((ring_feed_new r)\<lparr>rf_arrivals := arrivals\<rparr>) = Some (e, r') \<and>
    (e_client e \<longrightarrow> all_delivered (of_log (log_frames (ri_log ing))) e envs now)"
proof -
  have "list_all bus_frame (log_frames (ri_log ing))" "length (log_frames (ri_log ing)) \<le> 2 ^ 62"
    using ring_log_bus [OF assms(1,2), of sources] assms(3) by auto
  from ring_egress [OF assms(5,6) ring_ingest_feeds [OF assms(1) this assms(4)]] all_programs show ?thesis unfolding head_inv_def by blast
qed

theorem ring_end_to_end_witness:
  "\<exists>r ing. ring_new 2 = Some r \<and> ring_run two_turns (ring_ingest_new (replicate 3 (Synth (synth_new synth_config0))) r) = Some ing \<and>
     (\<exists>e r'. egress_run ring_feed_pop (\<lambda>_. False) [quiet_env] (egress_new \<lparr>tn_max_frames = 8, tn_linger_us = 0, tn_echo_ms = 0\<rparr>)
        ((ring_feed_new r)\<lparr>rf_arrivals := [log_frames (ri_log ing)]\<rparr>) = Some (e, r') \<and>
      (e_client e \<longrightarrow> all_delivered (of_log (log_frames (ri_log ing))) e [capture_env] 0))"
proof -
  obtain r where r: "ring_new 2 = Some r" using ring_new_2 by blast
  have l: "kDrainBatch * length two_turns \<le> 2 ^ 62" by (simp add: two_turns_def kDrainBatch_def)
  obtain ing where i: "ring_run two_turns (ring_ingest_new (replicate 3 (Synth (synth_new synth_config0))) r) = Some ing"
    using ring_log_bus [OF r l] by blast
  let ?t = "\<lparr>tn_max_frames = 8, tn_linger_us = 0, tn_echo_ms = 0\<rparr>"
  have t: "concat [log_frames (ri_log ing)] = log_frames (ri_log ing)" "0 < tn_max_frames ?t" "tn_max_frames ?t \<le> kMaxBatch"
    by (simp_all add: kMaxBatch_def)
  show ?thesis using ring_end_to_end [OF r l i t] r i by blast
qed





section \<open>The gateway as one state\<close>













end
